(* ===== verification/Coro_Prelude.thy ===== *)
theory Coro_Prelude
  imports Main "HOL-Library.Word" "HOL-Library.Multiset"
begin

text \<open>
  The vocabulary shared by all components: the ways the C++ code can go wrong
  (\<open>fault\<close>, \<open>outcome\<close>), the part of \<open>std::vector\<close> and of
  \<open>std::chrono::milliseconds\<close> the code uses, reachability in a step relation with the
  interface \<open>safe_system\<close> through which every component proves its invariants, and
  counting lemmas for the per-thread lists of the scheduler.
\<close>

named_theorems outcome_simps "rules that compute with outcomes"

unbundle bit_operations_syntax

section \<open>Faults and outcomes\<close>

text \<open>
  Every abort and every undefined behaviour the modelled code can run into is a value. The build
  has no \<open>NDEBUG\<close>, so a failed \<open>assert\<close> (directly or through \<open>MYASSERT\<close>
  and \<open>error_handling\<close>, Fiber.h) ends the process.
\<close>

datatype fault =
    Assert_Fail string
  | Out_Of_Bounds
  | Erase_End
  | Null_Deref
  | Signed_Overflow
  | Bad_Context
  | Would_Block

type_synonym 'a outcome = "fault + 'a"

definition obind :: "'a outcome \<Rightarrow> ('a \<Rightarrow> 'b outcome) \<Rightarrow> 'b outcome" where
  "obind m f = (case m of Inl e \<Rightarrow> Inl e | Inr x \<Rightarrow> f x)"

lemma obind_simps [simp, outcome_simps]:
  "obind (Inl e) f = Inl e"
  "obind (Inr x) f = f x"
  by (simp_all add: obind_def)

lemma obind_Inr_iff [outcome_simps]:
  "obind m f = Inr y \<longleftrightarrow> (\<exists>x. m = Inr x \<and> f x = Inr y)"
  by (cases m) simp_all

lemma obind_InrE [elim]:
  assumes "obind m f = Inr y"
  obtains x where "m = Inr x" and "f x = Inr y"
  using assms by (auto simp: obind_Inr_iff)

lemma obind_cong [cong]: "m = m' \<Longrightarrow> (\<And>x. m' = Inr x \<Longrightarrow> f x = g x) \<Longrightarrow> obind m f = obind m' g"
  by (cases m') simp_all

text \<open>\<open>MYASSERT(flag, expression)\<close>: print and \<open>assert(false)\<close> when the flag is false.\<close>

definition MYASSERT :: "bool \<Rightarrow> string \<Rightarrow> unit outcome" where
  "MYASSERT flag expression = (if flag = False then Inl (Assert_Fail expression) else Inr ())"

lemma MYASSERT_simps [simp, outcome_simps]:
  "MYASSERT True e = Inr ()"
  "MYASSERT False e = Inl (Assert_Fail e)"
  by (simp_all add: MYASSERT_def)

lemma MYASSERT_Inr_iff [simp, outcome_simps]: "MYASSERT b e = Inr u \<longleftrightarrow> b"
  by (simp add: MYASSERT_def)

text \<open>Dereferencing a smart pointer that may be null, or a pointer into a store.\<close>

definition deref :: "('p \<rightharpoonup> 'a) \<Rightarrow> 'p \<Rightarrow> 'a outcome" where
  "deref h p = (case h p of None \<Rightarrow> Inl Null_Deref | Some x \<Rightarrow> Inr x)"

lemma deref_Inr_iff [simp, outcome_simps]: "deref h p = Inr x \<longleftrightarrow> h p = Some x"
  by (simp add: deref_def split: option.splits)

lemma deref_Some [simp]: "h p = Some x \<Longrightarrow> deref h p = Inr x"
  by simp

lemma deref_None: "h p = None \<Longrightarrow> deref h p = Inl Null_Deref"
  by (simp add: deref_def)

section \<open>\<open>std::vector\<close> indexed by an \<open>int\<close>\<close>

text \<open>
  The code indexes vectors with a file descriptor, an \<open>int\<close>. A negative index converts to
  a huge \<open>size_t\<close>, so it is out of bounds like one past the end; \<open>operator[]\<close>
  does not check, which makes both undefined behaviour.
\<close>

definition vec_get :: "'a list \<Rightarrow> int \<Rightarrow> 'a outcome" where
  "vec_get xs i = (if 0 \<le> i \<and> nat i < length xs then Inr (xs ! nat i) else Inl Out_Of_Bounds)"

definition vec_set :: "'a list \<Rightarrow> int \<Rightarrow> 'a \<Rightarrow> 'a list outcome" where
  "vec_set xs i x = (if 0 \<le> i \<and> nat i < length xs then Inr (xs[nat i := x]) else Inl Out_Of_Bounds)"

definition vec_resize :: "nat \<Rightarrow> 'a \<Rightarrow> 'a list \<Rightarrow> 'a list" where
  "vec_resize n d xs = take n xs @ replicate (n - length xs) d"

lemma length_vec_resize [simp]: "length (vec_resize n d xs) = n"
  by (simp add: vec_resize_def)

lemma vec_get_Inr_iff [outcome_simps]:
  "vec_get xs i = Inr x \<longleftrightarrow> 0 \<le> i \<and> nat i < length xs \<and> xs ! nat i = x"
  by (auto simp: vec_get_def)

lemma vec_get_in [simp]: "0 \<le> i \<Longrightarrow> nat i < length xs \<Longrightarrow> vec_get xs i = Inr (xs ! nat i)"
  by (simp add: vec_get_def)

lemma vec_get_out: "i < 0 \<or> int (length xs) \<le> i \<Longrightarrow> vec_get xs i = Inl Out_Of_Bounds"
  by (auto simp: vec_get_def)

lemma vec_set_in [simp]: "0 \<le> i \<Longrightarrow> nat i < length xs \<Longrightarrow> vec_set xs i x = Inr (xs[nat i := x])"
  by (simp add: vec_set_def)

lemma vec_set_out: "i < 0 \<or> int (length xs) \<le> i \<Longrightarrow> vec_set xs i x = Inl Out_Of_Bounds"
  by (auto simp: vec_set_def)

section \<open>Milliseconds\<close>

text \<open>
  \<open>std::chrono::milliseconds\<close> counts in a signed 64-bit integer; an addition or subtraction
  that leaves the range is undefined behaviour. \<open>milliseconds(~0ull)\<close> converts an
  unsigned constant to that representation, which makes it the duration \<open>-1\<close>.
\<close>

type_synonym millis = int

definition ms_in_range :: "millis \<Rightarrow> bool" where
  "ms_in_range x \<longleftrightarrow> - (2 ^ 63) \<le> x \<and> x < 2 ^ 63"

definition ms_add :: "millis \<Rightarrow> millis \<Rightarrow> millis outcome" where
  "ms_add a b = (if ms_in_range (a + b) then Inr (a + b) else Inl Signed_Overflow)"

definition ms_sub :: "millis \<Rightarrow> millis \<Rightarrow> millis outcome" where
  "ms_sub a b = (if ms_in_range (a - b) then Inr (a - b) else Inl Signed_Overflow)"

definition ms_of_ull :: "64 word \<Rightarrow> millis" where
  "ms_of_ull w = sint w"

definition ms_none :: "millis" where
  "ms_none = ms_of_ull (NOT 0)"

lemma ms_none_eq [simp]: "ms_none = -1"
  by (simp add: ms_none_def ms_of_ull_def)

lemma ms_add_Inr_iff [outcome_simps]: "ms_add a b = Inr c \<longleftrightarrow> ms_in_range (a + b) \<and> c = a + b"
  by (auto simp: ms_add_def)

lemma ms_sub_Inr_iff [outcome_simps]: "ms_sub a b = Inr c \<longleftrightarrow> ms_in_range (a - b) \<and> c = a - b"
  by (auto simp: ms_sub_def)

lemma ms_add_in [simp]: "ms_in_range (a + b) \<Longrightarrow> ms_add a b = Inr (a + b)"
  by (simp add: ms_add_def)

section \<open>Reachable states\<close>

inductive reach :: "('s \<Rightarrow> bool) \<Rightarrow> ('s \<Rightarrow> 's \<Rightarrow> bool) \<Rightarrow> 's \<Rightarrow> bool"
  for start :: "'s \<Rightarrow> bool" and step :: "'s \<Rightarrow> 's \<Rightarrow> bool" where
  reach_start: "start s \<Longrightarrow> reach start step s"
| reach_step: "reach start step s \<Longrightarrow> step s t \<Longrightarrow> reach start step t"

text \<open>
  The contract every stateful component meets: an initial predicate, a step relation and an
  invariant that the one establishes and the other keeps. A component interprets it on its own
  step relation and gets the invariant in every reachable state.
\<close>

locale safe_system =
  fixes start :: "'s \<Rightarrow> bool"
    and step :: "'s \<Rightarrow> 's \<Rightarrow> bool"
    and inv :: "'s \<Rightarrow> bool"
  assumes start_inv: "start s \<Longrightarrow> inv s"
    and step_inv: "step s t \<Longrightarrow> inv s \<Longrightarrow> inv t"
begin

lemma reach_inv: "reach start step s \<Longrightarrow> inv s"
  by (induction rule: reach.induct) (auto intro: start_inv step_inv)

lemma reach_from_inv: "reach ((=) s) step t \<Longrightarrow> inv s \<Longrightarrow> inv t"
  by (induction rule: reach.induct) (auto intro: step_inv)

end

section \<open>Counting the entries of a list that satisfy a predicate\<close>

definition count_if :: "('a \<Rightarrow> bool) \<Rightarrow> 'a list \<Rightarrow> nat" where
  "count_if P xs = length (filter P xs)"

lemma count_if_simps [simp]:
  "count_if P [] = 0"
  "count_if P (x # xs) = (if P x then Suc (count_if P xs) else count_if P xs)"
  by (simp_all add: count_if_def)

lemma count_if_append [simp]: "count_if P (xs @ ys) = count_if P xs + count_if P ys"
  by (simp add: count_if_def)

lemma count_if_update:
  "i < length xs \<Longrightarrow>
   count_if P (xs[i := y]) + (if P (xs ! i) then 1 else 0) = count_if P xs + (if P y then 1 else 0)"
proof (induction xs arbitrary: i)
  case Nil
  then show ?case by simp
next
  case (Cons x xs)
  then show ?case by (cases i) auto
qed

lemma count_if_pos: "i < length xs \<Longrightarrow> P (xs ! i) \<Longrightarrow> 0 < count_if P xs"
  by (auto simp: count_if_def filter_empty_conv)

lemma count_if_zero_iff: "count_if P xs = 0 \<longleftrightarrow> (\<forall>x\<in>set xs. \<not> P x)"
  by (auto simp: count_if_def filter_empty_conv)

end
