(* ===== verification/Ordered_Set.thy ===== *)
theory Ordered_Set
  imports Coro_Prelude
begin

text \<open>
  The part of \<open>std::set<T, Compare>\<close> that Timer.cpp uses. A set is the list of its elements in
  iteration order, an iterator is a position in it and \<open>end()\<close> is its length. The
  operations take the comparison object as their first argument. The interface
  \<open>strict_total\<close> is what the standard asks of a comparison object; under it the operations
  are those of a mathematical set.
\<close>

section \<open>Operations\<close>

definition set_lower_bound :: "('a \<Rightarrow> 'a \<Rightarrow> bool) \<Rightarrow> 'a \<Rightarrow> 'a list \<Rightarrow> nat" where
  "set_lower_bound cmp x xs = length (takeWhile (\<lambda>y. cmp y x) xs)"

definition set_find :: "('a \<Rightarrow> 'a \<Rightarrow> bool) \<Rightarrow> 'a \<Rightarrow> 'a list \<Rightarrow> nat" where
  "set_find cmp x xs =
     (let i = set_lower_bound cmp x xs
      in if i < length xs \<and> \<not> cmp x (xs ! i) then i else length xs)"

text \<open>\<open>insert\<close> returns the position of the element and leaves the set alone when an equivalent
  element is there.\<close>

definition set_insert :: "('a \<Rightarrow> 'a \<Rightarrow> bool) \<Rightarrow> 'a \<Rightarrow> 'a list \<Rightarrow> nat \<times> 'a list" where
  "set_insert cmp x xs =
     (let i = set_lower_bound cmp x xs
      in if i < length xs \<and> \<not> cmp x (xs ! i) then (i, xs)
         else (i, take i xs @ x # drop i xs))"

text \<open>\<open>erase(end())\<close> is undefined behaviour.\<close>

definition set_erase :: "nat \<Rightarrow> 'a list \<Rightarrow> 'a list outcome" where
  "set_erase i xs =
     (if i < length xs then Inr (take i xs @ drop (Suc i) xs) else Inl Erase_End)"

section \<open>What a comparison object owes the set\<close>

locale strict_total =
  fixes cmp :: "'a \<Rightarrow> 'a \<Rightarrow> bool"
  assumes cmp_irrefl: "\<not> cmp x x"
    and cmp_trans: "cmp x y \<Longrightarrow> cmp y z \<Longrightarrow> cmp x z"
    and cmp_total: "x \<noteq> y \<Longrightarrow> cmp x y \<or> cmp y x"
begin

lemma cmp_asym: "cmp x y \<Longrightarrow> \<not> cmp y x"
  using cmp_irrefl cmp_trans by blast

lemma sorted_distinct: "sorted_wrt cmp xs \<Longrightarrow> distinct xs"
  by (induction xs) (auto simp: cmp_irrefl)

lemma dropWhile_above:
  "sorted_wrt cmp xs \<Longrightarrow> set (dropWhile (\<lambda>y. cmp y x) xs) = {y \<in> set xs. \<not> cmp y x}"
proof (induction xs)
  case Nil
  then show ?case by simp
next
  case (Cons y ys)
  show ?case
  proof (cases "cmp y x")
    case True
    with Cons show ?thesis by auto
  next
    case False
    with Cons.prems have "\<not> cmp z x" if "z \<in> set ys" for z
      using that cmp_trans by auto
    with False show ?thesis by auto
  qed
qed

lemma takeWhile_below:
  assumes "sorted_wrt cmp xs"
  shows "set (takeWhile (\<lambda>y. cmp y x) xs) = {y \<in> set xs. cmp y x}"
proof -
  have "set xs = set (takeWhile (\<lambda>y. cmp y x) xs) \<union> set (dropWhile (\<lambda>y. cmp y x) xs)"
    by (metis set_append takeWhile_dropWhile_id)
  with dropWhile_above [OF assms, of x] show ?thesis
    by (auto dest: set_takeWhileD)
qed

lemma drop_lower_bound: "drop (set_lower_bound cmp x xs) xs = dropWhile (\<lambda>y. cmp y x) xs"
  by (simp add: set_lower_bound_def dropWhile_eq_drop)

lemma take_lower_bound: "take (set_lower_bound cmp x xs) xs = takeWhile (\<lambda>y. cmp y x) xs"
  unfolding set_lower_bound_def by (induction xs) auto

text \<open>The position \<open>lower_bound\<close> returns holds \<open>x\<close> exactly when \<open>x\<close> is in the set.\<close>

lemma hit_iff:
  fixes x :: 'a
  assumes "sorted_wrt cmp xs"
  defines "i \<equiv> set_lower_bound cmp x xs"
  shows "i < length xs \<and> \<not> cmp x (xs ! i) \<longleftrightarrow> x \<in> set xs"
    and "x \<in> set xs \<Longrightarrow> xs ! i = x"
proof -
  have le: "i \<le> length xs"
    by (simp add: i_def set_lower_bound_def length_takeWhile_le)
  have split: "dropWhile (\<lambda>y. cmp y x) xs = drop i xs"
    by (simp add: i_def drop_lower_bound)
  have mem: "xs ! i = x" if x: "x \<in> set xs"
  proof -
    from x assms(1) have xin: "x \<in> set (drop i xs)"
      using dropWhile_above [of xs x] split cmp_irrefl by auto
    then obtain z zs where zs: "drop i xs = z # zs" by (cases "drop i xs") auto
    have "\<not> cmp z x"
      using split zs by (metis dropWhile_eq_Cons_conv)
    moreover have "sorted_wrt cmp (drop i xs)"
      using assms(1) by (rule sorted_wrt_drop)
    ultimately have "z = x"
      using xin zs by (auto dest: cmp_asym)
    with zs show ?thesis
      by (metis drop_eq_Nil hd_drop_conv_nth list.sel(1) list.simps(3) not_le_imp_less)
  qed
  then show "x \<in> set xs \<Longrightarrow> xs ! i = x" .
  show "i < length xs \<and> \<not> cmp x (xs ! i) \<longleftrightarrow> x \<in> set xs"
  proof
    assume h: "i < length xs \<and> \<not> cmp x (xs ! i)"
    then have "xs ! i \<in> set (drop i xs)"
      by (metis Cons_nth_drop_Suc list.set_intros(1))
    with assms(1) have "\<not> cmp (xs ! i) x"
      using dropWhile_above [of xs x] split by auto
    with h have "xs ! i = x"
      using cmp_total by blast
    with h show "x \<in> set xs" by (metis nth_mem)
  next
    assume x: "x \<in> set xs"
    have "i < length xs"
    proof (rule ccontr)
      assume "\<not> i < length xs"
      with le have "drop i xs = []" by simp
      with x assms(1) show False
        using dropWhile_above [of xs x] split cmp_irrefl by auto
    qed
    with mem [OF x] show "i < length xs \<and> \<not> cmp x (xs ! i)"
      by (simp add: cmp_irrefl)
  qed
qed

lemma find_in: "sorted_wrt cmp xs \<Longrightarrow> x \<in> set xs \<Longrightarrow>
    set_find cmp x xs < length xs \<and> xs ! set_find cmp x xs = x"
  using hit_iff [of xs x] by (auto simp: set_find_def Let_def)

lemma find_out: "sorted_wrt cmp xs \<Longrightarrow> x \<notin> set xs \<Longrightarrow> set_find cmp x xs = length xs"
  using hit_iff [of xs x] by (auto simp: set_find_def Let_def)

text \<open>Erasing at the position \<open>find\<close> returns removes the element, and faults only for an
  element that is not there.\<close>

lemma erase_find:
  assumes "sorted_wrt cmp xs" and "x \<in> set xs"
  shows "set_erase (set_find cmp x xs) xs = Inr (remove1 x xs)"
proof -
  let ?i = "set_find cmp x xs"
  from find_in [OF assms] have i: "?i < length xs" "xs ! ?i = x" by auto
  then have eq: "xs = take ?i xs @ x # drop (Suc ?i) xs"
    by (metis id_take_nth_drop)
  moreover have "distinct xs"
    using assms(1) by (rule sorted_distinct)
  ultimately have "x \<notin> set (take ?i xs)"
    by (metis distinct_append disjoint_iff list.set_intros(1))
  with eq have "remove1 x xs = take ?i xs @ drop (Suc ?i) xs"
    by (metis remove1_append remove1.simps(2))
  with i show ?thesis by (simp add: set_erase_def)
qed

lemma erase_missing: "sorted_wrt cmp xs \<Longrightarrow> x \<notin> set xs \<Longrightarrow>
    set_erase (set_find cmp x xs) xs = Inl Erase_End"
  by (simp add: find_out set_erase_def)

lemma insert_new:
  assumes "sorted_wrt cmp xs" and "x \<notin> set xs"
  shows "set_insert cmp x xs =
     (length (takeWhile (\<lambda>y. cmp y x) xs),
      takeWhile (\<lambda>y. cmp y x) xs @ x # dropWhile (\<lambda>y. cmp y x) xs)"
proof -
  have "\<not> (set_lower_bound cmp x xs < length xs \<and> \<not> cmp x (xs ! set_lower_bound cmp x xs))"
    using hit_iff(1) [OF assms(1)] assms(2) by blast
  then have "set_insert cmp x xs =
      (set_lower_bound cmp x xs,
       take (set_lower_bound cmp x xs) xs @ x # drop (set_lower_bound cmp x xs) xs)"
    unfolding set_insert_def Let_def by (rule if_not_P)
  then show ?thesis
    unfolding take_lower_bound drop_lower_bound by (simp add: set_lower_bound_def)
qed

lemma insert_present: "sorted_wrt cmp xs \<Longrightarrow> x \<in> set xs \<Longrightarrow> snd (set_insert cmp x xs) = xs"
  using hit_iff(1) [of xs x] by (simp add: set_insert_def Let_def)

lemma set_insert_elems:
  assumes "sorted_wrt cmp xs"
  shows "set (snd (set_insert cmp x xs)) = insert x (set xs)"
proof (cases "x \<in> set xs")
  case True
  with assms show ?thesis by (simp add: insert_present insert_absorb)
next
  case False
  with assms show ?thesis
    by (auto simp: insert_new takeWhile_below dropWhile_above)
qed

lemma set_insert_sorted:
  assumes "sorted_wrt cmp xs"
  shows "sorted_wrt cmp (snd (set_insert cmp x xs))"
proof (cases "x \<in> set xs")
  case True
  with assms show ?thesis by (simp add: insert_present)
next
  case False
  let ?a = "takeWhile (\<lambda>y. cmp y x) xs" and ?b = "dropWhile (\<lambda>y. cmp y x) xs"
  have "sorted_wrt cmp ?a" "sorted_wrt cmp ?b"
    using assms by (metis sorted_wrt_append takeWhile_dropWhile_id)+
  moreover have "cmp y x" if "y \<in> set ?a" for y
    using that assms takeWhile_below by blast
  moreover have "cmp x y" if "y \<in> set ?b" for y
    using that assms False dropWhile_above cmp_total by (metis (no_types, lifting) mem_Collect_eq)
  ultimately show ?thesis
    using assms False by (auto simp: insert_new sorted_wrt_append intro: cmp_trans)
qed

text \<open>\<open>insert\<close> returns \<open>begin()\<close> exactly when nothing in the set is below the new element.\<close>

lemma set_insert_begin_iff:
  assumes "sorted_wrt cmp xs" and "x \<notin> set xs"
  shows "fst (set_insert cmp x xs) = 0 \<longleftrightarrow> (\<forall>y\<in>set xs. cmp x y)"
proof -
  have "fst (set_insert cmp x xs) = 0 \<longleftrightarrow> {y \<in> set xs. cmp y x} = {}"
    using takeWhile_below [OF assms(1), of x] by (simp add: insert_new assms flip: set_empty)
  also have "\<dots> \<longleftrightarrow> (\<forall>y\<in>set xs. cmp x y)"
    using assms(2) cmp_total cmp_asym by (auto; metis)
  finally show ?thesis .
qed

lemma remove1_sorted: "sorted_wrt cmp xs \<Longrightarrow> sorted_wrt cmp (remove1 x xs)"
proof (induction xs)
  case (Cons y ys)
  then show ?case
    using set_remove1_subset [of x ys] by auto
qed simp

lemma remove1_elems: "sorted_wrt cmp xs \<Longrightarrow> set (remove1 x xs) = set xs - {x}"
  by (simp add: sorted_distinct)

lemmas set_laws = find_in find_out erase_find erase_missing set_insert_elems set_insert_sorted
  remove1_sorted remove1_elems

end

end
