(* ===== verification/Timer_Manager.thy ===== *)
theory Timer_Manager
  imports Ordered_Set
begin

text \<open>
  Timer.h and Timer.cpp: the timers, their order in the manager's \<open>std::set\<close>, and every
  operation of \<open>Timer\<close> and \<open>TimerManager\<close>. A timer is an object in a store
  addressed by a number, because its address takes part in the order. The clock reading
  \<open>getNow()\<close> and the address of a newly allocated object are arguments. Each public operation
  holds the manager's lock for its whole body, so it is one step. The type variable
  \<open>'cb\<close> is the content of a \<open>std::function<void()>\<close>; a null function is
  \<open>None\<close>.
\<close>

section \<open>Timers and their order\<close>

record 'cb timer =
  m_recurring :: bool
  m_ms :: millis
  m_next :: millis
  m_cb :: "'cb option"

record 'cb timer_manager =
  timer_store :: "nat \<rightharpoonup> 'cb timer"
  m_timers :: "nat list"
  m_tickled :: bool
  m_previouseTime :: millis

text \<open>\<open>m_next\<close> through a pointer; every pointer the manager compares is allocated.\<close>

definition next_of :: "(nat \<rightharpoonup> 'cb timer) \<Rightarrow> nat \<Rightarrow> millis" where
  "next_of h p = (case h p of Some t \<Rightarrow> m_next t | None \<Rightarrow> 0)"

text \<open>\<open>Timer::Comparator::operator()\<close>; a null smart pointer is \<open>None\<close>.\<close>

fun comparator :: "(nat \<rightharpoonup> 'cb timer) \<Rightarrow> nat option \<Rightarrow> nat option \<Rightarrow> bool" where
  "comparator h None None = False"
| "comparator h None (Some rhs) = True"
| "comparator h (Some lhs) None = False"
| "comparator h (Some lhs) (Some rhs) =
     (if next_of h lhs < next_of h rhs then True
      else if next_of h lhs > next_of h rhs then False
      else lhs < rhs)"

text \<open>The order on the pointers that are in the set, none of which is null.\<close>

abbreviation timer_cmp :: "(nat \<rightharpoonup> 'cb timer) \<Rightarrow> nat \<Rightarrow> nat \<Rightarrow> bool" where
  "timer_cmp h p q \<equiv> comparator h (Some p) (Some q)"

text \<open>What the comparator orders by: the deadline, then the address.\<close>

datatype timer_key = Timer_Key (key_next: millis) (key_addr: nat)

instantiation timer_key :: linorder
begin

definition less_eq_timer_key :: "timer_key \<Rightarrow> timer_key \<Rightarrow> bool" where
  "less_eq_timer_key a b \<longleftrightarrow>
     key_next a < key_next b \<or> key_next a = key_next b \<and> key_addr a \<le> key_addr b"

definition less_timer_key :: "timer_key \<Rightarrow> timer_key \<Rightarrow> bool" where
  "less_timer_key a b \<longleftrightarrow>
     key_next a < key_next b \<or> key_next a = key_next b \<and> key_addr a < key_addr b"

instance
  by standard
     (auto simp: less_eq_timer_key_def less_timer_key_def intro: timer_key.expand)

end

lemma timer_cmp_iff: "timer_cmp h p q \<longleftrightarrow> Timer_Key (next_of h p) p < Timer_Key (next_of h q) q"
  by (auto simp: less_timer_key_def)

interpretation nullable: strict_total "comparator h" for h
proof
  show "\<not> comparator h x x" for x
    by (cases x) auto
  show "comparator h x z" if "comparator h x y" and "comparator h y z" for x y z
    using that by (cases x; cases y; cases z) (auto split: if_splits)
  show "comparator h x y \<or> comparator h y x" if "x \<noteq> y" for x y
    using that by (cases x; cases y) auto
qed

interpretation tset: strict_total "\<lambda>p q. timer_cmp h p q" for h
  using nullable.cmp_irrefl nullable.cmp_trans nullable.cmp_total
  by unfold_locales blast+

declare comparator.simps(4) [simp del]

section \<open>Construction\<close>

text \<open>\<open>Timer(ms, cb, recurring, manager)\<close>: the deadline is \<open>getNow() + m_ms\<close>.\<close>

definition timer_new :: "millis \<Rightarrow> millis \<Rightarrow> 'cb option \<Rightarrow> bool \<Rightarrow> 'cb timer outcome" where
  "timer_new now ms cb recurring =
     obind (ms_add now ms) (\<lambda>nxt.
       Inr \<lparr>m_recurring = recurring, m_ms = ms, m_next = nxt, m_cb = cb\<rparr>)"

text \<open>\<open>Timer(next)\<close>, the probe of \<open>listExpiredCb\<close>.\<close>

definition timer_probe :: "millis \<Rightarrow> 'cb timer" where
  "timer_probe nxt = \<lparr>m_recurring = False, m_ms = 0, m_next = nxt, m_cb = None\<rparr>"

definition timer_manager_new :: "millis \<Rightarrow> 'cb timer_manager" where
  "timer_manager_new now =
     \<lparr>timer_store = Map.empty, m_timers = [], m_tickled = False, m_previouseTime = now\<rparr>"

text \<open>
  \<open>addConditionTimer\<close> binds \<open>OnTimer(weak_cond, cb)\<close>: when the timer fires, \<open>cb\<close>
  runs only if the condition object is still alive.
\<close>

datatype ('w, 'f) timer_cb = Direct 'f | OnTimer 'w "'f option"

definition on_timer :: "('w \<Rightarrow> bool) \<Rightarrow> 'w \<Rightarrow> 'f option \<Rightarrow> 'f option option" where
  "on_timer alive weak_cond cb = (if alive weak_cond then Some cb else None)"

section \<open>Operations\<close>

text \<open>\<open>TimerManager::addTimer(val, lock)\<close>; the flag says that \<open>onTimerInsertedAtFront\<close> is called.\<close>

definition add_timer_locked :: "nat \<Rightarrow> 'cb timer_manager \<Rightarrow> bool \<times> 'cb timer_manager" where
  "add_timer_locked p m =
     (let r = set_insert (timer_cmp (timer_store m)) p (m_timers m);
          at_front = (fst r = 0 \<and> \<not> m_tickled m)
      in (at_front,
          m\<lparr>m_timers := snd r, m_tickled := (if at_front then True else m_tickled m)\<rparr>))"

text \<open>\<open>addTimer(ms, cb, recurring)\<close>; \<open>p\<close> is the address of the new timer.\<close>

definition add_timer ::
  "millis \<Rightarrow> nat \<Rightarrow> millis \<Rightarrow> 'cb option \<Rightarrow> bool \<Rightarrow> 'cb timer_manager
   \<Rightarrow> (bool \<times> 'cb timer_manager) outcome" where
  "add_timer now p ms cb recurring m =
     obind (timer_new now ms cb recurring) (\<lambda>t.
       Inr (add_timer_locked p (m\<lparr>timer_store := (timer_store m)(p \<mapsto> t)\<rparr>)))"

definition add_condition_timer ::
  "millis \<Rightarrow> nat \<Rightarrow> millis \<Rightarrow> 'f option \<Rightarrow> 'w \<Rightarrow> bool \<Rightarrow> ('w, 'f) timer_cb timer_manager
   \<Rightarrow> (bool \<times> ('w, 'f) timer_cb timer_manager) outcome" where
  "add_condition_timer now p ms cb weak_cond recurring m =
     add_timer now p ms (Some (OnTimer weak_cond cb)) recurring m"

text \<open>\<open>Timer::cancel\<close>: note that the position is erased without a test against \<open>end()\<close>.\<close>

definition timer_cancel :: "nat \<Rightarrow> 'cb timer_manager \<Rightarrow> (bool \<times> 'cb timer_manager) outcome" where
  "timer_cancel p m =
     obind (deref (timer_store m) p) (\<lambda>t.
       if m_cb t \<noteq> None then
         (let h = (timer_store m)(p \<mapsto> t\<lparr>m_cb := None\<rparr>);
              it = set_find (timer_cmp h) p (m_timers m)
          in obind (set_erase it (m_timers m)) (\<lambda>ts.
               Inr (True, m\<lparr>timer_store := h, m_timers := ts\<rparr>)))
       else Inr (False, m))"

text \<open>\<open>Timer::refresh\<close>.\<close>

definition timer_refresh ::
  "millis \<Rightarrow> nat \<Rightarrow> 'cb timer_manager \<Rightarrow> (bool \<times> 'cb timer_manager) outcome" where
  "timer_refresh now p m =
     obind (deref (timer_store m) p) (\<lambda>t.
       if m_cb t = None then Inr (False, m)
       else
         (let it = set_find (timer_cmp (timer_store m)) p (m_timers m)
          in if it = length (m_timers m) then Inr (False, m)
             else
               obind (set_erase it (m_timers m)) (\<lambda>ts.
               obind (ms_add now (m_ms t)) (\<lambda>nxt.
                 let h = (timer_store m)(p \<mapsto> t\<lparr>m_next := nxt\<rparr>)
                 in Inr (True, m\<lparr>timer_store := h,
                                m_timers := snd (set_insert (timer_cmp h) p ts)\<rparr>)))))"

text \<open>\<open>Timer::reset(ms, from_now)\<close>: (result, notified, manager).\<close>

definition timer_reset ::
  "millis \<Rightarrow> nat \<Rightarrow> millis \<Rightarrow> bool \<Rightarrow> 'cb timer_manager
   \<Rightarrow> (bool \<times> bool \<times> 'cb timer_manager) outcome" where
  "timer_reset now p ms from_now m =
     obind (deref (timer_store m) p) (\<lambda>t.
       if m_ms t = ms \<and> \<not> from_now then Inr (True, False, m)
       else if m_cb t = None then Inr (False, False, m)
       else
         (let it = set_find (timer_cmp (timer_store m)) p (m_timers m)
          in if it = length (m_timers m) then Inr (False, False, m)
             else
               obind (set_erase it (m_timers m)) (\<lambda>ts.
               obind (if from_now then Inr now else ms_sub (m_next t) ms) (\<lambda>start.
               obind (ms_add start ms) (\<lambda>nxt.
                 let h = (timer_store m)(p \<mapsto> t\<lparr>m_ms := ms, m_next := nxt\<rparr>);
                     r = add_timer_locked p (m\<lparr>timer_store := h, m_timers := ts\<rparr>)
                 in Inr (True, fst r, snd r))))))"

text \<open>\<open>getNextTimer\<close>: time to the first deadline; \<open>ms_none\<close> when there is no timer.\<close>

definition get_next_timer :: "millis \<Rightarrow> 'cb timer_manager \<Rightarrow> millis \<times> 'cb timer_manager" where
  "get_next_timer now m =
     (let m' = m\<lparr>m_tickled := False\<rparr>
      in case m_timers m of
           [] \<Rightarrow> (ms_none, m')
         | p # _ \<Rightarrow>
             (let nxt = next_of (timer_store m) p
              in if now \<ge> nxt then (0, m') else (nxt - now, m')))"

definition has_timer :: "'cb timer_manager \<Rightarrow> bool" where
  "has_timer m \<longleftrightarrow> m_timers m \<noteq> []"

text \<open>\<open>detectClockRollover\<close>: the clock went back by more than an hour.\<close>

definition detect_clock_rollover :: "millis \<Rightarrow> 'cb timer_manager \<Rightarrow> bool \<times> 'cb timer_manager" where
  "detect_clock_rollover now_ms m =
     (now_ms < m_previouseTime m \<and> now_ms < m_previouseTime m - 60 * 60 * 1000,
      m\<lparr>m_previouseTime := now_ms\<rparr>)"

text \<open>The loop over the expired timers at the end of \<open>listExpiredCb\<close>.\<close>

fun fire_expired ::
  "millis \<Rightarrow> nat list \<Rightarrow> 'cb option list \<Rightarrow> 'cb timer_manager
   \<Rightarrow> ('cb option list \<times> 'cb timer_manager) outcome" where
  "fire_expired now [] cbs m = Inr (cbs, m)"
| "fire_expired now (p # ps) cbs m =
     obind (deref (timer_store m) p) (\<lambda>t.
       if m_recurring t then
         obind (ms_add now (m_ms t)) (\<lambda>nxt.
           let h = (timer_store m)(p \<mapsto> t\<lparr>m_next := nxt\<rparr>)
           in fire_expired now ps (cbs @ [m_cb t])
                (m\<lparr>timer_store := h, m_timers := snd (set_insert (timer_cmp h) p (m_timers m))\<rparr>))
       else
         fire_expired now ps (cbs @ [m_cb t])
           (m\<lparr>timer_store := (timer_store m)(p \<mapsto> t\<lparr>m_cb := None\<rparr>)\<rparr>))"

text \<open>
  \<open>listExpiredCb(cbs)\<close>; \<open>a\<close> is the address the allocator gives the probe
  \<open>now_timer\<close>, which is freed on return and so never enters the store.
\<close>

definition expired_end :: "bool \<Rightarrow> millis \<Rightarrow> nat \<Rightarrow> 'cb timer_manager \<Rightarrow> nat" where
  "expired_end rollover now a m =
     (let h = (timer_store m)(a \<mapsto> timer_probe now);
          it = (if rollover then length (m_timers m)
                else set_lower_bound (timer_cmp h) a (m_timers m))
      in it + length (takeWhile (\<lambda>p. next_of h p = now) (drop it (m_timers m))))"

definition list_expired_cb ::
  "millis \<Rightarrow> nat \<Rightarrow> 'cb option list \<Rightarrow> 'cb timer_manager
   \<Rightarrow> ('cb option list \<times> 'cb timer_manager) outcome" where
  "list_expired_cb now a cbs m =
     (if m_timers m = [] then Inr (cbs, m)
      else
        (let (rollover, m1) = detect_clock_rollover now m
         in if \<not> rollover \<and> next_of (timer_store m1) (hd (m_timers m1)) > now then Inr (cbs, m1)
            else
              (let it = expired_end rollover now a m1;
                   expired = take it (m_timers m1)
               in fire_expired now expired cbs (m1\<lparr>m_timers := drop it (m_timers m1)\<rparr>))))"


section \<open>Well-formed managers\<close>

text \<open>
  The set is ordered by the comparator, every pointer in it is allocated, and a timer that still
  has its callback is in the set. The last part is what lets \<open>cancel\<close> erase without a test.
\<close>

definition tm_wf :: "'cb timer_manager \<Rightarrow> bool" where
  "tm_wf m \<longleftrightarrow>
     sorted_wrt (timer_cmp (timer_store m)) (m_timers m) \<and>
     set (m_timers m) \<subseteq> dom (timer_store m) \<and>
     (\<forall>p t. timer_store m p = Some t \<and> m_cb t \<noteq> None \<longrightarrow> p \<in> set (m_timers m))"

text \<open>The abstract state: which timers are armed, and for when.\<close>

definition deadlines :: "'cb timer_manager \<Rightarrow> nat \<rightharpoonup> millis" where
  "deadlines m = (\<lambda>p. if p \<in> set (m_timers m) then Some (next_of (timer_store m) p) else None)"

lemma next_of_upd [simp]: "next_of (h(p \<mapsto> t)) q = (if q = p then m_next t else next_of h q)"
  by (simp add: next_of_def)

lemma next_of_Some [simp]: "h p = Some t \<Longrightarrow> next_of h p = m_next t"
  by (simp add: next_of_def)

lemma sorted_store_cong:
  assumes "\<And>q. q \<in> set xs \<Longrightarrow> next_of h q = next_of h' q"
  shows "sorted_wrt (timer_cmp h) xs \<longleftrightarrow> sorted_wrt (timer_cmp h') xs"
  using assms by (auto simp: timer_cmp_iff elim!: sorted_wrt_mono_rel [rotated])

lemma sorted_upd_other:
  "p \<notin> set xs \<Longrightarrow> sorted_wrt (timer_cmp (h(p \<mapsto> t))) xs = sorted_wrt (timer_cmp h) xs"
  by (rule sorted_store_cong) auto

lemma sorted_upd_same_next:
  "h p = Some t \<Longrightarrow> m_next t' = m_next t \<Longrightarrow>
   sorted_wrt (timer_cmp (h(p \<mapsto> t'))) xs = sorted_wrt (timer_cmp h) xs"
  by (rule sorted_store_cong) auto

lemma tm_wf_sorted: "tm_wf m \<Longrightarrow> sorted_wrt (timer_cmp (timer_store m)) (m_timers m)"
  and tm_wf_alloc: "tm_wf m \<Longrightarrow> p \<in> set (m_timers m) \<Longrightarrow> \<exists>t. timer_store m p = Some t"
  and tm_wf_armed: "tm_wf m \<Longrightarrow> timer_store m p = Some t \<Longrightarrow> m_cb t \<noteq> None \<Longrightarrow> p \<in> set (m_timers m)"
  and tm_wf_distinct: "tm_wf m \<Longrightarrow> distinct (m_timers m)"
  by (auto simp: tm_wf_def intro: tset.sorted_distinct)

text \<open>Arming a timer that is not in the set: the step shared by every insertion.\<close>

lemma arm:
  assumes "sorted_wrt (timer_cmp h) ts" and "p \<notin> set ts"
  shows "sorted_wrt (timer_cmp (h(p \<mapsto> t))) (snd (set_insert (timer_cmp (h(p \<mapsto> t))) p ts))"
    and "set (snd (set_insert (timer_cmp (h(p \<mapsto> t))) p ts)) = insert p (set ts)"
proof -
  have s: "sorted_wrt (timer_cmp (h(p \<mapsto> t))) ts"
    using assms by (simp add: sorted_upd_other)
  show "sorted_wrt (timer_cmp (h(p \<mapsto> t))) (snd (set_insert (timer_cmp (h(p \<mapsto> t))) p ts))"
    using s by (rule tset.set_insert_sorted)
  show "set (snd (set_insert (timer_cmp (h(p \<mapsto> t))) p ts)) = insert p (set ts)"
    using s by (rule tset.set_insert_elems)
qed

lemma rearm_wf:
  assumes wf: "tm_wf m" and ts: "ts = remove1 p (m_timers m)"
  shows "tm_wf (m\<lparr>timer_store := (timer_store m)(p \<mapsto> t),
        m_timers := snd (set_insert (timer_cmp ((timer_store m)(p \<mapsto> t))) p ts), m_tickled := b\<rparr>)"
    and "deadlines (m\<lparr>timer_store := (timer_store m)(p \<mapsto> t),
        m_timers := snd (set_insert (timer_cmp ((timer_store m)(p \<mapsto> t))) p ts), m_tickled := b\<rparr>)
      = (deadlines m)(p \<mapsto> m_next t)"
proof -
  have s: "sorted_wrt (timer_cmp (timer_store m)) ts" and e: "set ts = set (m_timers m) - {p}"
    using tm_wf_sorted [OF wf] ts by (auto simp: tset.remove1_sorted tset.remove1_elems)
  then have p: "p \<notin> set ts" by simp
  note a = arm [OF s p, of t]
  show "tm_wf (m\<lparr>timer_store := (timer_store m)(p \<mapsto> t),
        m_timers := snd (set_insert (timer_cmp ((timer_store m)(p \<mapsto> t))) p ts), m_tickled := b\<rparr>)"
    using wf a e by (auto simp: tm_wf_def)
  show "deadlines (m\<lparr>timer_store := (timer_store m)(p \<mapsto> t),
        m_timers := snd (set_insert (timer_cmp ((timer_store m)(p \<mapsto> t))) p ts), m_tickled := b\<rparr>)
      = (deadlines m)(p \<mapsto> m_next t)"
    using a(2) e by (auto simp: deadlines_def fun_eq_iff)
qed

lemma deref_erase:
  assumes "tm_wf m" and "p \<in> set (m_timers m)"
  shows "set_find (timer_cmp (timer_store m)) p (m_timers m) \<noteq> length (m_timers m)"
    and "set_erase (set_find (timer_cmp (timer_store m)) p (m_timers m)) (m_timers m)
         = Inr (remove1 p (m_timers m))"
  using tset.find_in [OF tm_wf_sorted [OF assms(1)] assms(2)]
    tset.erase_find [OF tm_wf_sorted [OF assms(1)] assms(2)] by auto

section \<open>What each operation does\<close>

lemma timer_new_Inr [outcome_simps]:
  "timer_new now ms cb rec = Inr t \<longleftrightarrow> ms_in_range (now + ms) \<and>
     t = \<lparr>m_recurring = rec, m_ms = ms, m_next = now + ms, m_cb = cb\<rparr>"
  by (auto simp: timer_new_def outcome_simps)

lemma add_timer_ok:
  assumes wf: "tm_wf m" and fresh: "timer_store m p = None" and r: "ms_in_range (now + ms)"
  shows "\<exists>f m'. add_timer now p ms cb rec m = Inr (f, m') \<and> tm_wf m' \<and>
     deadlines m' = (deadlines m)(p \<mapsto> now + ms) \<and>
     timer_store m' = (timer_store m)(p \<mapsto> \<lparr>m_recurring = rec, m_ms = ms, m_next = now + ms, m_cb = cb\<rparr>)"
proof -
  have p: "p \<notin> set (m_timers m)"
    using wf fresh tm_wf_alloc by fastforce
  then have "m_timers m = remove1 p (m_timers m)"
    by (simp add: remove1_idem)
  note re = rearm_wf [OF wf this, where t = "\<lparr>m_recurring = rec, m_ms = ms, m_next = now + ms, m_cb = cb\<rparr>"]
  show ?thesis
    using r re by (simp add: add_timer_def timer_new_def add_timer_locked_def Let_def)
qed

lemma add_timer_Inr:
  assumes "tm_wf m" and "timer_store m p = None" and "add_timer now p ms cb rec m = Inr (f, m')"
  shows "tm_wf m'" and "deadlines m' = (deadlines m)(p \<mapsto> now + ms)"
    and "timer_store m' = (timer_store m)(p \<mapsto> \<lparr>m_recurring = rec, m_ms = ms, m_next = now + ms, m_cb = cb\<rparr>)"
proof -
  have "ms_in_range (now + ms)"
    using assms(3) by (auto simp: add_timer_def outcome_simps)
  from add_timer_ok [OF assms(1,2) this, of cb rec] assms(3)
  show "tm_wf m'" and "deadlines m' = (deadlines m)(p \<mapsto> now + ms)"
    and "timer_store m' = (timer_store m)(p \<mapsto> \<lparr>m_recurring = rec, m_ms = ms, m_next = now + ms, m_cb = cb\<rparr>)"
    by auto
qed

lemma timer_cancel_armed:
  assumes wf: "tm_wf m" and t: "timer_store m p = Some t" and cb: "m_cb t \<noteq> None"
  shows "timer_cancel p m = Inr (True,
     m\<lparr>timer_store := (timer_store m)(p \<mapsto> t\<lparr>m_cb := None\<rparr>), m_timers := remove1 p (m_timers m)\<rparr>)"
proof -
  let ?h = "(timer_store m)(p \<mapsto> t\<lparr>m_cb := None\<rparr>)"
  have "sorted_wrt (timer_cmp ?h) (m_timers m)"
    using tm_wf_sorted [OF wf] sorted_upd_same_next [of "timer_store m" p t] t by simp
  then have "set_erase (set_find (timer_cmp ?h) p (m_timers m)) (m_timers m) = Inr (remove1 p (m_timers m))"
    using tm_wf_armed [OF wf t cb] by (rule tset.erase_find)
  with t cb show ?thesis by (simp add: timer_cancel_def Let_def)
qed

lemma timer_cancel_dead:
  "timer_store m p = Some t \<Longrightarrow> m_cb t = None \<Longrightarrow> timer_cancel p m = Inr (False, m)"
  by (simp add: timer_cancel_def)

lemma cancel_wf:
  assumes wf: "tm_wf m" and t: "timer_store m p = Some t"
  shows "tm_wf (m\<lparr>timer_store := (timer_store m)(p \<mapsto> t\<lparr>m_cb := None\<rparr>),
                 m_timers := remove1 p (m_timers m)\<rparr>)"
    and "deadlines (m\<lparr>timer_store := (timer_store m)(p \<mapsto> t\<lparr>m_cb := None\<rparr>),
                 m_timers := remove1 p (m_timers m)\<rparr>) = (deadlines m)(p := None)"
proof -
  have e: "set (remove1 p (m_timers m)) = set (m_timers m) - {p}"
    using tm_wf_distinct [OF wf] by simp
  have s: "sorted_wrt (timer_cmp ((timer_store m)(p \<mapsto> t\<lparr>m_cb := None\<rparr>))) (remove1 p (m_timers m))"
    using tset.remove1_sorted [OF tm_wf_sorted [OF wf], of p] e by (simp add: sorted_upd_other)
  show "tm_wf (m\<lparr>timer_store := (timer_store m)(p \<mapsto> t\<lparr>m_cb := None\<rparr>),
                 m_timers := remove1 p (m_timers m)\<rparr>)"
    using wf s e by (auto simp: tm_wf_def)
  show "deadlines (m\<lparr>timer_store := (timer_store m)(p \<mapsto> t\<lparr>m_cb := None\<rparr>),
                 m_timers := remove1 p (m_timers m)\<rparr>) = (deadlines m)(p := None)"
    using e by (auto simp: deadlines_def fun_eq_iff)
qed

lemma timer_refresh_armed:
  assumes wf: "tm_wf m" and t: "timer_store m p = Some t" and cb: "m_cb t \<noteq> None"
    and r: "ms_in_range (now + m_ms t)"
  shows "\<exists>m'. timer_refresh now p m = Inr (True, m') \<and> tm_wf m' \<and>
     deadlines m' = (deadlines m)(p \<mapsto> now + m_ms t) \<and>
     timer_store m' = (timer_store m)(p \<mapsto> t\<lparr>m_next := now + m_ms t\<rparr>)"
proof -
  note e = deref_erase [OF wf tm_wf_armed [OF wf t cb]]
  note re = rearm_wf [OF wf refl, where p = p and t = "t\<lparr>m_next := now + m_ms t\<rparr>" and b = "m_tickled m"]
  show ?thesis
    using t cb r e re by (auto simp: timer_refresh_def Let_def)
qed

lemma timer_reset_armed:
  assumes wf: "tm_wf m" and t: "timer_store m p = Some t" and cb: "m_cb t \<noteq> None"
    and real: "\<not> (m_ms t = ms \<and> \<not> from_now)"
    and start: "start = (if from_now then now else m_next t - ms)"
    and r: "from_now \<or> ms_in_range start" "ms_in_range (start + ms)"
  shows "\<exists>f m'. timer_reset now p ms from_now m = Inr (True, f, m') \<and> tm_wf m' \<and>
     deadlines m' = (deadlines m)(p \<mapsto> start + ms) \<and>
     timer_store m' = (timer_store m)(p \<mapsto> t\<lparr>m_ms := ms, m_next := start + ms\<rparr>)"
proof -
  note e = deref_erase [OF wf tm_wf_armed [OF wf t cb]]
  note re = rearm_wf [OF wf refl, where p = p and t = "t\<lparr>m_ms := ms, m_next := start + ms\<rparr>"]
  have b: "(if from_now then Inr now else ms_sub (m_next t) ms) = (Inr start :: millis outcome)"
    using start r by (cases from_now) (simp_all add: ms_sub_def)
  show ?thesis
    using t cb r e re real unfolding timer_reset_def
    by (auto simp add: b Let_def add_timer_locked_def)
qed


section \<open>\<open>listExpiredCb\<close>\<close>

text \<open>What the search computes, stated without the probe and without the binary search.\<close>

definition rolled_back :: "millis \<Rightarrow> 'cb timer_manager \<Rightarrow> bool" where
  "rolled_back now m \<longleftrightarrow> now < m_previouseTime m - 3600000"

definition expired_timers :: "millis \<Rightarrow> 'cb timer_manager \<Rightarrow> nat list" where
  "expired_timers now m =
     (if rolled_back now m then m_timers m
      else filter (\<lambda>p. next_of (timer_store m) p \<le> now) (m_timers m))"

definition callback_of :: "'cb timer_manager \<Rightarrow> nat \<Rightarrow> 'cb option" where
  "callback_of m p = Option.bind (timer_store m p) m_cb"

definition is_recurring :: "'cb timer_manager \<Rightarrow> nat \<Rightarrow> bool" where
  "is_recurring m p = (case timer_store m p of None \<Rightarrow> False | Some t \<Rightarrow> m_recurring t)"

definition fired :: "millis \<Rightarrow> 'cb timer \<Rightarrow> 'cb timer" where
  "fired now t = (if m_recurring t then t\<lparr>m_next := now + m_ms t\<rparr> else t\<lparr>m_cb := None\<rparr>)"

text \<open>The timer objects after the timers \<open>ps\<close> have fired.\<close>

definition fire_store :: "millis \<Rightarrow> nat list \<Rightarrow> (nat \<rightharpoonup> 'cb timer) \<Rightarrow> nat \<rightharpoonup> 'cb timer" where
  "fire_store now ps h = (\<lambda>q. if q \<in> set ps then map_option (fired now) (h q) else h q)"

lemma sorted_next_le:
  assumes "sorted_wrt (timer_cmp h) (x # xs)" and "y \<in> set xs"
  shows "next_of h x \<le> next_of h y"
  using assms by (auto simp: timer_cmp_iff less_timer_key_def)

lemma sorted_takeWhile_filter:
  "sorted_wrt (timer_cmp h) xs \<Longrightarrow>
   takeWhile (\<lambda>p. next_of h p \<le> now) xs = filter (\<lambda>p. next_of h p \<le> now) xs"
proof (induction xs)
  case (Cons x xs)
  show ?case
  proof (cases "next_of h x \<le> now")
    case True
    with Cons show ?thesis by simp
  next
    case False
    then have "\<not> next_of h y \<le> now" if "y \<in> set xs" for y
      using sorted_next_le [OF Cons.prems that] by simp
    with False show ?thesis by (simp add: filter_empty_conv)
  qed
qed simp

text \<open>
  The two-stage search (\<open>lower_bound\<close> of the probe, then a walk over equal deadlines) stops at
  the first deadline after \<open>now\<close>, wherever the allocator put the probe.
\<close>

lemma probe_search:
  assumes "sorted_wrt (timer_cmp h) xs" and "next_of h a = now"
  defines "i \<equiv> length (takeWhile (\<lambda>p. timer_cmp h p a) xs)"
  shows "i + length (takeWhile (\<lambda>p. next_of h p = now) (drop i xs))
         = length (takeWhile (\<lambda>p. next_of h p \<le> now) xs)"
  unfolding i_def using assms(1)
proof (induction xs)
  case (Cons x xs)
  show ?case
  proof (cases "timer_cmp h x a")
    case True
    with assms(2) have "next_of h x \<le> now"
      by (auto simp: timer_cmp_iff less_timer_key_def)
    with True Cons show ?thesis by simp
  next
    case False
    with assms(2) have x: "now \<le> next_of h x"
      by (auto simp: timer_cmp_iff less_timer_key_def)
    have "next_of h y \<le> now \<longleftrightarrow> next_of h y = now" if "y \<in> set (x # xs)" for y
      using that x sorted_next_le [OF Cons.prems, of y] by auto
    then have "takeWhile (\<lambda>p. next_of h p \<le> now) (x # xs) = takeWhile (\<lambda>p. next_of h p = now) (x # xs)"
      by (intro takeWhile_cong) auto
    with False show ?thesis by simp
  qed
qed simp

lemma take_expired_end:
  assumes wf: "tm_wf m" and a: "a \<notin> dom (timer_store m)"
  shows "take (expired_end (rolled_back now m) now a m) (m_timers m) = expired_timers now m"
proof (cases "rolled_back now m")
  case True
  then show ?thesis by (simp add: expired_end_def expired_timers_def Let_def)
next
  case False
  let ?h = "(timer_store m)(a \<mapsto> timer_probe now)"
  have notin: "a \<notin> set (m_timers m)"
    using a tm_wf_alloc [OF wf] by blast
  then have s: "sorted_wrt (timer_cmp ?h) (m_timers m)"
    using tm_wf_sorted [OF wf] by (simp add: sorted_upd_other)
  have "expired_end False now a m = length (takeWhile (\<lambda>p. next_of ?h p \<le> now) (m_timers m))"
    unfolding expired_end_def set_lower_bound_def Let_def
    using probe_search [OF s, of a now] by (simp add: timer_probe_def)
  moreover have "takeWhile (\<lambda>p. next_of ?h p \<le> now) (m_timers m)
      = filter (\<lambda>p. next_of (timer_store m) p \<le> now) (m_timers m)"
    using sorted_takeWhile_filter [OF s, of now] notin
    by (metis (mono_tags, lifting) filter_cong next_of_upd)
  ultimately show ?thesis
    using False by (metis expired_timers_def takeWhile_eq_take)
qed

lemma drop_expired_end:
  assumes wf: "tm_wf m" and a: "a \<notin> dom (timer_store m)"
  shows "set (drop (expired_end (rolled_back now m) now a m) (m_timers m))
         = set (m_timers m) - set (expired_timers now m)"
    and "sorted_wrt (timer_cmp (timer_store m)) (drop (expired_end (rolled_back now m) now a m) (m_timers m))"
proof -
  let ?i = "expired_end (rolled_back now m) now a m"
  have "distinct (take ?i (m_timers m) @ drop ?i (m_timers m))"
    using tm_wf_distinct [OF wf] by simp
  moreover have "set (m_timers m) = set (take ?i (m_timers m)) \<union> set (drop ?i (m_timers m))"
    by (metis append_take_drop_id set_append)
  ultimately show "set (drop ?i (m_timers m)) = set (m_timers m) - set (expired_timers now m)"
    using take_expired_end [OF wf a, of now] by auto
  show "sorted_wrt (timer_cmp (timer_store m)) (drop ?i (m_timers m))"
    using tm_wf_sorted [OF wf] by (rule sorted_wrt_drop)
qed

text \<open>The loop over the expired timers, which are no longer in the set.\<close>

lemma fire_expired_total:
  "set ps \<subseteq> dom (timer_store m) \<Longrightarrow> distinct ps \<Longrightarrow>
   \<forall>p\<in>set ps. \<forall>t. timer_store m p = Some t \<and> m_recurring t \<longrightarrow> ms_in_range (now + m_ms t) \<Longrightarrow>
   \<exists>cbs' m'. fire_expired now ps cbs m = Inr (cbs', m')"
proof (induction ps arbitrary: cbs m)
  case (Cons p ps)
  then obtain t where t: "timer_store m p = Some t" by auto
  from Cons.prems have d: "set ps \<subseteq> dom (timer_store m)" "distinct ps" "p \<notin> set ps" by auto
  have IH: "\<exists>cbs'' m'. fire_expired now ps cbs' m1 = Inr (cbs'', m')"
    if "\<exists>t'. timer_store m1 = (timer_store m)(p \<mapsto> t')" for cbs' m1
    using that Cons.prems d by (intro Cons.IH) (auto split: if_splits)
  show ?case
    using t Cons.prems(3) by (auto simp: Let_def intro!: IH)
qed simp

lemma fire_expired_spec:
  "fire_expired now ps cbs m = Inr (cbs', m') \<Longrightarrow>
   sorted_wrt (timer_cmp (timer_store m)) (m_timers m) \<Longrightarrow>
   set ps \<subseteq> dom (timer_store m) \<Longrightarrow> distinct ps \<Longrightarrow> set ps \<inter> set (m_timers m) = {} \<Longrightarrow>
   cbs' = cbs @ map (callback_of m) ps \<and>
   timer_store m' = fire_store now ps (timer_store m) \<and>
   sorted_wrt (timer_cmp (timer_store m')) (m_timers m') \<and>
   set (m_timers m') = set (m_timers m) \<union> {p \<in> set ps. is_recurring m p} \<and>
   m_previouseTime m' = m_previouseTime m"
proof (induction ps arbitrary: cbs m)
  case Nil
  then show ?case by (auto simp: fire_store_def)
next
  case (Cons p ps)
  then obtain t where t: "timer_store m p = Some t" by auto
  from Cons.prems have d: "set ps \<subseteq> dom (timer_store m)" "distinct ps" "p \<notin> set ps"
    "p \<notin> set (m_timers m)" "set ps \<inter> set (m_timers m) = {}" by auto
  define m1 where "m1 = m\<lparr>timer_store := (timer_store m)(p \<mapsto> fired now t),
      m_timers := (if m_recurring t
         then snd (set_insert (timer_cmp ((timer_store m)(p \<mapsto> fired now t))) p (m_timers m))
         else m_timers m)\<rparr>"
  have run: "fire_expired now ps (cbs @ [m_cb t]) m1 = Inr (cbs', m')"
    using Cons.prems(1) t
    by (cases "m_recurring t") (auto simp: m1_def fired_def Let_def outcome_simps)
  note a = arm [OF Cons.prems(2) d(4), of "fired now t"]
  have s1: "sorted_wrt (timer_cmp (timer_store m1)) (m_timers m1)"
    using a Cons.prems(2) d(4) by (simp add: m1_def sorted_upd_other)
  have e1: "set (m_timers m1) = set (m_timers m) \<union> (if m_recurring t then {p} else {})"
    using a by (simp add: m1_def)
  have dom1: "set ps \<subseteq> dom (timer_store m1)" and dis1: "set ps \<inter> set (m_timers m1) = {}"
    using d e1 by (auto simp: m1_def)
  have same: "callback_of m1 q = callback_of m q" "is_recurring m1 q = is_recurring m q" if "q \<in> set ps" for q
    using that d(3) by (auto simp: m1_def callback_of_def is_recurring_def)
  note IH = Cons.IH [OF run s1 dom1 d(2) dis1]
  have cbs: "cbs' = cbs @ map (callback_of m) (p # ps)"
    using IH same t by (simp add: callback_of_def)
  have store: "timer_store m' = fire_store now (p # ps) (timer_store m)"
    using IH t d(3) by (auto simp: m1_def fun_eq_iff fire_store_def)
  have elems: "set (m_timers m') = set (m_timers m) \<union> {q \<in> set (p # ps). is_recurring m q}"
    using IH e1 same t by (auto simp: is_recurring_def)
  have prev: "m_previouseTime m' = m_previouseTime m"
    using IH by (simp add: m1_def)
  from IH cbs store elems prev show ?case by blast
qed


lemma filter_notin_take:
  assumes "distinct xs"
  shows "filter (\<lambda>p. p \<notin> set (take i xs)) xs = drop i xs"
proof -
  have "filter (\<lambda>p. p \<notin> set (take i xs)) xs =
      filter (\<lambda>p. p \<notin> set (take i xs)) (take i xs) @ filter (\<lambda>p. p \<notin> set (take i xs)) (drop i xs)"
    by (metis append_take_drop_id filter_append)
  moreover have "filter (\<lambda>p. p \<notin> set (take i xs)) (drop i xs) = drop i xs"
    using set_take_disj_set_drop_if_distinct [OF assms, of i i] by (auto simp: filter_id_conv)
  ultimately show ?thesis by simp
qed

text \<open>The whole operation, without its case distinctions.\<close>

lemma list_expired_eq:
  assumes wf: "tm_wf m" and a: "a \<notin> dom (timer_store m)" and ne: "m_timers m \<noteq> []"
  shows "list_expired_cb now a cbs m =
     fire_expired now (expired_timers now m) cbs
       (m\<lparr>m_previouseTime := now,
          m_timers := filter (\<lambda>p. p \<notin> set (expired_timers now m)) (m_timers m)\<rparr>)"
proof -
  have roll: "detect_clock_rollover now m = (rolled_back now m, m\<lparr>m_previouseTime := now\<rparr>)"
    by (auto simp: detect_clock_rollover_def rolled_back_def)
  have take: "take (expired_end (rolled_back now m) now a m) (m_timers m) = expired_timers now m"
    using take_expired_end [OF wf a] .
  then have drop: "drop (expired_end (rolled_back now m) now a m) (m_timers m)
      = filter (\<lambda>p. p \<notin> set (expired_timers now m)) (m_timers m)"
    using filter_notin_take [OF tm_wf_distinct [OF wf]] by metis
  have same: "expired_end r now a (m\<lparr>m_previouseTime := now\<rparr>) = expired_end r now a m" for r
    by (simp add: expired_end_def)
  show ?thesis
  proof (cases "\<not> rolled_back now m \<and> next_of (timer_store m) (hd (m_timers m)) > now")
    case True
    have "next_of (timer_store m) (hd (m_timers m)) \<le> next_of (timer_store m) p" if "p \<in> set (m_timers m)" for p
      using that ne tm_wf_sorted [OF wf] sorted_next_le
      by (metis list.collapse order_refl set_ConsD)
    with True have "expired_timers now m = []"
      by (fastforce simp: expired_timers_def filter_empty_conv)
    with True ne roll show ?thesis by (simp add: list_expired_cb_def)
  next
    case False
    with ne roll take drop same show ?thesis by (auto simp: list_expired_cb_def Let_def)
  qed
qed

lemma expired_subset: "set (expired_timers now m) \<subseteq> set (m_timers m)"
  by (auto simp: expired_timers_def)

lemma expired_empty_set [simp]: "m_timers m = [] \<Longrightarrow> expired_timers now m = []"
  by (simp add: expired_timers_def)

lemma list_expired_Inr:
  assumes wf: "tm_wf m" and a: "a \<notin> dom (timer_store m)"
    and run: "list_expired_cb now a cbs m = Inr (cbs', m')"
  shows "cbs' = cbs @ map (callback_of m) (expired_timers now m)"
    and "timer_store m' = fire_store now (expired_timers now m) (timer_store m)"
    and "set (m_timers m') = (set (m_timers m) - set (expired_timers now m))
           \<union> {p \<in> set (expired_timers now m). is_recurring m p}"
    and "tm_wf m'"
proof -
  let ?e = "expired_timers now m"
  let ?m = "m\<lparr>m_previouseTime := now, m_timers := filter (\<lambda>p. p \<notin> set ?e) (m_timers m)\<rparr>"
  have d: "set ?e \<subseteq> dom (timer_store m)" "distinct ?e"
    using wf expired_subset [of now m] tm_wf_distinct [OF wf]
    by (auto simp: tm_wf_def expired_timers_def)
  have s: "sorted_wrt (timer_cmp (timer_store m)) (filter (\<lambda>p. p \<notin> set ?e) (m_timers m))"
    using tm_wf_sorted [OF wf] by (rule sorted_wrt_filter)
  have all: "cbs' = cbs @ map (callback_of m) ?e \<and>
    timer_store m' = fire_store now ?e (timer_store m) \<and>
    sorted_wrt (timer_cmp (timer_store m')) (m_timers m') \<and>
    set (m_timers m') = (set (m_timers m) - set ?e) \<union> {p \<in> set ?e. is_recurring m p}"
  proof (cases "m_timers m = []")
    case True
    with run show ?thesis by (auto simp: list_expired_cb_def fire_store_def)
  next
    case False
    have c: "callback_of ?m = callback_of m" "is_recurring ?m = is_recurring m"
      by (auto simp: callback_of_def is_recurring_def fun_eq_iff)
    from run have "fire_expired now ?e cbs ?m = Inr (cbs', m')"
      by (simp add: list_expired_eq [OF wf a False])
    from fire_expired_spec [OF this] d s c show ?thesis by auto
  qed
  then show "cbs' = cbs @ map (callback_of m) ?e"
    and st: "timer_store m' = fire_store now ?e (timer_store m)"
    and el: "set (m_timers m') = (set (m_timers m) - set ?e) \<union> {p \<in> set ?e. is_recurring m p}"
    by auto
  have "p \<in> set (m_timers m')" if "timer_store m' p = Some t" and "m_cb t \<noteq> None" for p t
    using that st el d wf by (auto simp: tm_wf_def fired_def fire_store_def is_recurring_def split: if_splits)
  then show "tm_wf m'"
    using all d wf unfolding tm_wf_def by (auto simp: dom_def fire_store_def split: if_splits)
qed

lemma list_expired_total:
  assumes wf: "tm_wf m" and a: "a \<notin> dom (timer_store m)"
    and r: "\<forall>p\<in>set (expired_timers now m). \<forall>t. timer_store m p = Some t \<and> m_recurring t
              \<longrightarrow> ms_in_range (now + m_ms t)"
  shows "\<exists>cbs' m'. list_expired_cb now a cbs m = Inr (cbs', m')"
proof (cases "m_timers m = []")
  case True
  then show ?thesis by (simp add: list_expired_cb_def)
next
  case False
  have d: "set (expired_timers now m) \<subseteq> dom (timer_store m)" "distinct (expired_timers now m)"
    using wf expired_subset [of now m] tm_wf_distinct [OF wf]
    by (auto simp: tm_wf_def expired_timers_def)
  show ?thesis
    unfolding list_expired_eq [OF wf a False] using d r by (intro fire_expired_total) auto
qed

section \<open>The manager as a state machine\<close>

text \<open>
  Every public operation as a step, with any clock reading and any arguments. A timer that is not in
  the set is freed when its last \<open>shared_ptr\<close> goes away (\<open>drop\<close>), after which the
  allocator may hand its address out again; \<open>held\<close> are the timers whose \<open>Timer::ptr\<close> a
  caller keeps.
\<close>

definition tm_start :: "'cb timer_manager \<Rightarrow> bool" where
  "tm_start m \<longleftrightarrow> m_timers m = [] \<and> timer_store m = Map.empty \<and> \<not> m_tickled m"

inductive tm_step :: "nat set \<Rightarrow> 'cb timer_manager \<Rightarrow> 'cb timer_manager \<Rightarrow> bool"
  for held :: "nat set" where
  add: "timer_store m p = None \<Longrightarrow> add_timer now p ms cb rec m = Inr (f, m') \<Longrightarrow> tm_step held m m'"
| cancel: "timer_cancel p m = Inr (r, m') \<Longrightarrow> tm_step held m m'"
| refresh: "timer_refresh now p m = Inr (r, m') \<Longrightarrow> tm_step held m m'"
| reset: "timer_reset now p ms from_now m = Inr (r, f, m') \<Longrightarrow> tm_step held m m'"
| next_timer: "get_next_timer now m = (d, m') \<Longrightarrow> tm_step held m m'"
| expire: "a \<notin> dom (timer_store m) \<Longrightarrow> list_expired_cb now a cbs m = Inr (cbs', m') \<Longrightarrow> tm_step held m m'"
| drop: "p \<notin> set (m_timers m) \<Longrightarrow> p \<notin> held \<Longrightarrow>
    tm_step held m (m\<lparr>timer_store := (timer_store m)(p := None)\<rparr>)"

inductive_cases tm_stepE: "tm_step held m m'"

lemma timer_cancel_cases:
  assumes "tm_wf m" and "timer_cancel p m = Inr (r, m')"
  obtains t where "timer_store m p = Some t" and "m_cb t = None" and "\<not> r" and "m' = m"
  | t where "timer_store m p = Some t" and "m_cb t \<noteq> None" and "r"
      and "m' = m\<lparr>timer_store := (timer_store m)(p \<mapsto> t\<lparr>m_cb := None\<rparr>), m_timers := remove1 p (m_timers m)\<rparr>"
proof -
  from assms(2) obtain t where t: "timer_store m p = Some t"
    by (auto simp: timer_cancel_def outcome_simps)
  show thesis
  proof (cases "m_cb t = None")
    case True
    with assms(2) t that(1) [OF t] show thesis by (simp add: timer_cancel_def)
  next
    case False
    with timer_cancel_armed [OF assms(1) t False] assms(2) that(2) [OF t False] show thesis by simp
  qed
qed

lemma timer_refresh_cases:
  assumes "tm_wf m" and "timer_refresh now p m = Inr (r, m')"
  obtains "m' = m" and "\<not> r"
  | t where "timer_store m p = Some t" and "m_cb t \<noteq> None" and "tm_wf m'"
      and "deadlines m' = (deadlines m)(p \<mapsto> now + m_ms t)"
      and "timer_store m' = (timer_store m)(p \<mapsto> t\<lparr>m_next := now + m_ms t\<rparr>)"
proof -
  from assms(2) obtain t where t: "timer_store m p = Some t"
    by (auto simp: timer_refresh_def outcome_simps)
  show thesis
  proof (cases "m_cb t = None")
    case True
    with assms(2) t that(1) show thesis by (simp add: timer_refresh_def)
  next
    case False
    note e = deref_erase [OF assms(1) tm_wf_armed [OF assms(1) t False]]
    have "ms_in_range (now + m_ms t)"
      using assms(2) t False e by (auto simp: timer_refresh_def Let_def outcome_simps)
    from timer_refresh_armed [OF assms(1) t False this] assms(2) that(2) [OF t False]
    show thesis by auto
  qed
qed

lemma timer_reset_cases:
  assumes "tm_wf m" and "timer_reset now p ms from_now m = Inr (r, f, m')"
  obtains "m' = m" and "\<not> f"
  | t start where "timer_store m p = Some t" and "m_cb t \<noteq> None" and "r" and "tm_wf m'"
      and "start = (if from_now then now else m_next t - ms)"
      and "deadlines m' = (deadlines m)(p \<mapsto> start + ms)"
      and "timer_store m' = (timer_store m)(p \<mapsto> t\<lparr>m_ms := ms, m_next := start + ms\<rparr>)"
proof -
  from assms(2) obtain t where t: "timer_store m p = Some t"
    by (auto simp: timer_reset_def outcome_simps)
  define start where "start = (if from_now then now else m_next t - ms)"
  show thesis
  proof (cases "m_cb t = None \<or> m_ms t = ms \<and> \<not> from_now")
    case True
    with assms(2) t that(1) show thesis by (auto simp: timer_reset_def split: if_splits)
  next
    case False
    then have cb: "m_cb t \<noteq> None" and real: "\<not> (m_ms t = ms \<and> \<not> from_now)" by auto
    note e = deref_erase [OF assms(1) tm_wf_armed [OF assms(1) t cb]]
    have "ms_in_range (start + ms) \<and> (from_now \<or> ms_in_range start)"
      using assms(2) t cb real e
      by (auto simp: timer_reset_def Let_def outcome_simps start_def split: if_splits)
    moreover have "\<exists>f m'. timer_reset now p ms from_now m = Inr (True, f, m') \<and> tm_wf m' \<and>
       deadlines m' = (deadlines m)(p \<mapsto> start + ms) \<and>
       timer_store m' = (timer_store m)(p \<mapsto> t\<lparr>m_ms := ms, m_next := start + ms\<rparr>)"
      if "from_now \<or> ms_in_range start" "ms_in_range (start + ms)"
      using timer_reset_armed [OF assms(1) t cb real start_def] that by blast
    ultimately show thesis
      using assms(2) that(2) [OF t cb _ _ start_def] by auto
  qed
qed


lemma tm_step_wf: "tm_step held m m' \<Longrightarrow> tm_wf m \<Longrightarrow> tm_wf m'"
proof (induction rule: tm_step.induct)
  case (add m p now ms cb rec f m')
  then show ?case by (auto dest: add_timer_Inr)
next
  case (cancel p m r m')
  from cancel.prems cancel.hyps show ?case
    by (cases rule: timer_cancel_cases) (use cancel.prems in \<open>auto intro: cancel_wf\<close>)
next
  case (refresh now p m r m')
  from refresh.prems refresh.hyps show ?case by (cases rule: timer_refresh_cases) (use refresh.prems in auto)
next
  case (reset now p ms from_now m r f m')
  from reset.prems reset.hyps show ?case
    by (cases rule: timer_reset_cases) (use reset.prems in auto)
next
  case (next_timer now m d m')
  then show ?case by (auto simp: get_next_timer_def tm_wf_def Let_def split: list.splits if_splits)
next
  case (expire a m now cbs cbs' m')
  then show ?case by (auto intro: list_expired_Inr)
next
  case (drop p m)
  have "sorted_wrt (timer_cmp ((timer_store m)(p := None))) (m_timers m)
      = sorted_wrt (timer_cmp (timer_store m)) (m_timers m)"
    by (rule sorted_store_cong) (use drop in \<open>auto simp: next_of_def\<close>)
  with drop show ?case by (auto simp: tm_wf_def)
qed

lemma tm_start_wf: "tm_start m \<Longrightarrow> tm_wf m"
  by (simp add: tm_start_def tm_wf_def)

lemma timer_manager_new_start: "tm_start (timer_manager_new now)"
  by (simp add: tm_start_def timer_manager_new_def)

interpretation tm_safe: safe_system tm_start "tm_step held" tm_wf for held
  by unfold_locales (auto intro: tm_start_wf tm_step_wf)

section \<open>What the I/O manager relies on\<close>

text \<open>
  The idle loop asks for the time to the next deadline and collects the callbacks that are due;
  \<open>fresh\<close> says that an address is not in use.
\<close>

locale timer_source =
  fixes ok :: "'tm \<Rightarrow> bool"
    and no_timer :: "'tm \<Rightarrow> bool"
    and fresh :: "nat \<Rightarrow> 'tm \<Rightarrow> bool"
    and next_in :: "millis \<Rightarrow> 'tm \<Rightarrow> millis \<times> 'tm"
    and expire :: "millis \<Rightarrow> nat \<Rightarrow> 'tm \<Rightarrow> ('cb option list \<times> 'tm) outcome"
  assumes next_ok: "ok m \<Longrightarrow> ok (snd (next_in now m))"
    and next_fresh: "fresh a (snd (next_in now m)) = fresh a m"
    and next_none: "ok m \<Longrightarrow> fst (next_in now m) = ms_none \<longleftrightarrow> no_timer m"
    and next_nonneg: "ok m \<Longrightarrow> \<not> no_timer m \<Longrightarrow> 0 \<le> fst (next_in now m)"
    and expire_ok: "ok m \<Longrightarrow> fresh a m \<Longrightarrow> expire now a m = Inr (cbs, m') \<Longrightarrow> ok m'"
    and expire_none: "no_timer m \<Longrightarrow> expire now a m = Inr ([], m)"
begin

lemma next_cases:
  assumes "ok m"
  obtains "no_timer m" and "fst (next_in now m) = -1"
  | "\<not> no_timer m" and "0 \<le> fst (next_in now m)"
  using next_none [OF assms, of now] next_nonneg [OF assms, of now] that by (cases "no_timer m") auto

lemma next_then_expire_ok:
  "ok m \<Longrightarrow> fresh a m \<Longrightarrow> expire now' a (snd (next_in now m)) = Inr (cbs, m') \<Longrightarrow> ok m'"
  by (rule expire_ok [OF next_ok]) (simp_all add: next_fresh)

end

lemma get_next_timer_wf: "tm_wf m \<Longrightarrow> tm_wf (snd (get_next_timer now m))"
  by (auto simp: get_next_timer_def tm_wf_def Let_def split: list.splits)

lemma get_next_timer_keeps [simp]:
  "timer_store (snd (get_next_timer now m)) = timer_store m"
  "m_timers (snd (get_next_timer now m)) = m_timers m"
  by (auto simp: get_next_timer_def Let_def split: list.splits)

interpretation tsrc: timer_source tm_wf "\<lambda>m. m_timers m = []" "\<lambda>a m. a \<notin> dom (timer_store m)"
  get_next_timer "\<lambda>now a m. list_expired_cb now a [] m"
proof
  show "fst (get_next_timer now m) = ms_none \<longleftrightarrow> m_timers m = []" if "tm_wf m" for m :: "'a timer_manager" and now
    by (auto simp: get_next_timer_def Let_def split: list.splits)
  show "0 \<le> fst (get_next_timer now m)" if "m_timers m \<noteq> []" for m :: "'a timer_manager" and now
    using that by (auto simp: get_next_timer_def Let_def split: list.splits)
  show "tm_wf m'" if "tm_wf m" "a \<notin> dom (timer_store m)" "list_expired_cb now a [] m = Inr (cbs, m')"
    for m m' :: "'a timer_manager" and a now cbs
    using list_expired_Inr [OF that] by auto
qed (auto simp: get_next_timer_wf list_expired_cb_def)

text \<open>A timer whose callback is gone and that is not in the set: cancelled, or fired for good.\<close>

definition timer_dead :: "nat \<Rightarrow> 'cb timer_manager \<Rightarrow> bool" where
  "timer_dead p m \<longleftrightarrow> p \<notin> set (m_timers m) \<and>
     (case timer_store m p of None \<Rightarrow> False | Some t \<Rightarrow> m_cb t = None)"

definition tm_dead :: "nat \<Rightarrow> 'cb timer_manager \<Rightarrow> bool" where
  "tm_dead p m \<longleftrightarrow> tm_wf m \<and> timer_dead p m"

lemma deadlines_dom: "dom (deadlines m) = set (m_timers m)"
  by (auto simp: deadlines_def split: if_splits)

lemma ran_deadlines: "ran (deadlines m) = next_of (timer_store m) ` set (m_timers m)"
  by (auto simp: ran_def deadlines_def)

lemma deadlines_empty_iff: "deadlines m = Map.empty \<longleftrightarrow> m_timers m = []"
  using deadlines_dom [of m] by auto

lemma timer_dead_other:
  "q \<noteq> p \<Longrightarrow> timer_dead p m \<Longrightarrow> timer_store m' = (timer_store m)(q \<mapsto> t) \<Longrightarrow>
   set (m_timers m') \<subseteq> insert q (set (m_timers m)) \<Longrightarrow> timer_dead p m'"
  by (auto simp: timer_dead_def)

lemma deadlines_upd_subset:
  "deadlines m' = (deadlines m)(q \<mapsto> d) \<Longrightarrow> set (m_timers m') \<subseteq> insert q (set (m_timers m))"
  using deadlines_dom by (metis dom_fun_upd insert_absorb2 option.distinct(1) order_refl)

lemma tm_step_dead:
  "tm_step (insert p held) m m' \<Longrightarrow> tm_dead p m \<Longrightarrow> tm_dead p m'"
  unfolding tm_dead_def
proof (intro conjI)
  assume st: "tm_step (insert p held) m m'" and d: "tm_wf m \<and> timer_dead p m"
  then show "tm_wf m'" by (blast intro: tm_step_wf)
  from st d show "timer_dead p m'"
  proof (induction rule: tm_step.induct)
    case (add m q now ms cb rec f m')
    then have "q \<noteq> p" by (auto simp: timer_dead_def)
    with add add_timer_Inr [of m q now ms cb rec f m'] show ?case
      by (meson deadlines_upd_subset timer_dead_other)
  next
    case (cancel q m r m')
    from cancel.prems have "tm_wf m" by simp
    from this cancel.hyps show ?case
      by (cases rule: timer_cancel_cases)
         (use cancel.prems in \<open>auto simp: timer_dead_def dest: in_set_remove1 notin_set_remove1 split: option.splits\<close>)
  next
    case (refresh now q m r m')
    from refresh.prems have "tm_wf m" by simp
    from this refresh.hyps show ?case
    proof (cases rule: timer_refresh_cases)
      case (2 t)
      with refresh.prems have "q \<noteq> p" by (auto simp: timer_dead_def)
      with 2 refresh.prems show ?thesis by (meson deadlines_upd_subset timer_dead_other)
    qed (use refresh.prems in simp)
  next
    case (reset now q ms from_now m r f m')
    from reset.prems have "tm_wf m" by simp
    from this reset.hyps show ?case
    proof (cases rule: timer_reset_cases)
      case (2 t start)
      with reset.prems have "q \<noteq> p" by (auto simp: timer_dead_def)
      with 2 reset.prems show ?thesis by (meson deadlines_upd_subset timer_dead_other)
    qed (use reset.prems in simp)
  next
    case (next_timer now m d m')
    then show ?case by (auto simp: get_next_timer_def timer_dead_def Let_def split: list.splits if_splits)
  next
    case (expire a m now cbs cbs' m')
    then show ?case
      using list_expired_Inr(2,3) [of m a now cbs cbs' m'] expired_subset [of now m]
      by (auto simp: timer_dead_def fire_store_def split: option.splits)
  next
    case (drop q m)
    then show ?case by (auto simp: timer_dead_def)
  qed
qed

interpretation tm_dead_safe: safe_system "tm_dead p" "tm_step (insert p held)" "tm_dead p" for p held
  by unfold_locales (auto intro: tm_step_dead)

lemma dead_not_expired: "timer_dead p m \<Longrightarrow> p \<notin> set (expired_timers now m)"
  using expired_subset by (auto simp: timer_dead_def)

text \<open>
  An idle thread that sleeps until \<open>d\<close> sleeps safely: no deadline is earlier, or the manager
  has asked for a wake-up since the last \<open>getNextTimer\<close>.
\<close>

definition wake_covered :: "millis \<Rightarrow> 'cb timer_manager \<Rightarrow> bool" where
  "wake_covered d m \<longleftrightarrow> m_tickled m \<or> (\<forall>p\<in>set (m_timers m). d \<le> next_of (timer_store m) p)"

lemma add_locked_front_iff:
  assumes "sorted_wrt (timer_cmp (timer_store m)) (m_timers m)" and "p \<notin> set (m_timers m)"
  shows "fst (add_timer_locked p m) \<longleftrightarrow>
     \<not> m_tickled m \<and> (\<forall>q\<in>set (m_timers m). timer_cmp (timer_store m) p q)"
    and "m_tickled (snd (add_timer_locked p m)) \<longleftrightarrow> m_tickled m \<or> fst (add_timer_locked p m)"
  using tset.set_insert_begin_iff [OF assms] by (auto simp: add_timer_locked_def Let_def)

lemma add_locked_covered:
  assumes "sorted_wrt (timer_cmp (timer_store m)) (m_timers m)" and "p \<notin> set (m_timers m)"
    and "wake_covered d m"
  shows "wake_covered d (snd (add_timer_locked p m))"
proof (cases "fst (add_timer_locked p m) \<or> m_tickled m")
  case True
  with add_locked_front_iff(2) [OF assms(1,2)] show ?thesis by (auto simp: wake_covered_def)
next
  case False
  with add_locked_front_iff(1) [OF assms(1,2)] obtain q where
    q: "q \<in> set (m_timers m)" and "\<not> timer_cmp (timer_store m) p q" by auto
  then have "next_of (timer_store m) q \<le> next_of (timer_store m) p"
    by (auto simp: timer_cmp_iff less_timer_key_def)
  moreover have "d \<le> next_of (timer_store m) q"
    using False q assms(3) by (auto simp: wake_covered_def)
  moreover have "set (m_timers (snd (add_timer_locked p m))) = insert p (set (m_timers m))"
    "timer_store (snd (add_timer_locked p m)) = timer_store m"
    using tset.set_insert_elems [OF assms(1)] by (auto simp: add_timer_locked_def Let_def)
  ultimately show ?thesis
    using False assms(3) by (auto simp: wake_covered_def)
qed


section \<open>Properties\<close>

text \<open>The comparator of the timer set is a strict total order on nullable timer pointers, and it
  puts an earlier deadline first: what \<open>std::set\<close> asks of it.\<close>

theorem comparator_strict_total:
  "\<not> comparator h x x \<and>
   (comparator h x y \<and> comparator h y z \<longrightarrow> comparator h x z) \<and>
   (x \<noteq> y \<longrightarrow> comparator h x y \<or> comparator h y x) \<and>
   (next_of h p < next_of h q \<longrightarrow> comparator h (Some p) (Some q))"
  using nullable.cmp_irrefl [of h x] nullable.cmp_trans [of h x y z] nullable.cmp_total [of x y h]
  by (auto simp: comparator.simps(4))

theorem comparator_strict_total_witness:
  "comparator [1 \<mapsto> timer_probe 5, 2 \<mapsto> (timer_probe 3 :: nat timer)] (Some 2) (Some 1)"
  using comparator_strict_total
      [of "[1 \<mapsto> timer_probe 5, 2 \<mapsto> (timer_probe 3 :: nat timer)]" None None None 2 1]
  by (simp add: timer_probe_def)

text \<open>None of the three operations that erase a timer's position can erase \<open>end()\<close>.\<close>

lemma erase_in_range:
  assumes wf: "tm_wf m"
  shows "timer_cancel p m \<noteq> Inl Erase_End" and "timer_refresh now p m \<noteq> Inl Erase_End"
    and "timer_reset now p ms from_now m \<noteq> Inl Erase_End"
proof -
  have e: "\<exists>ts. set_erase (set_find (timer_cmp (timer_store m)) p (m_timers m)) (m_timers m) = Inr ts"
    if "timer_store m p = Some t" "m_cb t \<noteq> None" for t
    using deref_erase [OF wf tm_wf_armed [OF wf that]] by blast
  show "timer_cancel p m \<noteq> Inl Erase_End"
  proof (cases "timer_store m p")
    case None
    then show ?thesis by (simp add: timer_cancel_def deref_None)
  next
    case (Some t)
    then show ?thesis
      using timer_cancel_armed [OF wf Some] timer_cancel_dead [OF Some] by (cases "m_cb t = None") auto
  qed
  show "timer_refresh now p m \<noteq> Inl Erase_End"
    using e by (cases "timer_store m p") (auto simp: timer_refresh_def deref_None ms_add_def Let_def split: if_splits)
  show "timer_reset now p ms from_now m \<noteq> Inl Erase_End"
    using e by (cases "timer_store m p") (auto simp: timer_reset_def deref_None ms_add_def ms_sub_def Let_def split: if_splits)
qed

text \<open>C26: in every reachable state of the manager, whatever the clock does and whatever callers do
  with their timers, the set is ordered, holds allocated timers only and contains every timer that
  still has its callback; so none of \<open>cancel\<close> (which does not test the iterator it erases),
  \<open>refresh\<close> and \<open>reset\<close> ever erases \<open>end()\<close>, whatever their arguments.\<close>

theorem timer_manager_safe:
  assumes "reach tm_start (tm_step held) m"
  shows "tm_wf m \<and> timer_cancel p m \<noteq> Inl Erase_End \<and> timer_refresh now p m \<noteq> Inl Erase_End \<and>
     timer_reset now p ms from_now m \<noteq> Inl Erase_End"
  using tm_safe.reach_inv [OF assms] erase_in_range by blast

text \<open>A manager with one timer.\<close>

definition one_timer :: "nat timer_manager" where
  "one_timer =
     \<lparr>timer_store = [1 \<mapsto> \<lparr>m_recurring = True, m_ms = 10, m_next = 15, m_cb = Some 3\<rparr>],
      m_timers = [1], m_tickled = True, m_previouseTime = 5\<rparr>"

lemma one_timer_reach: "reach tm_start (tm_step {}) one_timer"
proof -
  have "add_timer 5 1 10 (Some 3) True (timer_manager_new 5 :: nat timer_manager) = Inr (True, one_timer)"
    by (simp add: one_timer_def add_timer_def timer_new_def add_timer_locked_def timer_manager_new_def set_insert_def
        set_lower_bound_def ms_in_range_def Let_def)
  then have "tm_step {} (timer_manager_new 5) one_timer"
    by (rule tm_step.add [rotated]) (simp add: timer_manager_new_def)
  then show ?thesis
    by (rule reach_step [OF reach_start [of tm_start, OF timer_manager_new_start]])
qed

theorem timer_manager_safe_witness:
  "m_timers one_timer \<noteq> [] \<and> tm_wf one_timer \<and> timer_cancel 1 one_timer \<noteq> Inl Erase_End \<and>
   timer_refresh 14 1 one_timer \<noteq> Inl Erase_End \<and> timer_reset 14 1 20 False one_timer \<noteq> Inl Erase_End"
  using timer_manager_safe [OF one_timer_reach, of 1 14 20 False] by (simp add: one_timer_def)

text \<open>C12: \<open>listExpiredCb\<close> never faults on a well-formed manager (as long as re-arming a recurring
  timer does not overflow) and returns exactly the callbacks of the timers whose deadline has come,
  in deadline order and all of them after a clock rollback; a recurring timer is re-armed for
  \<open>now + m_ms\<close>, a one-shot timer loses its callback and leaves the set, no other timer is
  touched, and the address the allocator gives the search probe does not matter.\<close>

theorem list_expired_cb_correct:
  assumes "tm_wf m" and "a \<notin> dom (timer_store m)"
    and "\<forall>p\<in>set (expired_timers now m). \<forall>t. timer_store m p = Some t \<and> m_recurring t
           \<longrightarrow> ms_in_range (now + m_ms t)"
  shows "\<exists>m'. list_expired_cb now a cbs m
            = Inr (cbs @ map (callback_of m) (expired_timers now m), m') \<and>
          tm_wf m' \<and>
          timer_store m' = fire_store now (expired_timers now m) (timer_store m) \<and>
          set (m_timers m') = (set (m_timers m) - set (expired_timers now m))
             \<union> {p \<in> set (expired_timers now m). is_recurring m p}"
proof -
  from list_expired_total [OF assms] obtain cbs' m' where
    run: "list_expired_cb now a cbs m = Inr (cbs', m')" by blast
  from list_expired_Inr [OF assms(1,2) run] run show ?thesis by auto
qed

definition sample_timers :: "nat timer_manager" where
  "sample_timers =
     \<lparr>timer_store = [7 \<mapsto> \<lparr>m_recurring = True, m_ms = 100, m_next = 50, m_cb = Some 1\<rparr>,
                     9 \<mapsto> \<lparr>m_recurring = False, m_ms = 80, m_next = 80, m_cb = Some 2\<rparr>],
      m_timers = [7, 9], m_tickled = False, m_previouseTime = 0\<rparr>"

lemma sample_timers_wf: "tm_wf sample_timers"
  by (auto simp: tm_wf_def sample_timers_def timer_cmp_iff less_timer_key_def next_of_def)

theorem list_expired_cb_correct_witness:
  "\<exists>m'. list_expired_cb 60 1 [] sample_timers = Inr ([Some 1], m') \<and> tm_wf m' \<and>
        m_timers m' \<noteq> [] \<and> next_of (timer_store m') 7 = 160"
proof -
  have e: "expired_timers 60 sample_timers = [7]"
    by (simp add: expired_timers_def rolled_back_def sample_timers_def next_of_def)
  have r: "is_recurring sample_timers 7" "callback_of sample_timers 7 = Some 1"
    by (simp_all add: is_recurring_def callback_of_def sample_timers_def)
  from list_expired_cb_correct [OF sample_timers_wf, of 1 60 "[]"] e r show ?thesis
    by (auto simp: sample_timers_def ms_in_range_def fire_store_def fired_def next_of_def)
qed

text \<open>After \<open>listExpiredCb\<close> no overdue timer is left behind: a timer still in the set has a
  deadline after \<open>now\<close>, unless it recurs with a period that is not positive.\<close>

theorem list_expired_cb_complete:
  assumes "tm_wf m" and "a \<notin> dom (timer_store m)"
    and "list_expired_cb now a cbs m = Inr (cbs', m')" and "deadlines m' p = Some d"
  shows "now < d \<or> (\<exists>t. timer_store m p = Some t \<and> m_recurring t \<and> m_ms t \<le> 0)"
proof -
  note r = list_expired_Inr [OF assms(1-3)]
  from assms(4) have p: "p \<in> set (m_timers m')" and d: "d = next_of (timer_store m') p"
    by (auto simp: deadlines_def split: if_splits)
  show ?thesis
  proof (cases "p \<in> set (expired_timers now m)")
    case True
    with p r(3) have "is_recurring m p" by auto
    then obtain t where "timer_store m p = Some t" "m_recurring t"
      by (auto simp: is_recurring_def split: option.splits)
    with True d r(2) show ?thesis by (auto simp: fire_store_def fired_def next_of_def)
  next
    case False
    with p r(3) have "p \<in> set (m_timers m)" by auto
    with False have "now < next_of (timer_store m) p" by (auto simp: expired_timers_def split: if_splits)
    with False d r(2) show ?thesis by (simp add: fire_store_def next_of_def)
  qed
qed

theorem list_expired_cb_complete_witness:
  "\<exists>cbs' m'. list_expired_cb 60 1 [] sample_timers = Inr (cbs', m') \<and>
     \<not> (\<exists>d. deadlines m' 7 = Some d \<and> d \<le> 60)"
proof -
  obtain cbs' m' where run: "list_expired_cb 60 1 [] sample_timers = Inr (cbs', m')"
    using list_expired_total [OF sample_timers_wf, of 1 60 "[]"]
    by (auto simp: sample_timers_def ms_in_range_def expired_timers_def rolled_back_def next_of_def)
  have "60 < d" if "deadlines m' 7 = Some d" for d
    using list_expired_cb_complete [OF sample_timers_wf _ run that] by (auto simp: sample_timers_def)
  with run show ?thesis by fastforce
qed

text \<open>C37: cancelling is final. Once \<open>cancel\<close> has returned true for a timer whose
  \<open>Timer::ptr\<close> the caller keeps, no later sequence of manager operations, \<open>refresh\<close>
  and \<open>reset\<close> of that very timer included, puts it back: it is never among the expired timers
  and a second \<open>cancel\<close> returns false.\<close>

theorem timer_cancel_final:
  assumes "tm_wf m" and "timer_cancel p m = Inr (True, m1)"
    and "reach ((=) m1) (tm_step (insert p held)) m2"
  shows "p \<notin> set (m_timers m2) \<and> p \<notin> set (expired_timers now m2) \<and>
         timer_cancel p m2 = Inr (False, m2)"
proof -
  from assms(1,2) have "tm_dead p m1"
  proof (cases rule: timer_cancel_cases)
    case (2 t)
    with assms(1) show ?thesis
      by (auto simp: tm_dead_def timer_dead_def tm_wf_distinct intro: cancel_wf)
  qed simp
  with assms(3) have "tm_dead p m2" by (rule tm_dead_safe.reach_from_inv)
  then have d: "timer_dead p m2" by (simp add: tm_dead_def)
  then obtain t where "timer_store m2 p = Some t" "m_cb t = None"
    by (auto simp: timer_dead_def split: option.splits)
  with d dead_not_expired [OF d] show ?thesis by (auto simp: timer_dead_def timer_cancel_dead)
qed

theorem timer_cancel_final_witness:
  "\<exists>m1. timer_cancel 9 sample_timers = Inr (True, m1) \<and> timer_cancel 9 m1 = Inr (False, m1)"
proof -
  have "\<exists>m1. timer_cancel 9 sample_timers = Inr (True, m1)"
    using timer_cancel_armed [OF sample_timers_wf, of 9] by (simp add: sample_timers_def)
  then obtain m1 where c: "timer_cancel 9 sample_timers = Inr (True, m1)" ..
  have "reach ((=) m1) (tm_step (insert 9 {})) m1" by (rule reach_start) simp
  from timer_cancel_final [OF sample_timers_wf c this] c
  show ?thesis by blast
qed

text \<open>\<open>reset(ms, false)\<close> stores the new period but never moves the deadline: the start is
  computed from the new period (\<open>m_next - ms\<close>) instead of the old one, so adding the period
  back gives the old deadline.\<close>

theorem timer_reset_keeps_deadline:
  assumes "tm_wf m" and "timer_store m p = Some t" and "m_cb t \<noteq> None"
    and "ms_in_range (m_next t)" and "ms_in_range (m_next t - ms)" and "m_ms t \<noteq> ms"
  shows "\<exists>f m'. timer_reset now p ms False m = Inr (True, f, m') \<and>
            deadlines m' = deadlines m \<and> timer_store m' p = Some (t\<lparr>m_ms := ms\<rparr>)"
proof -
  have "deadlines m p = Some (m_next t)"
    using tm_wf_armed [OF assms(1-3)] assms(2) by (simp add: deadlines_def)
  then have "(deadlines m)(p \<mapsto> m_next t) = deadlines m" by auto
  with timer_reset_armed [OF assms(1-3), of ms False "m_next t - ms" now] assms(4-6)
  show ?thesis by auto
qed

theorem timer_reset_keeps_deadline_witness:
  "\<exists>f m'. timer_reset 10 9 5 False sample_timers = Inr (True, f, m') \<and>
     deadlines m' 9 = Some 80"
proof -
  have t: "timer_store sample_timers 9 = Some \<lparr>m_recurring = False, m_ms = 80, m_next = 80, m_cb = Some 2\<rparr>"
    and d: "deadlines sample_timers 9 = Some 80"
    by (simp_all add: sample_timers_def deadlines_def next_of_def)
  from timer_reset_keeps_deadline [OF sample_timers_wf t, of 5 10] d show ?thesis
    by (auto simp: ms_in_range_def)
qed

text \<open>\<open>getNextTimer\<close> returns the sentinel \<open>milliseconds(~0ull)\<close>, which is
  \<open>-1\<close>, exactly when there is no timer, and otherwise the time left to the earliest deadline
  of all timers, at least 0.\<close>

theorem get_next_timer_correct:
  assumes "tm_wf m"
  shows "(fst (get_next_timer now m) = ms_none \<longleftrightarrow> deadlines m = Map.empty) \<and>
         (deadlines m \<noteq> Map.empty \<longrightarrow>
            fst (get_next_timer now m) = max 0 (Min (ran (deadlines m)) - now)) \<and>
         snd (get_next_timer now m) = m\<lparr>m_tickled := False\<rparr>"
proof (cases "m_timers m")
  case Nil
  then show ?thesis by (simp add: get_next_timer_def deadlines_def Let_def)
next
  case (Cons p ps)
  let ?n = "next_of (timer_store m)"
  have "?n p \<le> ?n q" if "q \<in> set (m_timers m)" for q
    using that tm_wf_sorted [OF assms] sorted_next_le [of "timer_store m" p ps q] Cons by auto
  then have "Min (?n ` set (m_timers m)) = ?n p"
    using Cons by (intro Min_eqI) auto
  then show ?thesis
    using Cons by (auto simp: get_next_timer_def Let_def ran_deadlines deadlines_empty_iff)
qed

theorem get_next_timer_correct_witness: "fst (get_next_timer 20 sample_timers) = 30"
proof -
  have "ran (deadlines sample_timers) = {50, 80}" "deadlines sample_timers \<noteq> Map.empty"
    by (simp_all add: ran_deadlines deadlines_empty_iff) (simp_all add: sample_timers_def next_of_def)
  with get_next_timer_correct [OF sample_timers_wf, of 20] show ?thesis by simp
qed

text \<open>The abstract manager: of every timer in the set whether it recurs, its period and its deadline.\<close>

definition armed :: "'cb timer_manager \<Rightarrow> nat \<rightharpoonup> bool \<times> millis \<times> millis" where
  "armed m p =
     (if p \<in> set (m_timers m) then map_option (\<lambda>t. (m_recurring t, m_ms t, m_next t)) (timer_store m p) else None)"

text \<open>What \<open>listExpiredCb\<close> makes of one of them, after a clock rollback or not.\<close>

definition expire_armed :: "millis \<Rightarrow> bool \<Rightarrow> bool \<times> millis \<times> millis \<Rightarrow> (bool \<times> millis \<times> millis) option" where
  "expire_armed now rollover x =
     (case x of (recurring, ms, nxt) \<Rightarrow>
        if \<not> rollover \<and> now < nxt then Some x
        else if recurring then Some (recurring, ms, now + ms) else None)"

lemma armed_rearm:
  assumes "deadlines m' = (deadlines m)(p \<mapsto> d)" and "timer_store m' = (timer_store m)(p \<mapsto> t)"
  shows "armed m' = (armed m)(p \<mapsto> (m_recurring t, m_ms t, m_next t))"
proof -
  have "set (m_timers m') = insert p (set (m_timers m))"
    unfolding deadlines_dom [symmetric] assms(1) by simp
  then show ?thesis using assms(2) by (auto simp: armed_def fun_eq_iff)
qed

lemma armed_cancel:
  assumes "tm_wf m" and "timer_store m p = Some t" and "m_cb t \<noteq> None"
  shows "\<exists>m'. timer_cancel p m = Inr (True, m') \<and> armed m' = (armed m)(p := None)"
  using timer_cancel_armed [OF assms] tm_wf_distinct [OF assms(1)] by (auto simp: armed_def fun_eq_iff)

lemma armed_expire:
  assumes wf: "tm_wf m" and a: "a \<notin> dom (timer_store m)"
    and r: "\<forall>p ms d. armed m p = Some (True, ms, d) \<longrightarrow> ms_in_range (now + ms)"
  shows "\<exists>cbs' m'. list_expired_cb now a cbs m = Inr (cbs', m') \<and>
     armed m' = (\<lambda>p. Option.bind (armed m p) (expire_armed now (rolled_back now m)))"
proof -
  have "\<forall>p\<in>set (expired_timers now m). \<forall>t. timer_store m p = Some t \<and> m_recurring t \<longrightarrow> ms_in_range (now + m_ms t)"
  proof (intro ballI allI impI)
    fix p t assume "p \<in> set (expired_timers now m)" and "timer_store m p = Some t \<and> m_recurring t"
    then have "armed m p = Some (True, m_ms t, m_next t)" using expired_subset [of now m] by (auto simp: armed_def)
    with r show "ms_in_range (now + m_ms t)" by blast
  qed
  from list_expired_total [OF wf a this] obtain cbs' m' where run: "list_expired_cb now a cbs m = Inr (cbs', m')" by blast
  note l = list_expired_Inr [OF wf a run]
  have "armed m' p = Option.bind (armed m p) (expire_armed now (rolled_back now m))" for p
  proof (cases "p \<in> set (m_timers m)")
    case False
    then have "p \<notin> set (m_timers m')" using l(3) expired_subset [of now m] by blast
    with False show ?thesis by (simp add: armed_def)
  next
    case True
    then obtain t where t: "timer_store m p = Some t" using tm_wf_alloc [OF wf] by blast
    have e: "p \<in> set (expired_timers now m) \<longleftrightarrow> rolled_back now m \<or> m_next t \<le> now"
      using True t by (simp add: expired_timers_def)
    have "p \<in> set (m_timers m') \<longleftrightarrow> p \<notin> set (expired_timers now m) \<or> m_recurring t"
      using True t expired_subset [of now m] by (auto simp: l(3) is_recurring_def)
    with True t e show ?thesis
      by (auto simp: armed_def l(2) fire_store_def fired_def expire_armed_def)
  qed
  with run show ?thesis by blast
qed

lemma armed_reset:
  assumes wf: "tm_wf m" and t: "timer_store m p = Some t"
    and r: "m_cb t \<noteq> None \<Longrightarrow> from_now \<Longrightarrow> ms_in_range (now + ms)"
      "m_cb t \<noteq> None \<Longrightarrow> \<not> from_now \<Longrightarrow> ms_in_range (m_next t) \<and> ms_in_range (m_next t - ms)"
  shows "\<exists>f m'. timer_reset now p ms from_now m = Inr (m_cb t \<noteq> None \<or> m_ms t = ms \<and> \<not> from_now, f, m') \<and>
     armed m' = (if m_cb t = None then armed m
                 else (armed m)(p \<mapsto> (m_recurring t, ms, if from_now then now + ms else m_next t)))"
proof (cases "m_cb t = None \<or> m_ms t = ms \<and> \<not> from_now")
  case True
  have "p \<in> set (m_timers m)" if "m_cb t \<noteq> None" using tm_wf_armed [OF wf t that] .
  then have "(armed m)(p \<mapsto> (m_recurring t, m_ms t, m_next t)) = armed m" if "m_cb t \<noteq> None"
    using that t by (auto simp: armed_def fun_eq_iff)
  then show ?thesis using True t by (auto simp: timer_reset_def)
next
  case False
  define start where "start = (if from_now then now else m_next t - ms)"
  have "from_now \<or> ms_in_range start" "ms_in_range (start + ms)" using r False by (auto simp: start_def)
  from timer_reset_armed [OF wf t _ _ start_def this] False obtain f m' where
    m': "timer_reset now p ms from_now m = Inr (True, f, m')" "deadlines m' = (deadlines m)(p \<mapsto> start + ms)"
      "timer_store m' = (timer_store m)(p \<mapsto> t\<lparr>m_ms := ms, m_next := start + ms\<rparr>)" by auto
  from armed_rearm [OF m'(2,3)] m'(1) False show ?thesis by (auto simp: start_def)
qed

lemma armed_tickled [simp]: "armed (m\<lparr>m_tickled := b\<rparr>) = armed m"
  by (simp add: armed_def fun_eq_iff)

lemma armed_next:
  assumes "tm_wf m"
  shows "fst (get_next_timer now m) =
      (if armed m = Map.empty then ms_none else max 0 (Min ((\<lambda>(r, ms, d). d) ` ran (armed m)) - now)) \<and>
    armed (snd (get_next_timer now m)) = armed m \<and> has_timer m = (armed m \<noteq> Map.empty)"
proof -
  have dom: "dom (armed m) = set (m_timers m)"
    using tm_wf_alloc [OF assms] by (auto simp: armed_def dom_def split: if_splits)
  then have em: "armed m = Map.empty \<longleftrightarrow> m_timers m = []" by (metis dom_eq_empty_conv set_empty)
  have "armed m p = Some x \<Longrightarrow> (\<lambda>(r, ms, d). d) x = next_of (timer_store m) p" for p x
    by (auto simp: armed_def split: if_splits)
  then have "(\<lambda>(r, ms, d). d) ` ran (armed m) = next_of (timer_store m) ` dom (armed m)"
    by (force simp: ran_def dom_def image_iff)
  then have ran: "(\<lambda>(r, ms, d). d) ` ran (armed m) = next_of (timer_store m) ` set (m_timers m)" by (simp add: dom)
  show ?thesis
  proof (cases "m_timers m")
    case Nil
    then show ?thesis by (simp add: get_next_timer_def Let_def em has_timer_def)
  next
    case (Cons p ps)
    let ?n = "next_of (timer_store m)"
    have "?n p \<le> ?n q" if "q \<in> set (m_timers m)" for q
      using that tm_wf_sorted [OF assms] sorted_next_le [of "timer_store m" p ps q] Cons by auto
    then have "Min (?n ` set (m_timers m)) = ?n p"
      using Cons by (intro Min_eqI) auto
    then show ?thesis
      using Cons by (auto simp: get_next_timer_def Let_def ran em has_timer_def)
  qed
qed

text \<open>C20: every operation of the manager refines one on the abstract map of the timers in the set, and
  none faults as long as its time arithmetic does not overflow. Adding sets an entry for \<open>now + ms\<close>;
  cancelling removes it; refreshing moves the deadline to \<open>now + m_ms\<close>; \<open>reset(ms, true)\<close> sets the
  period and moves the deadline to \<open>now + ms\<close>, and \<open>reset(ms, false)\<close> sets the period but leaves the
  deadline where it is; all four leave the other entries, and on a timer without callback the last
  three change nothing and answer false (but \<open>reset\<close> true if neither period nor start would change).
  \<open>getNextTimer\<close> changes no entry and returns the time left to the earliest deadline, at least 0, or
  the sentinel without any; \<open>listExpiredCb\<close> removes the one-shot entries that are due, moves
  the recurring ones to \<open>now + m_ms\<close> and leaves the rest; after a clock rollback all are due.\<close>

theorem timer_operations_refine:
  assumes wf: "tm_wf m"
  shows "(\<forall>q ms cb rec. timer_store m q = None \<and> ms_in_range (now + ms) \<longrightarrow>
       (\<exists>f m'. add_timer now q ms cb rec m = Inr (f, m') \<and> armed m' = (armed m)(q \<mapsto> (rec, ms, now + ms)))) \<and>
     (\<forall>p t. timer_store m p = Some t \<longrightarrow>
       (\<exists>m'. timer_cancel p m = Inr (m_cb t \<noteq> None, m') \<and>
          armed m' = (if m_cb t = None then armed m else (armed m)(p := None))) \<and>
       (m_cb t = None \<or> ms_in_range (now + m_ms t) \<longrightarrow>
          (\<exists>m'. timer_refresh now p m = Inr (m_cb t \<noteq> None, m') \<and>
             armed m' = (if m_cb t = None then armed m
                         else (armed m)(p \<mapsto> (m_recurring t, m_ms t, now + m_ms t))))) \<and>
       (\<forall>ms. m_cb t = None \<or> ms_in_range (now + ms) \<longrightarrow>
          (\<exists>f m'. timer_reset now p ms True m = Inr (m_cb t \<noteq> None, f, m') \<and>
             armed m' = (if m_cb t = None then armed m else (armed m)(p \<mapsto> (m_recurring t, ms, now + ms))))) \<and>
       (\<forall>ms. m_cb t = None \<or> ms_in_range (m_next t) \<and> ms_in_range (m_next t - ms) \<longrightarrow>
          (\<exists>f m'. timer_reset now p ms False m = Inr (m_cb t \<noteq> None \<or> m_ms t = ms, f, m') \<and>
             armed m' = (if m_cb t = None then armed m else (armed m)(p \<mapsto> (m_recurring t, ms, m_next t)))))) \<and>
     (fst (get_next_timer now m) =
        (if armed m = Map.empty then ms_none else max 0 (Min ((\<lambda>(r, ms, d). d) ` ran (armed m)) - now)) \<and>
      armed (snd (get_next_timer now m)) = armed m \<and> has_timer m = (armed m \<noteq> Map.empty)) \<and>
     (\<forall>a cbs. a \<notin> dom (timer_store m) \<and> (\<forall>p ms d. armed m p = Some (True, ms, d) \<longrightarrow> ms_in_range (now + ms)) \<longrightarrow>
       (\<exists>cbs' m'. list_expired_cb now a cbs m = Inr (cbs', m') \<and>
          armed m' = (\<lambda>p. Option.bind (armed m p) (expire_armed now (rolled_back now m)))))"
proof (intro conjI allI impI)
  fix q ms cb rec assume "timer_store m q = None \<and> ms_in_range (now + ms)"
  with add_timer_ok [OF wf, of q now ms cb rec] armed_rearm
  show "\<exists>f m'. add_timer now q ms cb rec m = Inr (f, m') \<and> armed m' = (armed m)(q \<mapsto> (rec, ms, now + ms))"
    by fastforce
next
  fix p t assume t: "timer_store m p = Some t"
  show "\<exists>m'. timer_cancel p m = Inr (m_cb t \<noteq> None, m') \<and>
      armed m' = (if m_cb t = None then armed m else (armed m)(p := None))"
    using armed_cancel [OF wf t] timer_cancel_dead [OF t] by (cases "m_cb t = None") auto
  show "\<exists>m'. timer_refresh now p m = Inr (m_cb t \<noteq> None, m') \<and>
      armed m' = (if m_cb t = None then armed m else (armed m)(p \<mapsto> (m_recurring t, m_ms t, now + m_ms t)))"
    if "m_cb t = None \<or> ms_in_range (now + m_ms t)"
    using that timer_refresh_armed [OF wf t, of now] armed_rearm [of _ m p _ "t\<lparr>m_next := now + m_ms t\<rparr>"] t
    by (cases "m_cb t = None") (fastforce simp: timer_refresh_def)+
next
  fix p t ms assume t: "timer_store m p = Some t" and r: "m_cb t = None \<or> ms_in_range (now + ms)"
  show "\<exists>f m'. timer_reset now p ms True m = Inr (m_cb t \<noteq> None, f, m') \<and>
      armed m' = (if m_cb t = None then armed m else (armed m)(p \<mapsto> (m_recurring t, ms, now + ms)))"
    using armed_reset [OF wf t, of True now ms] r by (cases "m_cb t = None") auto
next
  fix p t ms assume t: "timer_store m p = Some t"
    and r: "m_cb t = None \<or> ms_in_range (m_next t) \<and> ms_in_range (m_next t - ms)"
  show "\<exists>f m'. timer_reset now p ms False m = Inr (m_cb t \<noteq> None \<or> m_ms t = ms, f, m') \<and>
      armed m' = (if m_cb t = None then armed m else (armed m)(p \<mapsto> (m_recurring t, ms, m_next t)))"
    using armed_reset [OF wf t, of False now ms] r by (cases "m_cb t = None") auto
next
  fix a cbs assume "a \<notin> dom (timer_store m) \<and> (\<forall>p ms d. armed m p = Some (True, ms, d) \<longrightarrow> ms_in_range (now + ms))"
  then show "\<exists>cbs' m'. list_expired_cb now a cbs m = Inr (cbs', m') \<and>
      armed m' = (\<lambda>p. Option.bind (armed m p) (expire_armed now (rolled_back now m)))"
    using armed_expire [OF wf] by blast
qed (use armed_next [OF wf, of now] in simp_all)

theorem timer_operations_refine_witness:
  "(\<exists>f m1. timer_reset 10 9 30 False sample_timers = Inr (True, f, m1) \<and>
     armed m1 = [7 \<mapsto> (True, 100, 50), 9 \<mapsto> (False, 30, 80)]) \<and>
   (\<exists>cbs m1. list_expired_cb 60 1 [] sample_timers = Inr (cbs, m1) \<and>
     armed m1 = [7 \<mapsto> (True, 100, 160), 9 \<mapsto> (False, 80, 80)])"
proof -
  let ?t = "\<lparr>m_recurring = False, m_ms = 80, m_next = 80, m_cb = Some 2\<rparr>"
  have t: "timer_store sample_timers 9 = Some ?t" "1 \<notin> dom (timer_store sample_timers)" "\<not> rolled_back 60 sample_timers"
    by (simp_all add: sample_timers_def rolled_back_def)
  have arm: "armed sample_timers = [7 \<mapsto> (True, 100, 50), 9 \<mapsto> (False, 80, 80)]"
    by (auto simp: armed_def sample_timers_def fun_eq_iff)
  note r = timer_operations_refine [OF sample_timers_wf]
  have "\<exists>f m1. timer_reset 10 9 30 False sample_timers = Inr (True, f, m1) \<and>
     armed m1 = (armed sample_timers)(9 \<mapsto> (False, 30, 80))"
    using r [of 10, THEN conjunct2, THEN conjunct1, rule_format, OF t(1)] by (simp add: ms_in_range_def)
  moreover have "\<exists>cbs m1. list_expired_cb 60 1 [] sample_timers = Inr (cbs, m1) \<and>
     armed m1 = (\<lambda>p. Option.bind (armed sample_timers p) (expire_armed 60 (rolled_back 60 sample_timers)))"
    using r [of 60, THEN conjunct2, THEN conjunct2, THEN conjunct2, rule_format, of 1 "[]"] t(2)
    by (simp add: arm ms_in_range_def split: if_splits)
  moreover have "(\<lambda>p. Option.bind (armed sample_timers p) (expire_armed 60 (rolled_back 60 sample_timers))) =
      [7 \<mapsto> (True, 100, 160), 9 \<mapsto> (False, 80, 80)]"
    by (simp add: arm t(3) expire_armed_def fun_eq_iff)
  ultimately show ?thesis by (simp add: arm fun_upd_twist)
qed

lemma reset_shape:
  assumes "tm_wf m" and "timer_reset now p ms from_now m = Inr (r, f, m')"
  obtains "m' = m"
  | t' where "m' = snd (add_timer_locked p
      (m\<lparr>timer_store := (timer_store m)(p \<mapsto> t'), m_timers := remove1 p (m_timers m)\<rparr>))"
proof -
  from assms(2) obtain t where t: "timer_store m p = Some t"
    by (auto simp: timer_reset_def outcome_simps)
  show thesis
  proof (cases "m_cb t = None \<or> m_ms t = ms \<and> \<not> from_now")
    case True
    with assms(2) t that(1) show thesis by (auto simp: timer_reset_def split: if_splits)
  next
    case False
    then have cb: "m_cb t \<noteq> None" by auto
    note e = deref_erase [OF assms(1) tm_wf_armed [OF assms(1) t cb]]
    from assms(2) t False e show thesis
      by (auto simp: timer_reset_def Let_def outcome_simps split: if_splits) (metis that(2) snd_conv)+
  qed
qed

lemma remove1_covered:
  assumes "tm_wf m" and "wake_covered d m"
  shows "sorted_wrt (timer_cmp ((timer_store m)(p \<mapsto> t))) (remove1 p (m_timers m))"
    and "p \<notin> set (remove1 p (m_timers m))"
    and "wake_covered d (m\<lparr>timer_store := (timer_store m)(p \<mapsto> t), m_timers := remove1 p (m_timers m)\<rparr>)"
proof -
  have e: "set (remove1 p (m_timers m)) = set (m_timers m) - {p}"
    using tm_wf_distinct [OF assms(1)] by simp
  then show "p \<notin> set (remove1 p (m_timers m))" by simp
  show "sorted_wrt (timer_cmp ((timer_store m)(p \<mapsto> t))) (remove1 p (m_timers m))"
    using tset.remove1_sorted [OF tm_wf_sorted [OF assms(1)], of p] e by (simp add: sorted_upd_other)
  show "wake_covered d (m\<lparr>timer_store := (timer_store m)(p \<mapsto> t), m_timers := remove1 p (m_timers m)\<rparr>)"
    using assms(2) e by (auto simp: wake_covered_def)
qed

text \<open>No lost wake-up on the insertion paths. If an idle thread sleeps until \<open>d\<close> and no
  deadline is earlier, or a wake-up is already pending, then the same holds after
  \<open>addTimer\<close>, \<open>cancel\<close> and \<open>reset\<close>.\<close>

theorem wake_up_kept:
  assumes "tm_wf m" and "wake_covered d m"
    and "timer_store m p = None \<and> add_timer now p ms cb rec m = Inr (f, m') \<or>
         timer_cancel p m = Inr (r, m') \<or>
         timer_reset now p ms from_now m = Inr (r, f, m')"
  shows "wake_covered d m'"
  using assms(3)
proof (elim disjE conjE)
  assume p: "timer_store m p = None" and run: "add_timer now p ms cb rec m = Inr (f, m')"
  then have n: "p \<notin> set (m_timers m)" using tm_wf_alloc [OF assms(1)] by fastforce
  then have r1: "remove1 p (m_timers m) = m_timers m" by (simp add: remove1_idem)
  from run obtain t where
    m': "m' = snd (add_timer_locked p (m\<lparr>timer_store := (timer_store m)(p \<mapsto> t)\<rparr>))"
    by (auto simp: add_timer_def outcome_simps) (metis snd_conv)
  show ?thesis
    unfolding m' using remove1_covered(1,3) [OF assms(1,2), where p = p and t = t] r1 n by (intro add_locked_covered) simp_all
next
  assume "timer_cancel p m = Inr (r, m')"
  with assms(1) show ?thesis
    by (cases rule: timer_cancel_cases) (use assms(2) remove1_covered(3) [OF assms(1,2)] in auto)
next
  assume "timer_reset now p ms from_now m = Inr (r, f, m')"
  with assms(1) show ?thesis
  proof (cases rule: reset_shape)
    case (2 t')
    then show ?thesis
      using remove1_covered(1,3) [OF assms(1,2), where p = p and t = t']
        remove1_covered(2) [OF assms(1,2), where p = p] by (simp add: add_locked_covered)
  qed (use assms(2) in simp)
qed

theorem wake_up_kept_witness:
  "\<exists>m'. timer_cancel 7 sample_timers = Inr (True, m') \<and> wake_covered 50 m'"
proof -
  have c: "\<exists>m'. timer_cancel 7 sample_timers = Inr (True, m')"
    using timer_cancel_armed [OF sample_timers_wf, of 7] by (simp add: sample_timers_def)
  then obtain m' where r: "timer_cancel 7 sample_timers = Inr (True, m')" ..
  have w: "wake_covered 50 sample_timers"
    by (simp add: wake_covered_def sample_timers_def next_of_def)
  have "wake_covered 50 m'"
    by (rule wake_up_kept [OF sample_timers_wf w]) (use r in blast)
  with r show ?thesis by blast
qed

text \<open>\<open>refresh\<close> is the insertion path without a wake-up. After a \<open>reset(1, false)\<close>,
  which leaves the deadline far away, a \<open>refresh\<close> makes the timer due almost at once, yet no
  wake-up is asked for: the idle thread keeps sleeping until the old deadline.\<close>

theorem refresh_loses_wake_up:
  "\<exists>m1 m2. timer_reset 10 7 1 False sample_timers = Inr (True, True, m1) \<and>
      timer_refresh 10 7 (snd (get_next_timer 10 m1)) = Inr (True, m2) \<and>
      wake_covered 50 (snd (get_next_timer 10 m1)) \<and> \<not> wake_covered 50 m2"
  by (simp add: timer_reset_def timer_refresh_def get_next_timer_def add_timer_locked_def
      sample_timers_def deref_def ms_add_def ms_sub_def ms_in_range_def set_find_def set_erase_def
      set_insert_def set_lower_bound_def comparator.simps(4) next_of_def wake_covered_def)

end
