(* ===== verification/Fd_Manager.thy ===== *)
theory Fd_Manager
  imports Coro_Prelude
begin

text \<open>
  FdManager.h and FdManager.cpp: the per-descriptor context \<open>FdCtx\<close>, the manager that hands
  contexts out, and the singleton behind it (Singleton.h), which is the one manager value that is
  passed along. Contexts are objects in a store because a caller of \<open>get\<close> changes the object
  the manager also points to. The kernel is a parameter (\<open>posix\<close>): the original system calls,
  as functions on a kernel state of any type.
\<close>

section \<open>The system calls\<close>

text \<open>
  \<open>fstat\<close> gives nothing when it fails and otherwise whether the descriptor is a socket;
  \<open>fcntl\<close> and \<open>ioctl\<close> return an \<open>int\<close>; \<open>close\<close>, \<open>setsockopt\<close>
  and \<open>socket\<close> are used by the hooks.
\<close>

type_synonym cint = "32 word"

record 'k posix =
  px_fstat :: "'k \<Rightarrow> int \<Rightarrow> bool option"
  px_fcntl :: "'k \<Rightarrow> int \<Rightarrow> int \<Rightarrow> cint \<Rightarrow> cint \<times> 'k"
  px_ioctl :: "'k \<Rightarrow> int \<Rightarrow> 64 word \<Rightarrow> cint \<Rightarrow> cint \<times> 'k"
  px_socket :: "'k \<Rightarrow> int \<times> 'k"
  px_close :: "'k \<Rightarrow> int \<Rightarrow> cint \<times> 'k"
  px_setsockopt :: "'k \<Rightarrow> int \<Rightarrow> int \<Rightarrow> int \<Rightarrow> cint \<times> 'k"

definition F_GETFL :: int where "F_GETFL = 3"
definition F_SETFL :: int where "F_SETFL = 4"
definition O_NONBLOCK :: cint where "O_NONBLOCK = 2048"

definition has_flag :: "cint \<Rightarrow> cint \<Rightarrow> bool" where
  "has_flag x f \<longleftrightarrow> x AND f \<noteq> 0"

text \<open>
  What fcntl(2) documents and the code relies on: \<open>F_GETFL\<close> only reads, and a successful
  \<open>F_SETFL\<close> decides whether a later \<open>F_GETFL\<close> of that descriptor reports
  \<open>O_NONBLOCK\<close>.
\<close>

definition posix_nonblock :: "'k posix \<Rightarrow> bool" where
  "posix_nonblock px \<longleftrightarrow>
     (\<forall>k fd x. snd (px_fcntl px k fd F_GETFL x) = k \<and>
        (fst (px_fcntl px k fd F_SETFL x) = 0 \<longrightarrow>
         has_flag (fst (px_fcntl px (snd (px_fcntl px k fd F_SETFL x)) fd F_GETFL 0)) O_NONBLOCK
           = has_flag x O_NONBLOCK))"

section \<open>\<open>FdCtx\<close>\<close>

definition SO_RECVTIMEO :: int where "SO_RECVTIMEO = 20"
definition SO_SENDTIMEO :: int where "SO_SENDTIMEO = 21"

record fd_ctx =
  m_isInit :: bool
  m_isSocket :: bool
  m_sysNoBlock :: bool
  m_userNoBlock :: bool
  m_isClosed :: bool
  m_fd :: int
  m_recvTimeout :: millis
  m_sendTimeout :: millis

text \<open>\<open>FdCtx::init\<close>: a socket is switched to non-blocking behind the user's back.\<close>

definition fd_ctx_init :: "'k posix \<Rightarrow> fd_ctx \<Rightarrow> 'k \<Rightarrow> bool \<times> fd_ctx \<times> 'k" where
  "fd_ctx_init px c k =
     (if m_isInit c = True then (True, c, k)
      else
        (let c1 = c\<lparr>m_recvTimeout := -1, m_sendTimeout := -1\<rparr>;
             c2 = (case px_fstat px k (m_fd c1) of
                     None \<Rightarrow> c1\<lparr>m_isInit := False, m_isSocket := False\<rparr>
                   | Some is_sock \<Rightarrow> c1\<lparr>m_isInit := True, m_isSocket := is_sock\<rparr>);
             (c3, k1) =
               (if m_isSocket c2 then
                  (let (flags, k') = px_fcntl px k (m_fd c2) F_GETFL 0;
                       k'' = (if \<not> has_flag flags O_NONBLOCK
                              then snd (px_fcntl px k' (m_fd c2) F_SETFL (flags OR O_NONBLOCK))
                              else k')
                   in (c2\<lparr>m_sysNoBlock := True\<rparr>, k''))
                else (c2\<lparr>m_sysNoBlock := False\<rparr>, k));
             c4 = c3\<lparr>m_userNoBlock := False, m_isClosed := False\<rparr>
         in (m_isInit c4, c4, k1)))"

definition fd_ctx_new :: "'k posix \<Rightarrow> int \<Rightarrow> 'k \<Rightarrow> fd_ctx \<times> 'k" where
  "fd_ctx_new px fd k =
     snd (fd_ctx_init px
       \<lparr>m_isInit = False, m_isSocket = False, m_sysNoBlock = False, m_userNoBlock = False,
        m_isClosed = False, m_fd = fd, m_recvTimeout = -1, m_sendTimeout = -1\<rparr> k)"

definition set_timeout :: "int \<Rightarrow> millis \<Rightarrow> fd_ctx \<Rightarrow> fd_ctx" where
  "set_timeout type t c =
     (if type = SO_RECVTIMEO then c\<lparr>m_recvTimeout := t\<rparr> else c\<lparr>m_sendTimeout := t\<rparr>)"

definition get_timeout :: "int \<Rightarrow> fd_ctx \<Rightarrow> millis" where
  "get_timeout type c = (if type = SO_RECVTIMEO then m_recvTimeout c else m_sendTimeout c)"

section \<open>\<open>FdManager\<close>\<close>

record fd_manager =
  fdctx_store :: "nat \<rightharpoonup> fd_ctx"
  fdctx_next :: nat
  m_datas :: "nat option list"

definition fd_manager_new :: fd_manager where
  "fd_manager_new = \<lparr>fdctx_store = Map.empty, fdctx_next = 0, m_datas = vec_resize 64 None []\<rparr>"

text \<open>
  \<open>FdManager::get(fd, auto_create)\<close>. The early part either returns (\<open>Some\<close> the result) or
  falls through (\<open>None\<close>) to the part that creates a context. Note that the lookup of an
  existing entry is inside the branch for descriptors that are past the end.
\<close>

definition fd_get_early :: "int \<Rightarrow> bool \<Rightarrow> fd_manager \<Rightarrow> nat option option outcome" where
  "fd_get_early fd auto_create m =
     (if int (length (m_datas m)) \<le> fd then
        (if auto_create = False then Inr (Some None)
         else obind (vec_get (m_datas m) fd) (\<lambda>d.
                if d \<noteq> None \<or> \<not> auto_create then Inr (Some d) else Inr None))
      else Inr None)"

definition fd_create :: "'k posix \<Rightarrow> int \<Rightarrow> 'k \<Rightarrow> fd_manager \<Rightarrow> (nat option \<times> 'k \<times> fd_manager) outcome" where
  "fd_create px fd k m =
     (let (ctx, k') = fd_ctx_new px fd k;
          p = fdctx_next m;
          datas = (if fd \<ge> int (length (m_datas m))
                   then vec_resize (nat (fd * 3 div 2)) None (m_datas m) else m_datas m)
      in obind (vec_set datas fd (Some p)) (\<lambda>datas'.
           Inr (Some p, k',
                m\<lparr>fdctx_store := (fdctx_store m)(p \<mapsto> ctx), fdctx_next := Suc p, m_datas := datas'\<rparr>)))"

definition fd_get ::
  "'k posix \<Rightarrow> int \<Rightarrow> bool \<Rightarrow> 'k \<Rightarrow> fd_manager \<Rightarrow> (nat option \<times> 'k \<times> fd_manager) outcome" where
  "fd_get px fd auto_create k m =
     (if fd = -1 then Inr (None, k, m)
      else obind (fd_get_early fd auto_create m) (\<lambda>early.
             case early of
               Some r \<Rightarrow> Inr (r, k, m)
             | None \<Rightarrow> fd_create px fd k m))"

definition fd_del :: "int \<Rightarrow> fd_manager \<Rightarrow> fd_manager outcome" where
  "fd_del fd m =
     (if int (length (m_datas m)) \<le> fd then Inr m
      else obind (vec_set (m_datas m) fd None) (\<lambda>d. Inr (m\<lparr>m_datas := d\<rparr>)))"

text \<open>A setter called through a \<open>FdCtx::ptr\<close>.\<close>

definition fdctx_update :: "nat \<Rightarrow> (fd_ctx \<Rightarrow> fd_ctx) \<Rightarrow> fd_manager \<Rightarrow> fd_manager outcome" where
  "fdctx_update p f m =
     obind (deref (fdctx_store m) p) (\<lambda>c. Inr (m\<lparr>fdctx_store := (fdctx_store m)(p \<mapsto> f c)\<rparr>))"

section \<open>Contexts\<close>

lemma fd_ctx_new_fields:
  "m_fd (fst (fd_ctx_new px fd k)) = fd"
  "m_recvTimeout (fst (fd_ctx_new px fd k)) = -1"
  "m_sendTimeout (fst (fd_ctx_new px fd k)) = -1"
  "\<not> m_userNoBlock (fst (fd_ctx_new px fd k))"
  "\<not> m_isClosed (fst (fd_ctx_new px fd k))"
  "m_isSocket (fst (fd_ctx_new px fd k)) = (px_fstat px k fd = Some True)"
  "m_sysNoBlock (fst (fd_ctx_new px fd k)) = m_isSocket (fst (fd_ctx_new px fd k))"
  by (auto simp: fd_ctx_new_def fd_ctx_init_def Let_def split: option.splits prod.splits)

lemma fd_ctx_new_kernel:
  "snd (fd_ctx_new px fd k) =
     (if px_fstat px k fd = Some True then
        (let (flags, k') = px_fcntl px k fd F_GETFL 0
         in if has_flag flags O_NONBLOCK then k'
            else snd (px_fcntl px k' fd F_SETFL (flags OR O_NONBLOCK)))
      else k)"
  by (auto simp: fd_ctx_new_def fd_ctx_init_def Let_def split: option.splits prod.splits)

lemma get_timeout_set [simp]: "get_timeout ty (set_timeout ty t c) = t"
  by (simp add: get_timeout_def set_timeout_def)

lemma get_timeout_new: "get_timeout ty (fst (fd_ctx_new px fd k)) = -1"
  by (simp add: get_timeout_def fd_ctx_new_fields)

section \<open>Invariant of the manager\<close>

text \<open>The table keeps its 64 slots, and a slot points to an allocated context of its own descriptor.\<close>

fun slot_ok :: "(nat \<rightharpoonup> fd_ctx) \<Rightarrow> nat \<Rightarrow> nat option \<Rightarrow> bool" where
  "slot_ok h i None = True"
| "slot_ok h i (Some p) = (case h p of None \<Rightarrow> False | Some c \<Rightarrow> m_fd c = int i)"

definition fd_wf :: "fd_manager \<Rightarrow> bool" where
  "fd_wf m \<longleftrightarrow> length (m_datas m) = 64 \<and>
     (\<forall>p\<in>dom (fdctx_store m). p < fdctx_next m) \<and>
     (\<forall>i<64. slot_ok (fdctx_store m) i (m_datas m ! i))"

lemma slot_ok_upd:
  "slot_ok h i s \<Longrightarrow> (\<And>c'. h p = Some c' \<Longrightarrow> m_fd c' = m_fd c) \<Longrightarrow> slot_ok (h(p \<mapsto> c)) i s"
  by (cases s) (auto split: option.splits)

lemma fd_wf_new: "fd_wf fd_manager_new"
  by (simp add: fd_wf_def fd_manager_new_def vec_resize_def)

lemma fd_wf_length [simp]: "fd_wf m \<Longrightarrow> length (m_datas m) = 64"
  by (simp add: fd_wf_def)

lemma fd_wf_slot:
  assumes "fd_wf m" and "i < 64" and "m_datas m ! i = Some p"
  shows "\<exists>c. fdctx_store m p = Some c \<and> m_fd c = int i"
proof -
  have "slot_ok (fdctx_store m) i (m_datas m ! i)"
    using assms(1,2) by (simp add: fd_wf_def del: All_less_Suc)
  with assms(3) show ?thesis by (simp split: option.splits)
qed

lemma fd_wf_next: "fd_wf m \<Longrightarrow> fdctx_store m (fdctx_next m) = None"
  unfolding fd_wf_def by blast

lemma fd_wf_fresh: "fd_wf m \<Longrightarrow> i < 64 \<Longrightarrow> m_datas m ! i \<noteq> Some (fdctx_next m)"
  using fd_wf_slot [of m i "fdctx_next m"] fd_wf_next [of m] by force

definition fd_created :: "'k posix \<Rightarrow> int \<Rightarrow> 'k \<Rightarrow> fd_manager \<Rightarrow> fd_manager" where
  "fd_created px fd k m =
     m\<lparr>fdctx_store := (fdctx_store m)(fdctx_next m \<mapsto> fst (fd_ctx_new px fd k)),
       fdctx_next := Suc (fdctx_next m),
       m_datas := (m_datas m)[nat fd := Some (fdctx_next m)]\<rparr>"

lemma fd_get_in_table:
  assumes "fd_wf m" and "0 \<le> fd" and "fd < 64"
  shows "fd_get px fd auto k m
     = Inr (Some (fdctx_next m), snd (fd_ctx_new px fd k), fd_created px fd k m)"
  using assms by (simp add: fd_get_def fd_get_early_def fd_create_def fd_created_def Let_def split: prod.split)

lemma fd_get_past_end:
  assumes "fd_wf m" and "64 \<le> fd"
  shows "fd_get px fd auto k m = (if auto then Inl Out_Of_Bounds else Inr (None, k, m))"
  using assms by (simp add: fd_get_def fd_get_early_def vec_get_out)

lemma fd_get_negative:
  assumes "fd_wf m" and "fd < 0"
  shows "fd_get px fd auto k m = (if fd = -1 then Inr (None, k, m) else Inl Out_Of_Bounds)"
  using assms by (simp add: fd_get_def fd_get_early_def fd_create_def vec_set_out Let_def split: prod.split)

lemma fd_created_wf:
  assumes "fd_wf m" and "0 \<le> fd" and "fd < 64"
  shows "fd_wf (fd_created px fd k m)"
proof -
  note none = fd_wf_next [OF assms(1)]
  have "slot_ok ((fdctx_store m)(fdctx_next m \<mapsto> fst (fd_ctx_new px fd k))) i
      ((m_datas m)[nat fd := Some (fdctx_next m)] ! i)" if "i < 64" for i
  proof (cases "i = nat fd")
    case True
    with assms that show ?thesis by (simp add: fd_ctx_new_fields)
  next
    case False
    with assms that none show ?thesis
      by (auto simp: fd_wf_def intro!: slot_ok_upd)
  qed
  with assms show ?thesis
    by (auto simp: fd_wf_def fd_created_def less_Suc_eq)
qed

lemma fd_get_wf: "fd_wf m \<Longrightarrow> fd_get px fd auto k m = Inr (r, k', m') \<Longrightarrow> fd_wf m'"
proof -
  assume wf: "fd_wf m" and run: "fd_get px fd auto k m = Inr (r, k', m')"
  consider "fd < 0" | "0 \<le> fd" "fd < 64" | "64 \<le> fd" by linarith
  then show "fd_wf m'"
  proof cases
    case 2
    with fd_created_wf [OF wf 2, of px k] run fd_get_in_table [OF wf 2, of px auto k] show ?thesis by auto
  qed (use wf run in \<open>auto simp: fd_get_negative fd_get_past_end split: if_splits\<close>)
qed

lemma fd_del_wf: "fd_wf m \<Longrightarrow> fd_del fd m = Inr m' \<Longrightarrow> fd_wf m'"
  by (auto simp: fd_del_def vec_set_def fd_wf_def nth_list_update split: if_splits)

lemma fdctx_update_wf:
  assumes "fd_wf m" and "\<And>c. m_fd (f c) = m_fd c" and "fdctx_update p f m = Inr m'"
  shows "fd_wf m'"
proof -
  from assms(3) obtain c where c: "fdctx_store m p = Some c"
    and m': "m' = m\<lparr>fdctx_store := (fdctx_store m)(p \<mapsto> f c)\<rparr>"
    by (auto simp: fdctx_update_def outcome_simps)
  have "slot_ok ((fdctx_store m)(p \<mapsto> f c)) i (m_datas m ! i)" if "i < 64" for i
    using assms(1,2) that c by (auto simp: fd_wf_def intro!: slot_ok_upd)
  moreover have "\<forall>q\<in>dom ((fdctx_store m)(p \<mapsto> f c)). q < fdctx_next m"
    using assms(1) c by (auto simp: fd_wf_def)
  ultimately show ?thesis
    using assms(1) m' by (simp add: fd_wf_def)
qed

text \<open>The public operations as steps; the kernel state runs along.\<close>

inductive fd_step :: "'k posix \<Rightarrow> 'k \<times> fd_manager \<Rightarrow> 'k \<times> fd_manager \<Rightarrow> bool"
  for px :: "'k posix" where
  get: "fd_get px fd auto k m = Inr (r, k', m') \<Longrightarrow> fd_step px (k, m) (k', m')"
| del: "fd_del fd m = Inr m' \<Longrightarrow> fd_step px (k, m) (k, m')"
| user_no_block: "fdctx_update p (m_userNoBlock_update (\<lambda>_. b)) m = Inr m' \<Longrightarrow> fd_step px (k, m) (k, m')"
| sys_no_block: "fdctx_update p (m_sysNoBlock_update (\<lambda>_. b)) m = Inr m' \<Longrightarrow> fd_step px (k, m) (k, m')"
| timeout: "fdctx_update p (set_timeout ty t) m = Inr m' \<Longrightarrow> fd_step px (k, m) (k, m')"
| kernel: "fd_step px (k, m) (k', m)"

definition fd_start :: "'k \<times> fd_manager \<Rightarrow> bool" where
  "fd_start s \<longleftrightarrow> snd s = fd_manager_new"

lemma m_fd_set_timeout [simp]: "m_fd (set_timeout ty t c) = m_fd c"
  by (simp add: set_timeout_def)

lemma fd_step_wf: "fd_step px s s' \<Longrightarrow> fd_wf (snd s) \<Longrightarrow> fd_wf (snd s')"
  by (induction rule: fd_step.induct)
     (auto intro: fd_get_wf fd_del_wf fdctx_update_wf [rotated 2])

interpretation fd_safe: safe_system fd_start "fd_step px" "\<lambda>s. fd_wf (snd s)" for px
  by unfold_locales (auto simp: fd_start_def fd_wf_new intro: fd_step_wf)

section \<open>Properties\<close>

definition sample_posix :: "(int \<Rightarrow> cint) posix" where
  "sample_posix =
     \<lparr>px_fstat = (\<lambda>k fd. Some (fd \<ge> 3)),
      px_fcntl = (\<lambda>k fd cmd x. if cmd = F_SETFL then (0, k(fd := x)) else (k fd, k)),
      px_ioctl = (\<lambda>k fd req x. (0, k)), px_socket = (\<lambda>k. (3, k)), px_close = (\<lambda>k fd. (0, k)),
      px_setsockopt = (\<lambda>k fd level opt. (0, k))\<rparr>"

text \<open>C40: the table of descriptor contexts. After every sequence of calls that returned, a used slot
  holds an allocated context of its own descriptor, and there are still the 64 slots the table was
  created with, because the call that would enlarge it does not return: \<open>get(fd, true)\<close> from 64 on
  reads \<open>m_datas[fd]\<close> past the end (undefined behaviour) before it reaches \<open>resize\<close>. The other calls
  are total: \<open>get\<close> of a descriptor of the table always installs and returns a new context, without
  timeouts, also if the slot is in use; of \<open>-1\<close>, and without \<open>auto_create\<close> from 64 on, it returns null;
  \<open>del\<close> empties the slot, if there is one. Any other negative descriptor indexes out of bounds.\<close>

theorem fd_table_invariant:
  assumes "reach fd_start (fd_step px) (k, m)"
  shows "length (m_datas m) = 64 \<and>
     (\<forall>i p. i < 64 \<and> m_datas m ! i = Some p \<longrightarrow> (\<exists>c. fdctx_store m p = Some c \<and> m_fd c = int i)) \<and>
     (0 \<le> fd \<and> fd < 64 \<longrightarrow>
        (\<exists>p c k' m'. fd_get px fd auto_create k m = Inr (Some p, k', m') \<and>
           fdctx_store m p = None \<and> m_datas m' = (m_datas m)[nat fd := Some p] \<and> fdctx_store m' = (fdctx_store m)(p \<mapsto> c) \<and>
           m_recvTimeout c = -1 \<and> m_sendTimeout c = -1 \<and> \<not> m_userNoBlock c \<and> m_fd c = fd) \<and>
        fd_del fd m = Inr (m\<lparr>m_datas := (m_datas m)[nat fd := None]\<rparr>)) \<and>
     (64 \<le> fd \<longrightarrow> fd_get px fd auto_create k m = (if auto_create then Inl Out_Of_Bounds else Inr (None, k, m)) \<and>
        fd_del fd m = Inr m) \<and>
     (fd < 0 \<longrightarrow> fd_get px fd auto_create k m = (if fd = -1 then Inr (None, k, m) else Inl Out_Of_Bounds) \<and>
        fd_del fd m = Inl Out_Of_Bounds)"
proof -
  have wf: "fd_wf m" using fd_safe.reach_inv [OF assms] by simp
  show ?thesis
    using wf fd_wf_next [OF wf]
    by (auto simp: fd_wf_slot fd_get_in_table fd_created_def fd_ctx_new_fields fd_get_past_end fd_get_negative
        fd_del_def vec_set_out vec_set_def)
qed

theorem fd_table_invariant_witness:
  "\<exists>p q k m k' m'. fd_get sample_posix 7 True (\<lambda>_. 0) fd_manager_new = Inr (Some p, k, m) \<and> m_datas m ! 7 = Some p \<and>
     (\<exists>c. fdctx_store m p = Some c \<and> m_fd c = 7) \<and>
     fd_get sample_posix 7 False k m = Inr (Some q, k', m') \<and> q \<noteq> p"
proof -
  have r0: "reach fd_start (fd_step sample_posix) (\<lambda>_. 0, fd_manager_new)"
    by (rule reach_start) (simp add: fd_start_def)
  obtain p k m where g: "fd_get sample_posix 7 True (\<lambda>_. 0) fd_manager_new = Inr (Some p, k, m)" and s: "m_datas m ! 7 = Some p"
    using fd_get_in_table [OF fd_wf_new, of 7 sample_posix True "\<lambda>_. 0"] fd_wf_length [OF fd_wf_new] by (auto simp: fd_created_def)
  then have r: "reach fd_start (fd_step sample_posix) (k, m)"
    by (intro reach_step [OF r0] fd_step.get)
  note t = fd_table_invariant [OF r, of 7 False]
  from t s obtain c where c: "fdctx_store m p = Some c" "m_fd c = int 7" by force
  from t obtain q k' m' where "fd_get sample_posix 7 False k m = Inr (Some q, k', m')" "fdctx_store m q = None" by auto
  with g s c show ?thesis by fastforce
qed

text \<open>Looking a descriptor up never returns the context that is there. For every descriptor of the
  table, with or without \<open>auto_create\<close>, \<open>get\<close> installs and returns a new context with
  no timeouts and no user setting, so everything stored in the previous context is lost to later
  lookups.\<close>

theorem fd_get_replaces:
  assumes "fd_wf m" and "0 \<le> fd" and "fd < 64"
  shows "\<exists>p c k' m'. fd_get px fd auto_create k m = Inr (Some p, k', m') \<and>
     fdctx_store m p = None \<and> m_datas m' ! nat fd = Some p \<and> fdctx_store m' p = Some c \<and>
     m_recvTimeout c = -1 \<and> m_sendTimeout c = -1 \<and> \<not> m_userNoBlock c \<and> m_fd c = fd"
proof -
  from fd_wf_next [OF assms(1)] assms show ?thesis
    by (simp add: fd_get_in_table fd_created_def fd_ctx_new_fields)
qed

theorem fd_get_replaces_witness:
  "\<exists>p k' m'. fd_get sample_posix 5 False (\<lambda>_. 0) fd_manager_new = Inr (Some p, k', m')"
  using fd_get_replaces [OF fd_wf_new, of 5 sample_posix False "\<lambda>_. 0"] by auto

text \<open>Descriptors outside the table. Past the end, a lookup without \<open>auto_create\<close> is null and
  a lookup with it reads past the end of the vector; a negative descriptor other than \<open>-1\<close>
  writes out of bounds, and so does deleting one.\<close>

theorem fd_get_outside_table:
  assumes "fd_wf m"
  shows "(64 \<le> fd \<longrightarrow> fd_get px fd False k m = Inr (None, k, m) \<and>
                      fd_get px fd True k m = Inl Out_Of_Bounds \<and> fd_del fd m = Inr m) \<and>
         (fd < -1 \<longrightarrow> fd_get px fd auto k m = Inl Out_Of_Bounds) \<and>
         (fd < 0 \<longrightarrow> fd_del fd m = Inl Out_Of_Bounds)"
  using assms by (auto simp: fd_get_past_end fd_get_negative fd_del_def vec_set_out)

theorem fd_get_outside_table_witness:
  "fd_get sample_posix 64 True (\<lambda>_. 0) fd_manager_new = Inl Out_Of_Bounds"
  using fd_get_outside_table [OF fd_wf_new, of 64 sample_posix "\<lambda>_. 0"] by simp

text \<open>A context created for a socket leaves the descriptor non-blocking in the kernel, whatever its
  flags were (as long as \<open>F_SETFL\<close> works on it), and remembers that it did; for anything else
  the kernel state is left alone.\<close>

theorem fd_ctx_new_nonblocking:
  assumes "posix_nonblock px"
    and "\<forall>x. fst (px_fcntl px k fd F_SETFL x) = 0"
  shows "(px_fstat px k fd = Some True \<longrightarrow> m_sysNoBlock (fst (fd_ctx_new px fd k)) \<and>
            has_flag (fst (px_fcntl px (snd (fd_ctx_new px fd k)) fd F_GETFL 0)) O_NONBLOCK) \<and>
         (px_fstat px k fd \<noteq> Some True \<longrightarrow> snd (fd_ctx_new px fd k) = k)"
proof -
  have flag: "has_flag (x OR O_NONBLOCK) O_NONBLOCK" for x :: cint
    by (simp add: has_flag_def O_NONBLOCK_def)
  have get: "px_fcntl px k fd F_GETFL 0 = (fst (px_fcntl px k fd F_GETFL 0), k)"
    using assms(1) by (metis posix_nonblock_def prod.collapse)
  have set: "has_flag (fst (px_fcntl px (snd (px_fcntl px k fd F_SETFL (x OR O_NONBLOCK))) fd F_GETFL 0)) O_NONBLOCK" for x
    using assms flag unfolding posix_nonblock_def by blast
  have kernel: "snd (fd_ctx_new px fd k) =
      (if px_fstat px k fd = Some True \<and> \<not> has_flag (fst (px_fcntl px k fd F_GETFL 0)) O_NONBLOCK
       then snd (px_fcntl px k fd F_SETFL (fst (px_fcntl px k fd F_GETFL 0) OR O_NONBLOCK)) else k)"
    by (subst fd_ctx_new_kernel, subst get) auto
  show ?thesis
    using set by (auto simp: kernel fd_ctx_new_fields)
qed

theorem fd_ctx_new_nonblocking_witness:
  "has_flag (fst (px_fcntl sample_posix (snd (fd_ctx_new sample_posix 5 (\<lambda>_. 7))) 5 F_GETFL 0)) O_NONBLOCK"
proof -
  have "posix_nonblock sample_posix"
    by (simp add: posix_nonblock_def sample_posix_def F_GETFL_def F_SETFL_def)
  from fd_ctx_new_nonblocking [OF this, of "\<lambda>_. 7" 5] show ?thesis
    by (simp add: sample_posix_def)
qed

end
