(* ===== verification/Singleton.thy ===== *)
theory Singleton
  imports Fd_Manager
begin

text \<open>
  Singleton.h: four templates that return an object with static storage duration. Each template has
  one object for each type argument \<open>X\<close> and number \<open>N\<close>, made by the first call. The lemmas justify
  that the other theories pass the one \<open>FdManager\<close> around as a value.
\<close>

section \<open>Objects made on first use\<close>

text \<open>The functions with a static local variable; \<open>'x\<close> stands for the types used as tags.\<close>

datatype instance_of = Get_Instance_X | Get_Instance_Ptr | Singleton_Class | Singleton_Ptr_Class

datatype 'x instance_key = Instance instance_of 'x int

record ('x, 'a) statics =
  st_made :: "'x instance_key \<rightharpoonup> nat"
  st_objects :: "nat \<rightharpoonup> 'a"

text \<open>\<open>GetInstance()\<close>; \<open>a\<close> is the address of the object should it be made now, \<open>init\<close> what its constructor gives.\<close>

definition get_instance :: "'a \<Rightarrow> nat \<Rightarrow> 'x instance_key \<Rightarrow> ('x, 'a) statics \<Rightarrow> nat \<times> ('x, 'a) statics" where
  "get_instance init a k st =
     (case st_made st k of
        Some p \<Rightarrow> (p, st)
      | None \<Rightarrow> (a, st\<lparr>st_made := (st_made st)(k \<mapsto> a), st_objects := (st_objects st)(a \<mapsto> init)\<rparr>))"

text \<open>A member function called on the object: \<open>GetInstance()->f(...)\<close>.\<close>

definition instance_call ::
  "'a \<Rightarrow> nat \<Rightarrow> 'x instance_key \<Rightarrow> ('a \<Rightarrow> ('r \<times> 'a) outcome) \<Rightarrow> ('x, 'a) statics \<Rightarrow> ('r \<times> ('x, 'a) statics) outcome" where
  "instance_call init a k f st =
     (case get_instance init a k st of (p, st1) \<Rightarrow>
        obind (deref (st_objects st1) p) (\<lambda>v.
        obind (f v) (\<lambda>(r, v'). Inr (r, st1\<lparr>st_objects := (st_objects st1)(p \<mapsto> v')\<rparr>))))"

section \<open>One object for each key\<close>

definition statics_wf :: "('x, 'a) statics \<Rightarrow> bool" where
  "statics_wf st \<longleftrightarrow> (\<forall>k l p. st_made st k = Some p \<longrightarrow> st_made st l = Some p \<longrightarrow> k = l) \<and>
     (\<forall>k p. st_made st k = Some p \<longrightarrow> st_objects st p \<noteq> None)"

text \<open>What a key stands for, whether or not its object has been made.\<close>

definition the_object :: "'a \<Rightarrow> ('x, 'a) statics \<Rightarrow> 'x instance_key \<Rightarrow> 'a" where
  "the_object init st k = (case st_made st k of None \<Rightarrow> init | Some p \<Rightarrow> the (st_objects st p))"

lemma get_instance_again:
  "get_instance init a k st = (p, st') \<Longrightarrow> get_instance init' b k st' = (p, st')"
  by (auto simp: get_instance_def split: option.splits)

lemma get_instance_wf:
  assumes wf: "statics_wf st" and a: "st_objects st a = None" and run: "get_instance init a k st = (p, st')"
  shows "statics_wf st'" and "st_made st' k = Some p" and "st_objects st' p = Some (the_object init st k)"
    and "the_object init st' = the_object init st"
proof -
  have ran: "st_made st l \<noteq> Some a" for l
    using wf a unfolding statics_wf_def by blast
  have obj: "\<exists>v. st_objects st q = Some v" if "st_made st l = Some q" for l q
    using wf that by (auto simp: statics_wf_def)
  show "statics_wf st'"
    using wf run ran by (auto simp: get_instance_def statics_wf_def split: option.splits if_splits)
  show "st_made st' k = Some p" using run by (auto simp: get_instance_def split: option.splits)
  show "st_objects st' p = Some (the_object init st k)"
    using run obj by (auto simp: get_instance_def the_object_def split: option.splits)
  show "the_object init st' = the_object init st"
    using run ran by (auto simp: get_instance_def the_object_def fun_eq_iff split: option.splits if_splits)
qed

lemma get_instance_distinct:
  assumes "statics_wf st" and "st_made st k = Some p" and "st_made st l = Some p"
  shows "k = l"
  using assms by (auto simp: statics_wf_def)

text \<open>Calls on one key work on one value; the other keys do not see them.\<close>

lemma instance_call_one_object:
  assumes wf: "statics_wf st" and a: "st_objects st a = None"
  shows "case f (the_object init st k) of
       Inl e \<Rightarrow> instance_call init a k f st = Inl e
     | Inr (r, v) \<Rightarrow> \<exists>st'. instance_call init a k f st = Inr (r, st') \<and> statics_wf st' \<and>
         the_object init st' = (the_object init st)(k := v)"
proof -
  obtain p st1 where g: "get_instance init a k st = (p, st1)" by fastforce
  note g' = get_instance_wf [OF wf a g]
  have "statics_wf (st1\<lparr>st_objects := (st_objects st1)(p \<mapsto> v)\<rparr>)" for v
    using g'(1,2) by (auto simp: statics_wf_def)
  moreover have "the_object init (st1\<lparr>st_objects := (st_objects st1)(p \<mapsto> v)\<rparr>) = (the_object init st)(k := v)" for v
  proof
    fix l
    have "st_made st1 l = Some p \<Longrightarrow> l = k" using get_instance_distinct [OF g'(1,2)] by auto
    then have "the_object init (st1\<lparr>st_objects := (st_objects st1)(p \<mapsto> v)\<rparr>) l = ((the_object init st1)(k := v)) l"
      using g'(2) by (cases "l = k") (auto simp: the_object_def split: option.split)
    then show "the_object init (st1\<lparr>st_objects := (st_objects st1)(p \<mapsto> v)\<rparr>) l = ((the_object init st)(k := v)) l"
      by (simp add: g'(4))
  qed
  ultimately show ?thesis
    by (auto simp: instance_call_def g g'(3) split: sum.split)
qed

text \<open>The table of descriptor contexts: \<open>FdMgr::GetInstance()->get(fd)\<close> is \<open>get\<close> on the one manager.\<close>

definition FdMgr :: "unit instance_key" where
  "FdMgr = Instance Singleton_Class () 0"

definition fd_mgr_call :: "'k posix \<Rightarrow> int \<Rightarrow> bool \<Rightarrow> 'k \<Rightarrow> fd_manager \<Rightarrow> ((nat option \<times> 'k) \<times> fd_manager) outcome" where
  "fd_mgr_call px fd auto_create k m = obind (fd_get px fd auto_create k m) (\<lambda>(r, k', m'). Inr ((r, k'), m'))"

lemma fd_mgr_get:
  assumes "statics_wf st" and "st_objects st a = None"
    and "fd_get px fd auto_create k (the_object fd_manager_new st FdMgr) = Inr (r, k', m)"
  shows "\<exists>st'. instance_call fd_manager_new a FdMgr (fd_mgr_call px fd auto_create k) st = Inr ((r, k'), st') \<and>
     the_object fd_manager_new st' FdMgr = m"
  using instance_call_one_object [OF assms(1,2), where f = "fd_mgr_call px fd auto_create k" and init = fd_manager_new and k = FdMgr] assms(3)
  by (auto simp: fd_mgr_call_def)

end
