(* ===== verification/Fiber.thy ===== *)
theory Fiber
  imports Coro_Prelude
begin

text \<open>
  Fiber.h and Fiber.cpp: the coroutine object, its thread-local bookkeeping and the context switch.
  Fibers are objects in a store. A context (\<open>ucontext_t\<close>) is modelled by where it continues:
  nowhere yet, at the entry \<open>Fiber::MainFunc\<close>, or in the middle of the code that was
  running on a given fiber's stack. \<open>t_exec\<close> is the one component that is not a variable of
  the program: the fiber on whose stack the thread really executes. The failure results of
  \<open>getcontext\<close> and \<open>swapcontext\<close> are a parameter (\<open>uc_api\<close>), the addresses
  the allocator returns are arguments.
\<close>

section \<open>State\<close>

text \<open>\<open>Fiber::State\<close>; the constructor for \<open>TERM\<close> cannot have that name here.\<close>

datatype fiber_state = READY | RUNNING | TERMINATED

datatype ucontext = Ctx_None | Ctx_Entry | Ctx_At nat

record uc_api =
  uc_get_fails :: bool
  uc_swap_fails :: bool

record 'cb fiber =
  m_id :: "64 word"
  m_stacksize :: "32 word"
  m_state :: fiber_state
  m_ctx :: ucontext
  m_stack :: "64 word"
  m_fcb :: "'cb option"
  m_runInScheduler :: bool

text \<open>The process-wide part: the fiber objects and the two atomic counters.\<close>

record 'cb fiber_world =
  fibers :: "nat \<rightharpoonup> 'cb fiber"
  s_fiber_id :: "64 word"
  s_fiber_count :: "64 word"

text \<open>The thread-local part; \<open>t_scheduler_fiber\<close> is declared in Scheduler.cpp.\<close>

record thread_ctx =
  t_fiber :: "nat option"
  t_thread_fiber :: "nat option"
  t_scheduler_fiber :: "nat option"
  t_exec :: "nat option"

definition g_fiber_stack_size :: "32 word" where
  "g_fiber_stack_size = 128 * 1024"

definition thread_ctx_new :: thread_ctx where
  "thread_ctx_new = \<lparr>t_fiber = None, t_thread_fiber = None, t_scheduler_fiber = None, t_exec = None\<rparr>"

definition fiber_upd :: "nat \<Rightarrow> ('cb fiber \<Rightarrow> 'cb fiber) \<Rightarrow> 'cb fiber_world \<Rightarrow> 'cb fiber_world" where
  "fiber_upd p f w = w\<lparr>fibers := (fibers w)(p := map_option f (fibers w p))\<rparr>"

section \<open>Construction, destruction, identity\<close>

definition Fiber_SetThis :: "nat option \<Rightarrow> thread_ctx \<Rightarrow> thread_ctx" where
  "Fiber_SetThis f tc = tc\<lparr>t_fiber := f\<rparr>"

definition Fiber_GetFiberId :: "'cb fiber_world \<Rightarrow> thread_ctx \<Rightarrow> 64 word outcome" where
  "Fiber_GetFiberId w tc =
     (case t_fiber tc of
        Some p \<Rightarrow> obind (deref (fibers w) p) (\<lambda>f. Inr (m_id f))
      | None \<Rightarrow> Inr 0)"

text \<open>
  The private constructor of a thread's main fiber. It initialises neither \<open>m_stack\<close> nor
  \<open>m_runInScheduler\<close>: their values are whatever the memory held (\<open>junk_stack\<close>,
  \<open>junk_flag\<close>).
\<close>

definition fiber_new_main ::
  "uc_api \<Rightarrow> 64 word \<Rightarrow> bool \<Rightarrow> nat \<Rightarrow> 'cb fiber_world \<Rightarrow> thread_ctx
   \<Rightarrow> ('cb fiber_world \<times> thread_ctx) outcome" where
  "fiber_new_main u junk_stack junk_flag p w tc =
     (let tc1 = Fiber_SetThis (Some p) tc
      in if uc_get_fails u then Inl (Assert_Fail ''getcontext error'')
         else Inr (w\<lparr>fibers := (fibers w)(p \<mapsto>
                       \<lparr>m_id = s_fiber_id w, m_stacksize = 0, m_state = RUNNING, m_ctx = Ctx_At p,
                        m_stack = junk_stack, m_fcb = None, m_runInScheduler = junk_flag\<rparr>),
                     s_fiber_id := s_fiber_id w + 1, s_fiber_count := s_fiber_count w + 1\<rparr>,
                   tc1\<lparr>t_exec := (case t_exec tc1 of None \<Rightarrow> Some p | Some e \<Rightarrow> Some e)\<rparr>))"

text \<open>\<open>Fiber::GetThis\<close>: the current fiber; creates the main fiber (at \<open>p\<close>) when there is none.\<close>

definition Fiber_GetThis ::
  "uc_api \<Rightarrow> 64 word \<Rightarrow> bool \<Rightarrow> nat \<Rightarrow> 'cb fiber_world \<Rightarrow> thread_ctx
   \<Rightarrow> (nat \<times> 'cb fiber_world \<times> thread_ctx) outcome" where
  "Fiber_GetThis u junk_stack junk_flag p w tc =
     (case t_fiber tc of
        Some q \<Rightarrow> Inr (q, w, tc)
      | None \<Rightarrow>
          obind (fiber_new_main u junk_stack junk_flag p w tc) (\<lambda>(w1, tc1).
          obind (MYASSERT (t_fiber tc1 = Some p) ''t_fiber != main_fiber.get()'') (\<lambda>_.
            Inr (p, w1, tc1\<lparr>t_thread_fiber := Some p\<rparr>))))"

text \<open>
  \<open>Fiber(cb, stacksize, run_in_scheduler)\<close>; \<open>stack\<close> is what \<open>malloc\<close> returned. The
  requested size is a \<open>size_t\<close>, the member a \<open>uint32_t\<close>.
\<close>

definition fiber_stacksize :: "64 word \<Rightarrow> 32 word" where
  "fiber_stacksize stacksize = ucast (if stacksize \<noteq> 0 then stacksize else ucast g_fiber_stack_size)"

definition fiber_new ::
  "uc_api \<Rightarrow> 64 word \<Rightarrow> nat \<Rightarrow> 'cb option \<Rightarrow> 64 word \<Rightarrow> bool \<Rightarrow> 'cb fiber_world
   \<Rightarrow> 'cb fiber_world outcome" where
  "fiber_new u stack p cb stacksize run_in_scheduler w =
     (if uc_get_fails u then Inl (Assert_Fail ''getcontext'')
      else Inr (w\<lparr>fibers := (fibers w)(p \<mapsto>
                    \<lparr>m_id = s_fiber_id w, m_stacksize = fiber_stacksize stacksize, m_state = READY,
                     m_ctx = Ctx_Entry, m_stack = stack, m_fcb = cb,
                     m_runInScheduler = run_in_scheduler\<rparr>),
                  s_fiber_id := s_fiber_id w + 1, s_fiber_count := s_fiber_count w + 1\<rparr>))"

text \<open>\<open>~Fiber\<close>.\<close>

definition fiber_delete ::
  "nat \<Rightarrow> 'cb fiber_world \<Rightarrow> thread_ctx \<Rightarrow> ('cb fiber_world \<times> thread_ctx) outcome" where
  "fiber_delete p w tc =
     obind (deref (fibers w) p) (\<lambda>f.
       let w1 = w\<lparr>s_fiber_count := s_fiber_count w - 1\<rparr>;
           w2 = w1\<lparr>fibers := (fibers w1)(p := None)\<rparr>
       in if m_stack f \<noteq> 0 then
            obind (MYASSERT (m_state f = TERMINATED) ''m_state != TERM'') (\<lambda>_. Inr (w2, tc))
          else
            obind (MYASSERT (m_fcb f = None) ''main fiber do not hava callback'') (\<lambda>_.
            obind (MYASSERT (m_state f = RUNNING) ''main fiber state must be RUNNING'') (\<lambda>_.
              Inr (w2, if t_fiber tc = Some p then Fiber_SetThis None tc else tc))))"

section \<open>Reset and context switches\<close>

definition fiber_reset :: "uc_api \<Rightarrow> nat \<Rightarrow> 'cb option \<Rightarrow> 'cb fiber_world \<Rightarrow> 'cb fiber_world outcome" where
  "fiber_reset u p cb w =
     obind (deref (fibers w) p) (\<lambda>f.
     obind (MYASSERT (m_stack f \<noteq> 0) ''main fiber cannot reset'') (\<lambda>_.
     obind (MYASSERT (m_state f = TERMINATED) ''reset error, m_state != TERM'') (\<lambda>_.
       if uc_get_fails u then Inl (Assert_Fail ''getcontext'')
       else Inr (fiber_upd p (\<lambda>f. f\<lparr>m_fcb := cb, m_ctx := Ctx_Entry, m_state := READY\<rparr>) w))))"

text \<open>
  \<open>swapcontext(&save->m_ctx, &load->m_ctx)\<close>: the running computation, on whatever stack it is, is
  stored in \<open>save\<close>; execution continues where the context of \<open>load\<close> says. Loading a
  context does not change it.
\<close>

definition fiber_swap ::
  "uc_api \<Rightarrow> nat \<Rightarrow> nat \<Rightarrow> 'cb fiber_world \<Rightarrow> thread_ctx \<Rightarrow> ('cb fiber_world \<times> thread_ctx) outcome" where
  "fiber_swap u save load w tc =
     (if uc_swap_fails u then Inl (Assert_Fail ''swapcontext'')
      else
        obind (deref (fibers w) save) (\<lambda>_.
        obind (deref (fibers w) load) (\<lambda>_.
          case t_exec tc of
            None \<Rightarrow> Inl Bad_Context
          | Some e \<Rightarrow>
              (let w1 = fiber_upd save (\<lambda>f. f\<lparr>m_ctx := Ctx_At e\<rparr>) w
               in obind (deref (fibers w1) load) (\<lambda>g.
                    case m_ctx g of
                      Ctx_None \<Rightarrow> Inl Bad_Context
                    | Ctx_Entry \<Rightarrow> Inr (w1, tc\<lparr>t_exec := Some load\<rparr>)
                    | Ctx_At e' \<Rightarrow> Inr (w1, tc\<lparr>t_exec := Some e'\<rparr>))))))"

text \<open>The fiber that \<open>resume\<close> and \<open>yield\<close> exchange control with.\<close>

definition swap_partner :: "'cb fiber \<Rightarrow> thread_ctx \<Rightarrow> nat outcome" where
  "swap_partner f tc =
     (case (if m_runInScheduler f then t_scheduler_fiber tc else t_thread_fiber tc) of
        None \<Rightarrow> Inl Null_Deref
      | Some g \<Rightarrow> Inr g)"

definition fiber_resume ::
  "uc_api \<Rightarrow> nat \<Rightarrow> 'cb fiber_world \<Rightarrow> thread_ctx \<Rightarrow> ('cb fiber_world \<times> thread_ctx) outcome" where
  "fiber_resume u p w tc =
     obind (deref (fibers w) p) (\<lambda>f.
     obind (MYASSERT (m_state f \<noteq> TERMINATED \<and> m_state f \<noteq> RUNNING) ''resume error'') (\<lambda>_.
       let tc1 = Fiber_SetThis (Some p) tc;
           w1 = fiber_upd p (\<lambda>f. f\<lparr>m_state := RUNNING\<rparr>) w
       in obind (swap_partner f tc1) (\<lambda>g. fiber_swap u g p w1 tc1)))"

definition fiber_yield ::
  "uc_api \<Rightarrow> nat \<Rightarrow> 'cb fiber_world \<Rightarrow> thread_ctx \<Rightarrow> ('cb fiber_world \<times> thread_ctx) outcome" where
  "fiber_yield u p w tc =
     obind (deref (fibers w) p) (\<lambda>f.
     obind (MYASSERT (m_state f = RUNNING \<or> m_state f = TERMINATED) ''yield error'') (\<lambda>_.
       let tc1 = Fiber_SetThis (t_thread_fiber tc) tc;
           w1 = (if m_state f \<noteq> TERMINATED then fiber_upd p (\<lambda>f. f\<lparr>m_state := READY\<rparr>) w else w)
       in obind (swap_partner f tc1) (\<lambda>g. fiber_swap u p g w1 tc1)))"

text \<open>
  \<open>Fiber::MainFunc\<close>: its first part finds the current fiber and calls its function, its last part
  runs when the function has returned.
\<close>

definition fiber_main_begin ::
  "uc_api \<Rightarrow> 64 word \<Rightarrow> bool \<Rightarrow> nat \<Rightarrow> 'cb fiber_world \<Rightarrow> thread_ctx
   \<Rightarrow> (nat \<times> 'cb option \<times> 'cb fiber_world \<times> thread_ctx) outcome" where
  "fiber_main_begin u junk_stack junk_flag p w tc =
     obind (Fiber_GetThis u junk_stack junk_flag p w tc) (\<lambda>(cur, w1, tc1).
     obind (deref (fibers w1) cur) (\<lambda>f. Inr (cur, m_fcb f, w1, tc1)))"

definition fiber_main_end ::
  "uc_api \<Rightarrow> nat \<Rightarrow> 'cb fiber_world \<Rightarrow> thread_ctx \<Rightarrow> ('cb fiber_world \<times> thread_ctx) outcome" where
  "fiber_main_end u cur w tc =
     obind (deref (fibers w) cur) (\<lambda>_.
       fiber_yield u cur (fiber_upd cur (\<lambda>f. f\<lparr>m_fcb := None, m_state := TERMINATED\<rparr>) w) tc)"


section \<open>What a switch does\<close>

lemma fiber_upd_simps [simp]:
  "fibers (fiber_upd p h w) q = (if q = p then map_option h (fibers w p) else fibers w q)"
  "s_fiber_id (fiber_upd p h w) = s_fiber_id w"
  "s_fiber_count (fiber_upd p h w) = s_fiber_count w"
  by (auto simp: fiber_upd_def)

lemma fiber_upd_Some: "fibers w p = Some f \<Longrightarrow> fiber_upd p h w = w\<lparr>fibers := (fibers w)(p \<mapsto> h f)\<rparr>"
  by (simp add: fiber_upd_def)

lemma Fiber_SetThis_simps [simp]:
  "t_fiber (Fiber_SetThis f tc) = f"
  "t_thread_fiber (Fiber_SetThis f tc) = t_thread_fiber tc"
  "t_scheduler_fiber (Fiber_SetThis f tc) = t_scheduler_fiber tc"
  "t_exec (Fiber_SetThis f tc) = t_exec tc"
  by (simp_all add: Fiber_SetThis_def)

lemma swap_partner_SetThis [simp]: "swap_partner f (Fiber_SetThis x tc) = swap_partner f tc"
  by (simp add: swap_partner_def)

text \<open>Where a loaded context continues.\<close>

definition ctx_target :: "nat \<Rightarrow> 'cb fiber \<Rightarrow> nat option" where
  "ctx_target p f = (case m_ctx f of Ctx_None \<Rightarrow> None | Ctx_Entry \<Rightarrow> Some p | Ctx_At e \<Rightarrow> Some e)"

lemma fiber_swap_ok:
  assumes "\<not> uc_swap_fails u" and "fibers w save = Some fs" and "fibers w load = Some fl"
    and "save \<noteq> load" and "t_exec tc = Some e" and "ctx_target load fl = Some e'"
  shows "fiber_swap u save load w tc =
     Inr (w\<lparr>fibers := (fibers w)(save \<mapsto> fs\<lparr>m_ctx := Ctx_At e\<rparr>)\<rparr>, tc\<lparr>t_exec := Some e'\<rparr>)"
  using assms by (auto simp: fiber_swap_def Let_def fiber_upd_Some ctx_target_def split: ucontext.splits)

lemma fiber_resume_ok:
  assumes "\<not> uc_swap_fails u" and "fibers w p = Some f" and "m_state f = READY"
    and "swap_partner f tc = Inr g" and "g \<noteq> p" and "fibers w g = Some fg"
    and "t_exec tc = Some e" and "ctx_target p f = Some e'"
  shows "fiber_resume u p w tc =
     Inr (w\<lparr>fibers := (fibers w)(p \<mapsto> f\<lparr>m_state := RUNNING\<rparr>, g \<mapsto> fg\<lparr>m_ctx := Ctx_At e\<rparr>)\<rparr>,
          tc\<lparr>t_fiber := Some p, t_exec := Some e'\<rparr>)"
proof -
  let ?w = "w\<lparr>fibers := (fibers w)(p \<mapsto> f\<lparr>m_state := RUNNING\<rparr>)\<rparr>"
  have "fiber_swap u g p ?w (Fiber_SetThis (Some p) tc) =
      Inr (?w\<lparr>fibers := (fibers ?w)(g \<mapsto> fg\<lparr>m_ctx := Ctx_At e\<rparr>)\<rparr>, (Fiber_SetThis (Some p) tc)\<lparr>t_exec := Some e'\<rparr>)"
    by (rule fiber_swap_ok [where fl = "f\<lparr>m_state := RUNNING\<rparr>"])
       (use assms in \<open>auto simp: ctx_target_def\<close>)
  moreover have "swap_partner f (Fiber_SetThis (Some p) tc) = Inr g"
    using assms(4) by simp
  ultimately show ?thesis
    using assms(2,3) by (simp add: fiber_resume_def fiber_upd_Some Fiber_SetThis_def Let_def)
qed

definition after_yield :: "fiber_state \<Rightarrow> fiber_state" where
  "after_yield s = (if s \<noteq> TERMINATED then READY else TERMINATED)"

lemma fiber_yield_ok:
  assumes "\<not> uc_swap_fails u" and "fibers w p = Some f" and "m_state f = RUNNING \<or> m_state f = TERMINATED"
    and "swap_partner f tc = Inr g" and "g \<noteq> p" and "fibers w g = Some fg"
    and "t_exec tc = Some e" and "ctx_target g fg = Some e'"
  shows "fiber_yield u p w tc =
     Inr (w\<lparr>fibers := (fibers w)(p \<mapsto> f\<lparr>m_state := after_yield (m_state f), m_ctx := Ctx_At e\<rparr>)\<rparr>,
          tc\<lparr>t_fiber := t_thread_fiber tc, t_exec := Some e'\<rparr>)"
proof -
  let ?f = "f\<lparr>m_state := after_yield (m_state f)\<rparr>"
  let ?w = "w\<lparr>fibers := (fibers w)(p \<mapsto> ?f)\<rparr>"
  have w: "(if m_state f \<noteq> TERMINATED then fiber_upd p (\<lambda>f. f\<lparr>m_state := READY\<rparr>) w else w) = ?w"
    using assms(2) by (auto simp: after_yield_def fiber_upd_Some fun_upd_idem)
  have "fiber_swap u p g ?w (Fiber_SetThis (t_thread_fiber tc) tc) =
      Inr (?w\<lparr>fibers := (fibers ?w)(p \<mapsto> ?f\<lparr>m_ctx := Ctx_At e\<rparr>)\<rparr>,
           (Fiber_SetThis (t_thread_fiber tc) tc)\<lparr>t_exec := Some e'\<rparr>)"
    by (rule fiber_swap_ok) (use assms in auto)
  moreover have "swap_partner f (Fiber_SetThis (t_thread_fiber tc) tc) = Inr g"
    using assms(4) by simp
  ultimately show ?thesis
    using assms(2,3) by (simp add: fiber_yield_def w Fiber_SetThis_def Let_def)
qed

section \<open>Identifiers\<close>

text \<open>
  The operations that construct and destroy fibers, by any thread, and the others; the number counts
  the constructions since the start of the process.
\<close>

inductive fiber_op :: "nat \<times> 'cb fiber_world \<Rightarrow> nat \<times> 'cb fiber_world \<Rightarrow> bool" where
  new_main: "fibers w p = None \<Longrightarrow> fiber_new_main u js jf p w tc = Inr (w', tc') \<Longrightarrow>
    fiber_op (n, w) (Suc n, w')"
| new: "fibers w p = None \<Longrightarrow> fiber_new u st p cb sz ris w = Inr w' \<Longrightarrow> fiber_op (n, w) (Suc n, w')"
| delete: "fiber_delete p w tc = Inr (w', tc') \<Longrightarrow> fiber_op (n, w) (n, w')"
| reset: "fiber_reset u p cb w = Inr w' \<Longrightarrow> fiber_op (n, w) (n, w')"
| resume: "fiber_resume u p w tc = Inr (w', tc') \<Longrightarrow> fiber_op (n, w) (n, w')"
| yield: "fiber_yield u p w tc = Inr (w', tc') \<Longrightarrow> fiber_op (n, w) (n, w')"
| main_end: "fiber_main_end u p w tc = Inr (w', tc') \<Longrightarrow> fiber_op (n, w) (n, w')"

definition fiber_world_new :: "'cb fiber_world" where
  "fiber_world_new = \<lparr>fibers = Map.empty, s_fiber_id = 0, s_fiber_count = 0\<rparr>"

definition fiber_op_start :: "nat \<times> 'cb fiber_world \<Rightarrow> bool" where
  "fiber_op_start s \<longleftrightarrow> s = (0, fiber_world_new)"

definition same_ids :: "'cb fiber_world \<Rightarrow> 'cb fiber_world \<Rightarrow> bool" where
  "same_ids w w' \<longleftrightarrow> s_fiber_id w' = s_fiber_id w \<and> s_fiber_count w' = s_fiber_count w \<and>
     (\<forall>p. map_option m_id (fibers w' p) = map_option m_id (fibers w p))"

lemma same_ids_refl [simp, intro]: "same_ids w w"
  by (simp add: same_ids_def)

lemma same_ids_trans: "same_ids w1 w2 \<Longrightarrow> same_ids w2 w3 \<Longrightarrow> same_ids w1 w3"
  by (simp add: same_ids_def)

lemma same_ids_upd: "(\<And>f. m_id (h f) = m_id f) \<Longrightarrow> same_ids w (fiber_upd p h w)"
  by (auto simp: same_ids_def option.map_comp comp_def)

lemma fiber_swap_ids:
  fixes w :: "'a fiber_world"
  assumes "fiber_swap u a b w tc = Inr (w', tc')"
  shows "same_ids w w'"
proof -
  from assms obtain e where e: "t_exec tc = Some e" and ok: "\<not> uc_swap_fails u"
    by (auto simp: fiber_swap_def outcome_simps split: if_splits option.splits)
  let ?w = "fiber_upd a (\<lambda>f. f\<lparr>m_ctx := Ctx_At e\<rparr>) w"
  from assms obtain g :: "'a fiber" where "(case m_ctx g of
        Ctx_None \<Rightarrow> Inl Bad_Context
      | Ctx_Entry \<Rightarrow> Inr (?w, tc\<lparr>t_exec := Some b\<rparr>)
      | Ctx_At e' \<Rightarrow> Inr (?w, tc\<lparr>t_exec := Some e'\<rparr>)) = Inr (w', tc')"
    unfolding fiber_swap_def Let_def by (simp only: e ok option.case if_False) (elim obind_InrE, erule that)
  then have "w' = ?w" by (cases "m_ctx g") simp_all
  then show ?thesis by (simp add: same_ids_upd)
qed

lemma fiber_yield_ids:
  fixes w :: "'a fiber_world"
  assumes "fiber_yield u p w tc = Inr (w', tc')"
  shows "same_ids w w'"
proof -
  from assms obtain f :: "'a fiber" and g tc1 where
    "fiber_swap u p g (if m_state f \<noteq> TERMINATED then fiber_upd p (\<lambda>f. f\<lparr>m_state := READY\<rparr>) w else w) tc1
       = Inr (w', tc')"
    unfolding fiber_yield_def Let_def by (elim obind_InrE) (erule that)
  then have "same_ids (if m_state f \<noteq> TERMINATED then fiber_upd p (\<lambda>f. f\<lparr>m_state := READY\<rparr>) w else w) w'"
    by (rule fiber_swap_ids)
  moreover have "same_ids w (if m_state f \<noteq> TERMINATED then fiber_upd p (\<lambda>f. f\<lparr>m_state := READY\<rparr>) w else w)"
    by (simp add: same_ids_upd)
  ultimately show ?thesis by (metis same_ids_trans)
qed

lemma fiber_resume_ids:
  assumes "fiber_resume u p w tc = Inr (w', tc')"
  shows "same_ids w w'"
proof -
  from assms obtain g tc1 where
    "fiber_swap u g p (fiber_upd p (\<lambda>f. f\<lparr>m_state := RUNNING\<rparr>) w) tc1 = Inr (w', tc')"
    unfolding fiber_resume_def Let_def by (elim obind_InrE) (erule that)
  then have "same_ids (fiber_upd p (\<lambda>f. f\<lparr>m_state := RUNNING\<rparr>) w) w'"
    by (rule fiber_swap_ids)
  with same_ids_upd [of "\<lambda>f. f\<lparr>m_state := RUNNING\<rparr>" w p] show ?thesis
    by (auto intro: same_ids_trans)
qed

lemma fiber_main_end_ids:
  assumes "fiber_main_end u p w tc = Inr (w', tc')"
  shows "same_ids w w'"
proof -
  from assms have "fiber_yield u p (fiber_upd p (\<lambda>f. f\<lparr>m_fcb := None, m_state := TERMINATED\<rparr>) w) tc
      = Inr (w', tc')"
    unfolding fiber_main_end_def by (elim obind_InrE) assumption
  then have "same_ids (fiber_upd p (\<lambda>f. f\<lparr>m_fcb := None, m_state := TERMINATED\<rparr>) w) w'"
    by (rule fiber_yield_ids)
  with same_ids_upd [of "\<lambda>f. f\<lparr>m_fcb := None, m_state := TERMINATED\<rparr>" w p] show ?thesis
    by (auto intro: same_ids_trans)
qed

lemma fiber_reset_ids: "fiber_reset u p cb w = Inr w' \<Longrightarrow> same_ids w w'"
  by (auto simp: fiber_reset_def outcome_simps intro!: same_ids_upd split: if_splits)

text \<open>Every live fiber has the number of its construction as its identifier.\<close>

definition ids_wf :: "nat \<times> 'cb fiber_world \<Rightarrow> bool" where
  "ids_wf s \<longleftrightarrow> (case s of (n, w) \<Rightarrow>
     s_fiber_id w = of_nat n \<and> finite (dom (fibers w)) \<and> s_fiber_count w = of_nat (card (dom (fibers w))) \<and>
     (\<exists>g. inj_on g (dom (fibers w)) \<and>
        (\<forall>p f. fibers w p = Some f \<longrightarrow> g p < n \<and> m_id f = of_nat (g p))))"

lemma same_ids_dom: "same_ids w w' \<Longrightarrow> dom (fibers w') = dom (fibers w)"
  unfolding same_ids_def dom_def by (metis map_option_is_None)

lemma same_ids_wf:
  assumes s: "same_ids w w'" and wf: "ids_wf (n, w)"
  shows "ids_wf (n, w')"
proof -
  from wf obtain g where g: "inj_on g (dom (fibers w))"
    "\<forall>p f. fibers w p = Some f \<longrightarrow> g p < n \<and> m_id f = of_nat (g p)" and n: "s_fiber_id w = of_nat n"
    and fin: "finite (dom (fibers w))" and c: "s_fiber_count w = of_nat (card (dom (fibers w)))"
    by (auto simp: ids_wf_def)
  have "g p < n \<and> m_id f' = of_nat (g p)" if f': "fibers w' p = Some f'" for p f'
  proof -
    from s have "map_option m_id (fibers w' p) = map_option m_id (fibers w p)"
      by (simp add: same_ids_def)
    with f' obtain f where "fibers w p = Some f" "m_id f = m_id f'" by (cases "fibers w p") auto
    with g(2) show ?thesis by metis
  qed
  with s g(1) n fin c same_ids_dom [OF s] show ?thesis
    unfolding ids_wf_def same_ids_def by auto
qed

lemma new_fiber_wf:
  assumes "ids_wf (n, w)" and "fibers w p = None" and "m_id f = s_fiber_id w"
    and "fibers w' = (fibers w)(p \<mapsto> f)" and "s_fiber_id w' = s_fiber_id w + 1"
    and "s_fiber_count w' = s_fiber_count w + 1"
  shows "ids_wf (Suc n, w')"
proof -
  from assms(1) obtain g where g: "inj_on g (dom (fibers w))"
    "\<forall>p f. fibers w p = Some f \<longrightarrow> g p < n \<and> m_id f = of_nat (g p)" and n: "s_fiber_id w = of_nat n"
    and fin: "finite (dom (fibers w))" and c: "s_fiber_count w = of_nat (card (dom (fibers w)))"
    by (auto simp: ids_wf_def)
  have p: "p \<notin> dom (fibers w)" using assms(2) by auto
  have "inj_on (g(p := n)) (dom (fibers w'))"
  proof -
    have below: "g q < n" if "q \<in> dom (fibers w)" for q
      using that g(2) by auto
    have "inj_on (g(p := n)) (dom (fibers w))"
      using g(1) p by (simp cong: inj_on_cong add: inj_on_def)
    moreover have "n \<notin> (g(p := n)) ` (dom (fibers w) - {p})"
    proof
      assume "n \<in> (g(p := n)) ` (dom (fibers w) - {p})"
      then obtain q where "q \<in> dom (fibers w)" "q \<noteq> p" "n = (g(p := n)) q" by blast
      with below [of q] show False by simp
    qed
    ultimately show ?thesis
      by (simp add: assms(4) inj_on_insert)
  qed
  moreover have "\<forall>q h. fibers w' q = Some h \<longrightarrow> (g(p := n)) q < Suc n \<and> m_id h = of_nat ((g(p := n)) q)"
    using g(2) assms(3,4) n by (auto simp: less_Suc_eq)
  moreover have "s_fiber_count w' = of_nat (card (dom (fibers w')))"
    using fin p c assms(4,6) by simp
  moreover have "s_fiber_id w' = of_nat (Suc n)" "finite (dom (fibers w'))"
    using n fin assms(4,5) by simp_all
  ultimately show ?thesis
    unfolding ids_wf_def prod.case by blast
qed

lemma delete_fiber_wf:
  assumes "ids_wf (n, w)" and "fiber_delete p w tc = Inr (w', tc')"
  shows "ids_wf (n, w')"
proof -
  from assms(2) obtain f where f: "fibers w p = Some f"
    and w': "w' = w\<lparr>s_fiber_count := s_fiber_count w - 1, fibers := (fibers w)(p := None)\<rparr>"
    by (auto simp: fiber_delete_def Let_def outcome_simps split: if_splits)
  from assms(1) obtain g where g: "inj_on g (dom (fibers w))"
    "\<forall>p f. fibers w p = Some f \<longrightarrow> g p < n \<and> m_id f = of_nat (g p)" and n: "s_fiber_id w = of_nat n"
    and fin: "finite (dom (fibers w))" and c: "s_fiber_count w = of_nat (card (dom (fibers w)))"
    by (auto simp: ids_wf_def)
  have "p \<in> dom (fibers w)" using f by auto
  then have "of_nat (card (dom (fibers w) - {p})) = (of_nat (card (dom (fibers w))) - 1 :: 64 word)"
    using fin by (subst card_Suc_Diff1 [symmetric, of _ p]) auto
  moreover have "inj_on g (dom (fibers w) - {p})"
    using g(1) by (rule inj_on_diff)
  ultimately show ?thesis
    using g(2) n fin c w' unfolding ids_wf_def by (auto simp: dom_fun_upd)
qed

lemma fiber_op_wf: "fiber_op s s' \<Longrightarrow> ids_wf s \<Longrightarrow> ids_wf s'"
proof (induction rule: fiber_op.induct)
  case (new_main w p u js jf tc w' tc' n)
  show ?case
    by (rule new_fiber_wf [OF new_main.prems new_main.hyps(1), where
          f = "\<lparr>m_id = s_fiber_id w, m_stacksize = 0, m_state = RUNNING, m_ctx = Ctx_At p,
                m_stack = js, m_fcb = None, m_runInScheduler = jf\<rparr>"])
       (use new_main.hyps(2) in \<open>auto simp: fiber_new_main_def Let_def split: if_splits\<close>)
next
  case (new w p u st cb sz ris w' n)
  show ?case
    by (rule new_fiber_wf [OF new.prems new.hyps(1), where
          f = "\<lparr>m_id = s_fiber_id w, m_stacksize = fiber_stacksize sz, m_state = READY,
                m_ctx = Ctx_Entry, m_stack = st, m_fcb = cb, m_runInScheduler = ris\<rparr>"])
       (use new.hyps(2) in \<open>auto simp: fiber_new_def split: if_splits\<close>)
qed (blast intro: delete_fiber_wf same_ids_wf fiber_reset_ids fiber_resume_ids fiber_yield_ids fiber_main_end_ids)+

lemma fiber_op_start_wf: "fiber_op_start s \<Longrightarrow> ids_wf s"
  by (auto simp: fiber_op_start_def ids_wf_def fiber_world_new_def)

interpretation ids_safe: safe_system fiber_op_start fiber_op ids_wf
  by unfold_locales (auto intro: fiber_op_start_wf fiber_op_wf)


section \<open>The fibers of one worker thread\<close>

text \<open>
  What \<open>Scheduler::run\<close> does first on a worker thread: \<open>GetThis()\<close> makes the main fiber
  \<open>g\<close>, which is also the scheduling fiber.
\<close>

definition worker_init ::
  "uc_api \<Rightarrow> 64 word \<Rightarrow> bool \<Rightarrow> nat \<Rightarrow> ('cb fiber_world \<times> thread_ctx) outcome" where
  "worker_init u junk_stack junk_flag g =
     obind (Fiber_GetThis u junk_stack junk_flag g fiber_world_new thread_ctx_new) (\<lambda>(q, w, tc).
       Inr (w, tc\<lparr>t_scheduler_fiber := Some q\<rparr>))"

definition worker_start :: "nat \<Rightarrow> 'cb fiber_world \<times> thread_ctx \<Rightarrow> bool" where
  "worker_start g s \<longleftrightarrow> (\<exists>u js jf. worker_init u js jf g = Inr s)"

text \<open>
  The protocol of an asymmetric coroutine: only the scheduling fiber resumes, a task yields or ends
  itself, and a fiber that executes is not destroyed.
\<close>

inductive worker_step :: "nat \<Rightarrow> 'cb fiber_world \<times> thread_ctx \<Rightarrow> 'cb fiber_world \<times> thread_ctx \<Rightarrow> bool"
  for g :: nat where
  w_new: "fibers w p = None \<Longrightarrow> st \<noteq> 0 \<Longrightarrow> fiber_new u st p cb sz True w = Inr w' \<Longrightarrow>
    worker_step g (w, tc) (w', tc)"
| w_reset: "fiber_reset u p cb w = Inr w' \<Longrightarrow> worker_step g (w, tc) (w', tc)"
| w_resume: "t_exec tc = Some g \<Longrightarrow> p \<noteq> g \<Longrightarrow> fiber_resume u p w tc = Inr (w', tc') \<Longrightarrow>
    worker_step g (w, tc) (w', tc')"
| w_yield: "t_fiber tc = Some p \<Longrightarrow> p \<noteq> g \<Longrightarrow> fiber_yield u p w tc = Inr (w', tc') \<Longrightarrow>
    worker_step g (w, tc) (w', tc')"
| w_end: "t_exec tc = Some p \<Longrightarrow> p \<noteq> g \<Longrightarrow> fiber_main_end u p w tc = Inr (w', tc') \<Longrightarrow>
    worker_step g (w, tc) (w', tc')"
| w_delete: "t_exec tc \<noteq> Some p \<Longrightarrow> p \<noteq> g \<Longrightarrow> fiber_delete p w tc = Inr (w', tc') \<Longrightarrow>
    worker_step g (w, tc) (w', tc')"

definition task_ok :: "nat option \<Rightarrow> nat \<Rightarrow> 'cb fiber \<Rightarrow> bool" where
  "task_ok e p f \<longleftrightarrow> m_runInScheduler f \<and> (m_state f = RUNNING \<longleftrightarrow> e = Some p) \<and>
     (m_state f = READY \<longrightarrow> ctx_target p f = Some p) \<and> m_stack f \<noteq> 0"

definition worker_wf :: "nat \<Rightarrow> 'cb fiber_world \<times> thread_ctx \<Rightarrow> bool" where
  "worker_wf g s \<longleftrightarrow> (case s of (w, tc) \<Rightarrow>
     t_thread_fiber tc = Some g \<and> t_scheduler_fiber tc = Some g \<and> t_fiber tc = t_exec tc \<and>
     (\<exists>e fe fg. t_exec tc = Some e \<and> fibers w e = Some fe \<and> fibers w g = Some fg \<and>
        m_state fg = RUNNING \<and> (e \<noteq> g \<longrightarrow> m_ctx fg = Ctx_At g)) \<and>
     (\<forall>p f. fibers w p = Some f \<and> p \<noteq> g \<longrightarrow> task_ok (t_exec tc) p f))"

lemma worker_wfE:
  assumes "worker_wf g (w, tc)"
  obtains e fe fg where "t_thread_fiber tc = Some g" and "t_scheduler_fiber tc = Some g"
    and "t_fiber tc = Some e" and "t_exec tc = Some e" and "fibers w e = Some fe"
    and "fibers w g = Some fg" and "m_state fg = RUNNING" and "e \<noteq> g \<Longrightarrow> m_ctx fg = Ctx_At g"
    and "\<And>p f. fibers w p = Some f \<Longrightarrow> p \<noteq> g \<Longrightarrow> task_ok (Some e) p f"
proof -
  from assms have tc: "t_thread_fiber tc = Some g" "t_scheduler_fiber tc = Some g" "t_fiber tc = t_exec tc"
    and t: "\<forall>p f. fibers w p = Some f \<and> p \<noteq> g \<longrightarrow> task_ok (t_exec tc) p f"
    and "\<exists>e fe fg. t_exec tc = Some e \<and> fibers w e = Some fe \<and> fibers w g = Some fg \<and>
        m_state fg = RUNNING \<and> (e \<noteq> g \<longrightarrow> m_ctx fg = Ctx_At g)"
    by (simp_all add: worker_wf_def)
  then obtain e fe fg where e: "t_exec tc = Some e \<and> fibers w e = Some fe \<and> fibers w g = Some fg \<and>
        m_state fg = RUNNING \<and> (e \<noteq> g \<longrightarrow> m_ctx fg = Ctx_At g)" by blast
  show thesis
    by (rule that [of e fe fg]) (use e t tc in simp_all)
qed

lemma worker_wfI:
  assumes "t_thread_fiber tc = Some g" and "t_scheduler_fiber tc = Some g"
    and "t_fiber tc = Some e" and "t_exec tc = Some e" and "fibers w e = Some fe"
    and "fibers w g = Some fg" and "m_state fg = RUNNING" and "e \<noteq> g \<Longrightarrow> m_ctx fg = Ctx_At g"
    and "\<And>p f. fibers w p = Some f \<Longrightarrow> p \<noteq> g \<Longrightarrow> task_ok (Some e) p f"
  shows "worker_wf g (w, tc)"
  using assms unfolding worker_wf_def by auto

lemma swap_partner_worker:
  "t_scheduler_fiber tc = Some g \<Longrightarrow> m_runInScheduler f \<Longrightarrow> swap_partner f tc = Inr g"
  by (simp add: swap_partner_def)

lemma fiber_resume_Inr:
  assumes "fiber_resume u p w tc = Inr (w', tc')"
  obtains f where "fibers w p = Some f" and "m_state f = READY" and "\<not> uc_swap_fails u"
proof -
  from assms obtain f where f: "fibers w p = Some f" and s: "m_state f \<noteq> TERMINATED \<and> m_state f \<noteq> RUNNING"
    by (auto simp: fiber_resume_def outcome_simps)
  from s have "m_state f = READY" by (cases "m_state f") auto
  moreover from assms have "\<not> uc_swap_fails u"
    by (auto simp: fiber_resume_def fiber_swap_def Let_def outcome_simps split: if_splits)
  ultimately show thesis using that f by blast
qed

lemma fiber_yield_Inr:
  assumes "fiber_yield u p w tc = Inr (w', tc')"
  obtains f where "fibers w p = Some f" and "m_state f = RUNNING \<or> m_state f = TERMINATED"
    and "\<not> uc_swap_fails u"
  using assms
  by (auto simp: fiber_yield_def fiber_swap_def Let_def outcome_simps split: if_splits)

lemma worker_resume_eq:
  assumes wf: "worker_wf g (w, tc)" and e: "t_exec tc = Some g" and p: "p \<noteq> g"
    and f: "fibers w p = Some f" "m_state f = READY" and u: "\<not> uc_swap_fails u"
    and g: "fibers w g = Some fg"
  shows "fiber_resume u p w tc =
     Inr (w\<lparr>fibers := (fibers w)(p \<mapsto> f\<lparr>m_state := RUNNING\<rparr>, g \<mapsto> fg\<lparr>m_ctx := Ctx_At g\<rparr>)\<rparr>,
          tc\<lparr>t_fiber := Some p, t_exec := Some p\<rparr>)"
proof -
  from wf f p have t: "task_ok (t_exec tc) p f" and sch: "t_scheduler_fiber tc = Some g"
    by (auto simp: worker_wf_def)
  show ?thesis
    by (rule fiber_resume_ok [OF u f _ p [symmetric] g e])
       (use t f(2) sch in \<open>auto simp: task_ok_def swap_partner_def\<close>)
qed

lemma worker_resume_wf:
  assumes wf: "worker_wf g (w, tc)" and e: "t_exec tc = Some g" and p: "p \<noteq> g"
    and run: "fiber_resume u p w tc = Inr (w', tc')"
  shows "worker_wf g (w', tc')"
proof -
  from run obtain f where f: "fibers w p = Some f" "m_state f = READY" "\<not> uc_swap_fails u"
    by (rule fiber_resume_Inr)
  from wf show ?thesis
  proof (rule worker_wfE)
    fix e' fe fg
    assume a: "t_thread_fiber tc = Some g" "t_scheduler_fiber tc = Some g" "t_exec tc = Some e'"
      "fibers w g = Some fg" "m_state fg = RUNNING"
      and t: "\<And>p f. fibers w p = Some f \<Longrightarrow> p \<noteq> g \<Longrightarrow> task_ok (Some e') p f"
    from worker_resume_eq [OF wf e p f a(4)] run
    have eq: "w' = w\<lparr>fibers := (fibers w)(p \<mapsto> f\<lparr>m_state := RUNNING\<rparr>, g \<mapsto> fg\<lparr>m_ctx := Ctx_At g\<rparr>)\<rparr>"
      "tc' = tc\<lparr>t_fiber := Some p, t_exec := Some p\<rparr>" by auto
    have "task_ok (Some p) q h" if "fibers w' q = Some h" "q \<noteq> g" for q h
      using that t [of q] f p e a(3) eq by (auto simp: task_ok_def split: if_splits)
    then show "worker_wf g (w', tc')"
      using a p by (intro worker_wfI [where e = p and fe = "f\<lparr>m_state := RUNNING\<rparr>" and
            fg = "fg\<lparr>m_ctx := Ctx_At g\<rparr>"]) (auto simp: eq)
  qed
qed

text \<open>A task that gives up control, by \<open>yield\<close> or at the end of \<open>MainFunc\<close>.\<close>

lemma worker_yield_wf:
  assumes wf: "worker_wf g (w, tc)" and e: "t_exec tc = Some p" and p: "p \<noteq> g"
    and w1: "fibers w1 = (fibers w)(p \<mapsto> f)" "m_state f = RUNNING \<or> m_state f = TERMINATED"
      "m_runInScheduler f" "m_stack f \<noteq> 0"
    and run: "fiber_yield u p w1 tc = Inr (w', tc')"
  shows "worker_wf g (w', tc')" and "t_exec tc' = Some g"
proof -
  have u: "\<not> uc_swap_fails u" using run by (rule fiber_yield_Inr)
  obtain fg where g: "fibers w g = Some fg" "m_state fg = RUNNING" "m_ctx fg = Ctx_At g"
    and tc: "t_thread_fiber tc = Some g" "t_scheduler_fiber tc = Some g"
    and t: "\<And>q h. fibers w q = Some h \<Longrightarrow> q \<noteq> g \<Longrightarrow> task_ok (Some p) q h"
    using wf e p by (auto elim!: worker_wfE)
  have "fiber_yield u p w1 tc =
      Inr (w1\<lparr>fibers := (fibers w1)(p \<mapsto> f\<lparr>m_state := after_yield (m_state f), m_ctx := Ctx_At p\<rparr>)\<rparr>,
           tc\<lparr>t_fiber := t_thread_fiber tc, t_exec := Some g\<rparr>)"
    by (rule fiber_yield_ok [OF u _ w1(2) swap_partner_worker [OF tc(2) w1(3)] p [symmetric] _ e])
       (use w1 g p in \<open>auto simp: ctx_target_def\<close>)
  with run have eq: "fibers w' = (fibers w)(p \<mapsto> f\<lparr>m_state := after_yield (m_state f), m_ctx := Ctx_At p\<rparr>)"
    "tc' = tc\<lparr>t_fiber := Some g, t_exec := Some g\<rparr>"
    using w1(1) tc by auto
  show "t_exec tc' = Some g" by (simp add: eq)
  have "task_ok (Some g) q h" if "fibers w' q = Some h" "q \<noteq> g" for q h
  proof (cases "q = p")
    case True
    with that eq w1 p show ?thesis
      by (auto simp: task_ok_def after_yield_def ctx_target_def split: if_splits)
  next
    case False
    with that eq t [of q h] show ?thesis by (auto simp: task_ok_def)
  qed
  then show "worker_wf g (w', tc')"
    using g tc p by (intro worker_wfI [where e = g and fe = fg and fg = fg]) (auto simp: eq)
qed

lemma worker_new_wf:
  assumes wf: "worker_wf g (w, tc)" and p: "fibers w p = None" and st: "st \<noteq> 0"
    and new: "fiber_new u st p cb sz True w = Inr w'"
  shows "worker_wf g (w', tc)"
proof -
  from new have eq: "fibers w' = (fibers w)(p \<mapsto>
      \<lparr>m_id = s_fiber_id w, m_stacksize = fiber_stacksize sz, m_state = READY, m_ctx = Ctx_Entry,
       m_stack = st, m_fcb = cb, m_runInScheduler = True\<rparr>)" (is "_ = _(p \<mapsto> ?f)")
    by (auto simp: fiber_new_def split: if_splits)
  from wf show ?thesis
  proof (rule worker_wfE)
    fix e fe fg
    assume a: "t_thread_fiber tc = Some g" "t_scheduler_fiber tc = Some g" "t_fiber tc = Some e"
      "t_exec tc = Some e" "fibers w e = Some fe" "fibers w g = Some fg" "m_state fg = RUNNING"
      "e \<noteq> g \<Longrightarrow> m_ctx fg = Ctx_At g"
      and t: "\<And>p f. fibers w p = Some f \<Longrightarrow> p \<noteq> g \<Longrightarrow> task_ok (Some e) p f"
    have ne: "p \<noteq> e" "p \<noteq> g" using a p by auto
    have "task_ok (Some e) q h" if "fibers w' q = Some h" "q \<noteq> g" for q h
      using that t [of q] ne st by (auto simp: eq task_ok_def ctx_target_def split: if_splits)
    then show ?thesis
      using a ne by (intro worker_wfI [where e = e and fe = fe and fg = fg]) (simp_all add: eq)
  qed
qed

lemma worker_reset_wf:
  assumes wf: "worker_wf g (w, tc)" and res: "fiber_reset u p cb w = Inr w'"
  shows "worker_wf g (w', tc)"
proof -
  from res obtain f where f: "fibers w p = Some f" "m_state f = TERMINATED"
    and eq: "fibers w' = (fibers w)(p \<mapsto> f\<lparr>m_fcb := cb, m_ctx := Ctx_Entry, m_state := READY\<rparr>)"
    by (auto simp: fiber_reset_def outcome_simps fiber_upd_Some split: if_splits)
  from wf show ?thesis
  proof (rule worker_wfE)
    fix e fe fg
    assume a: "t_thread_fiber tc = Some g" "t_scheduler_fiber tc = Some g" "t_fiber tc = Some e"
      "t_exec tc = Some e" "fibers w e = Some fe" "fibers w g = Some fg" "m_state fg = RUNNING"
      "e \<noteq> g \<Longrightarrow> m_ctx fg = Ctx_At g"
      and t: "\<And>p f. fibers w p = Some f \<Longrightarrow> p \<noteq> g \<Longrightarrow> task_ok (Some e) p f"
    have pg: "p \<noteq> g" using a(6,7) f by auto
    then have ne: "e \<noteq> p" using t [OF f(1)] f(2) by (auto simp: task_ok_def)
    have "task_ok (Some e) q h" if "fibers w' q = Some h" "q \<noteq> g" for q h
      using that t [of q] ne f pg by (auto simp: eq task_ok_def ctx_target_def split: if_splits)
    then show ?thesis
      using a ne pg by (intro worker_wfI [where e = e and fe = fe and fg = fg]) (simp_all add: eq)
  qed
qed

lemma worker_delete_wf:
  assumes wf: "worker_wf g (w, tc)" and ne: "t_exec tc \<noteq> Some p" "p \<noteq> g"
    and del: "fiber_delete p w tc = Inr (w', tc')"
  shows "worker_wf g (w', tc')"
proof -
  from wf show ?thesis
  proof (rule worker_wfE)
    fix e fe fg
    assume a: "t_thread_fiber tc = Some g" "t_scheduler_fiber tc = Some g" "t_fiber tc = Some e"
      "t_exec tc = Some e" "fibers w e = Some fe" "fibers w g = Some fg" "m_state fg = RUNNING"
      "e \<noteq> g \<Longrightarrow> m_ctx fg = Ctx_At g"
      and t: "\<And>p f. fibers w p = Some f \<Longrightarrow> p \<noteq> g \<Longrightarrow> task_ok (Some e) p f"
    from del a(3,4) ne have eq: "fibers w' = (fibers w)(p := None)" "tc' = tc"
      by (auto simp: fiber_delete_def Let_def outcome_simps split: if_splits)
    have "task_ok (Some e) q h" if "fibers w' q = Some h" "q \<noteq> g" for q h
      using that t [of q] by (auto simp: eq split: if_splits)
    then show ?thesis
      using a ne by (intro worker_wfI [where e = e and fe = fe and fg = fg]) (simp_all add: eq)
  qed
qed

lemma worker_task:
  assumes "worker_wf g (w, tc)" and "t_exec tc = Some p" and "p \<noteq> g"
  obtains f fg where "fibers w p = Some f" and "m_state f = RUNNING" and "m_runInScheduler f"
    and "m_stack f \<noteq> 0" and "fibers w g = Some fg" and "m_ctx fg = Ctx_At g"
proof (rule worker_wfE [OF assms(1)])
  fix e fe fg
  assume a: "t_exec tc = Some e" "fibers w e = Some fe" "fibers w g = Some fg"
    "e \<noteq> g \<Longrightarrow> m_ctx fg = Ctx_At g"
    and t: "\<And>p f. fibers w p = Some f \<Longrightarrow> p \<noteq> g \<Longrightarrow> task_ok (Some e) p f"
  from a assms(2) have e: "e = p" by simp
  with t [of p fe] a assms(3) show thesis
    by (intro that [of fe fg]) (simp_all add: task_ok_def)
qed

lemma worker_step_wf: "worker_step g s s' \<Longrightarrow> worker_wf g s \<Longrightarrow> worker_wf g s'"
proof (induction rule: worker_step.induct)
  case (w_yield tc p u w w' tc')
  have e: "t_exec tc = Some p" using w_yield.prems w_yield.hyps(1) by (simp add: worker_wf_def)
  obtain f fg where f: "fibers w p = Some f" "m_state f = RUNNING" "m_runInScheduler f" "m_stack f \<noteq> 0"
    using worker_task [OF w_yield.prems e w_yield.hyps(2)] by metis
  show ?case
    by (rule worker_yield_wf(1) [OF w_yield.prems e w_yield.hyps(2), of w f])
       (use f w_yield.hyps(3) in \<open>auto simp: fun_upd_idem\<close>)
next
  case (w_end tc p u w w' tc')
  obtain f fg where f: "fibers w p = Some f" "m_state f = RUNNING" "m_runInScheduler f" "m_stack f \<noteq> 0"
    using worker_task [OF w_end.prems w_end.hyps(1,2)] by metis
  show ?case
    by (rule worker_yield_wf(1) [OF w_end.prems w_end.hyps(1,2),
          of "fiber_upd p (\<lambda>f. f\<lparr>m_fcb := None, m_state := TERMINATED\<rparr>) w"
             "f\<lparr>m_fcb := None, m_state := TERMINATED\<rparr>"])
       (use f w_end.hyps(3) in \<open>auto simp: fiber_main_end_def fiber_upd_Some outcome_simps\<close>)
qed (blast intro: worker_new_wf worker_reset_wf worker_resume_wf worker_delete_wf)+

lemma worker_start_wf: "worker_start g s \<Longrightarrow> worker_wf g s"
  by (auto simp: worker_start_def worker_init_def Fiber_GetThis_def fiber_new_main_def thread_ctx_new_def
      fiber_world_new_def worker_wf_def Let_def outcome_simps Fiber_SetThis_def split: if_splits)

interpretation worker_safe: safe_system "worker_start g" "worker_step g" "worker_wf g"
  by unfold_locales (auto intro: worker_start_wf worker_step_wf)


section \<open>Properties\<close>

text \<open>Fiber identifiers. Whatever threads construct, destroy, reset and switch fibers in whatever
  order, the counter of fibers is the number of live ones, and as long as no more than 2^64 fibers
  have been constructed no two live fibers have the same identifier.\<close>

theorem fiber_ids_unique:
  assumes "reach fiber_op_start fiber_op (n, w)" and "n \<le> 2 ^ 64"
  shows "s_fiber_count w = of_nat (card (dom (fibers w))) \<and>
         (\<forall>p q f h. fibers w p = Some f \<and> fibers w q = Some h \<and> m_id f = m_id h \<longrightarrow> p = q)"
proof -
  from ids_safe.reach_inv [OF assms(1)] obtain g where g: "inj_on g (dom (fibers w))"
    "\<forall>p f. fibers w p = Some f \<longrightarrow> g p < n \<and> m_id f = of_nat (g p)"
    and c: "s_fiber_count w = of_nat (card (dom (fibers w)))"
    by (auto simp: ids_wf_def)
  have "p = q" if "fibers w p = Some f" "fibers w q = Some h" "m_id f = m_id h" for p q f h
  proof -
    have lt: "g p < 2 ^ LENGTH(64)" "g q < 2 ^ LENGTH(64)"
      using that(1,2) g(2) assms(2) by fastforce+
    have "(of_nat (g p) :: 64 word) = of_nat (g q)"
      using that g(2) by metis
    then have "g p = g q"
      using lt by (simp add: word_of_nat_eq_iff take_bit_nat_eq_self)
    with g(1) that(1,2) show ?thesis
      by (auto dest: inj_onD)
  qed
  with c show ?thesis by blast
qed

definition no_fail :: uc_api where
  "no_fail = \<lparr>uc_get_fails = False, uc_swap_fails = False\<rparr>"

definition sample_fiber :: "64 word \<Rightarrow> fiber_state \<Rightarrow> ucontext \<Rightarrow> 64 word \<Rightarrow> nat fiber" where
  "sample_fiber i st c stk =
     \<lparr>m_id = i, m_stacksize = 131072, m_state = st, m_ctx = c, m_stack = stk, m_fcb = Some 9,
      m_runInScheduler = True\<rparr>"

lemma sample_fiber_simps [simp]:
  "m_id (sample_fiber i st c stk) = i" "m_state (sample_fiber i st c stk) = st"
  "m_ctx (sample_fiber i st c stk) = c" "m_stack (sample_fiber i st c stk) = stk"
  "m_runInScheduler (sample_fiber i st c stk)"
  by (simp_all add: sample_fiber_def)

text \<open>A worker with its main fiber 0 and none, one or two tasks that have not started.\<close>

definition sample_world0 :: "nat fiber_world" where
  "sample_world0 =
     \<lparr>fibers = [0 \<mapsto> (sample_fiber 0 RUNNING (Ctx_At 0) 0)\<lparr>m_stacksize := 0, m_fcb := None\<rparr>],
      s_fiber_id = 1, s_fiber_count = 1\<rparr>"

definition sample_world1 :: "nat fiber_world" where
  "sample_world1 = sample_world0\<lparr>fibers := (fibers sample_world0)(1 \<mapsto> sample_fiber 1 READY Ctx_Entry 4096),
      s_fiber_id := 2, s_fiber_count := 2\<rparr>"

definition sample_world :: "nat fiber_world" where
  "sample_world = sample_world1\<lparr>fibers := (fibers sample_world1)(2 \<mapsto> sample_fiber 2 READY Ctx_Entry 8192),
      s_fiber_id := 3, s_fiber_count := 3\<rparr>"

definition sample_tc :: thread_ctx where
  "sample_tc = \<lparr>t_fiber = Some 0, t_thread_fiber = Some 0, t_scheduler_fiber = Some 0, t_exec = Some 0\<rparr>"

lemmas sample_worlds = sample_world_def sample_world1_def sample_world0_def

lemma sample_init: "worker_init no_fail 0 True 0 = Inr (sample_world0, sample_tc)"
  by (simp add: worker_init_def Fiber_GetThis_def fiber_new_main_def thread_ctx_new_def no_fail_def
      fiber_world_new_def Fiber_SetThis_def sample_tc_def sample_fiber_def sample_worlds)

lemma sample_new:
  "fiber_new no_fail 4096 1 (Some 9) 0 True sample_world0 = Inr sample_world1"
  "fiber_new no_fail 8192 2 (Some 9) 0 True sample_world1 = Inr sample_world"
  by (simp_all add: fiber_new_def no_fail_def sample_fiber_def fiber_stacksize_def g_fiber_stack_size_def
      sample_worlds)

lemma sample_free: "fibers sample_world0 1 = None" "fibers sample_world1 2 = None"
  by (simp_all add: sample_worlds)

lemma sample_fibers:
  "fibers sample_world 0 = Some ((sample_fiber 0 RUNNING (Ctx_At 0) 0)\<lparr>m_stacksize := 0, m_fcb := None\<rparr>)"
  "fibers sample_world 1 = Some (sample_fiber 1 READY Ctx_Entry 4096)"
  "fibers sample_world 2 = Some (sample_fiber 2 READY Ctx_Entry 8192)"
  by (simp_all add: sample_worlds)

lemma sample_reach: "reach (worker_start 0) (worker_step 0) (sample_world, sample_tc)"
proof -
  have "worker_start 0 (sample_world0, sample_tc)"
    unfolding worker_start_def using sample_init by blast
  then have "reach (worker_start 0) (worker_step 0) (sample_world0, sample_tc)"
    by (rule reach_start)
  moreover have "worker_step 0 (sample_world0, sample_tc) (sample_world1, sample_tc)"
    by (rule w_new [OF sample_free(1) _ sample_new(1)]) simp
  ultimately have "reach (worker_start 0) (worker_step 0) (sample_world1, sample_tc)"
    by (rule reach_step)
  moreover have "worker_step 0 (sample_world1, sample_tc) (sample_world, sample_tc)"
    by (rule w_new [OF sample_free(2) _ sample_new(2)]) simp
  ultimately show ?thesis
    by (rule reach_step)
qed

lemma sample_op_reach: "reach fiber_op_start fiber_op (Suc (Suc (Suc 0)), sample_world)"
proof -
  have "fiber_new_main no_fail 0 True 0 fiber_world_new thread_ctx_new =
      Inr (sample_world0, sample_tc\<lparr>t_thread_fiber := None, t_scheduler_fiber := None\<rparr>)"
    by (simp add: fiber_new_main_def thread_ctx_new_def no_fail_def
        fiber_world_new_def Fiber_SetThis_def sample_tc_def sample_fiber_def sample_worlds)
  then have "fiber_op (0, fiber_world_new) (Suc 0, sample_world0)"
    by (rule new_main [rotated]) (simp add: fiber_world_new_def)
  then have "reach fiber_op_start fiber_op (Suc 0, sample_world0)"
    by (rule reach_step [OF reach_start, rotated]) (simp add: fiber_op_start_def)
  then have "reach fiber_op_start fiber_op (Suc (Suc 0), sample_world1)"
    by (rule reach_step) (rule new [OF sample_free(1) sample_new(1)])
  then show ?thesis
    by (rule reach_step) (rule new [OF sample_free(2) sample_new(2)])
qed

theorem fiber_ids_unique_witness:
  "s_fiber_count sample_world = of_nat (card (dom (fibers sample_world))) \<and>
   \<not> (\<exists>p q f h. fibers sample_world p = Some f \<and> fibers sample_world q = Some h \<and> m_id f = m_id h \<and> p \<noteq> q)"
  using fiber_ids_unique [OF sample_op_reach] by auto

text \<open>C14: one runner per worker. In every state a worker reaches through the protocol of its scheduling
  fiber and its tasks, exactly one fiber executes, \<open>t_fiber\<close> names it, a task is in state
  RUNNING exactly when it is the one, and while the scheduling fiber executes, resuming any READY
  task succeeds and continues on that task's own stack.\<close>

theorem worker_single_runner:
  fixes w :: "'a fiber_world"
  assumes "reach (worker_start g) (worker_step g) (w, tc)"
  shows "\<exists>e. t_exec tc = Some e \<and> t_fiber tc = Some e \<and>
           (\<forall>p f. fibers w p = Some f \<and> p \<noteq> g \<longrightarrow> (m_state f = RUNNING \<longleftrightarrow> p = e)) \<and>
           (\<forall>p f u. e = g \<and> fibers w p = Some f \<and> m_state f = READY \<and> \<not> uc_swap_fails u \<longrightarrow>
              (\<exists>w' tc'. fiber_resume u p w tc = Inr (w', tc') \<and> t_exec tc' = Some p \<and> t_fiber tc' = Some p))"
proof (rule worker_wfE [OF worker_safe.reach_inv [OF assms]])
  fix e and fe fg :: "'a fiber"
  assume a: "t_fiber tc = Some e" "t_exec tc = Some e" "fibers w g = Some fg" "m_state fg = RUNNING"
    and t: "\<And>p f. fibers w p = Some f \<Longrightarrow> p \<noteq> g \<Longrightarrow> task_ok (Some e) p f"
  have res: "\<exists>w' tc'. fiber_resume u p w tc = Inr (w', tc') \<and> t_exec tc' = Some p \<and> t_fiber tc' = Some p"
    if "e = g \<and> fibers w p = Some f \<and> m_state f = READY \<and> \<not> uc_swap_fails u" for p f u
  proof -
    have "p \<noteq> g" using that a by auto
    with worker_resume_eq [OF worker_safe.reach_inv [OF assms], of p f u fg] that a show ?thesis by simp
  qed
  show ?thesis
    by (rule exI [of _ e]) (use a t res in \<open>auto simp: task_ok_def\<close>)
qed

theorem worker_single_runner_witness:
  "\<exists>w' tc'. fiber_resume no_fail 1 sample_world sample_tc = Inr (w', tc') \<and> t_exec tc' = Some 1"
proof -
  from worker_single_runner [OF sample_reach] obtain e where e: "t_exec sample_tc = Some e"
    and r: "\<forall>p f u. e = 0 \<and> fibers sample_world p = Some f \<and> m_state f = READY \<and> \<not> uc_swap_fails u \<longrightarrow>
      (\<exists>w' tc'. fiber_resume u p sample_world sample_tc = Inr (w', tc') \<and> t_exec tc' = Some p \<and> t_fiber tc' = Some p)"
    by blast
  have "e = 0" using e by (simp add: sample_tc_def)
  with r [rule_format, of 1 "sample_fiber 1 READY Ctx_Entry 4096" no_fail] sample_fibers(2)
  have "\<exists>w' tc'. fiber_resume no_fail 1 sample_world sample_tc = Inr (w', tc') \<and> t_exec tc' = Some 1 \<and>
      t_fiber tc' = Some 1"
    by (simp add: no_fail_def)
  then show ?thesis by blast
qed

text \<open>C13: resume and yield are inverse. A READY task that the scheduling fiber resumes and that then
  yields leaves the thread where it was: the scheduling fiber executes, the thread-local state is
  the old one, and only the two contexts changed, so that the next resume of the task continues
  after its yield.\<close>

theorem resume_yield_roundtrip:
  fixes w :: "'a fiber_world"
  assumes "reach (worker_start g) (worker_step g) (w, tc)" and "t_exec tc = Some g"
    and "fibers w p = Some f" and "m_state f = READY" and "fibers w g = Some fg" and "\<not> uc_swap_fails u"
  shows "obind (fiber_resume u p w tc) (\<lambda>(w1, tc1). fiber_yield u p w1 tc1) =
     Inr (w\<lparr>fibers := (fibers w)(g \<mapsto> fg\<lparr>m_ctx := Ctx_At g\<rparr>, p \<mapsto> f\<lparr>m_ctx := Ctx_At p\<rparr>)\<rparr>, tc)"
proof -
  note wf = worker_safe.reach_inv [OF assms(1)]
  have tc: "t_thread_fiber tc = Some g" "t_scheduler_fiber tc = Some g" "t_fiber tc = Some g"
    using wf assms(2) by (auto simp: worker_wf_def)
  have p: "p \<noteq> g" using wf assms(2-5) by (auto simp: worker_wf_def)
  have ris: "m_runInScheduler f" using wf assms(3) p by (auto simp: worker_wf_def task_ok_def)
  let ?w1 = "w\<lparr>fibers := (fibers w)(p \<mapsto> f\<lparr>m_state := RUNNING\<rparr>, g \<mapsto> fg\<lparr>m_ctx := Ctx_At g\<rparr>)\<rparr>"
  let ?tc1 = "tc\<lparr>t_fiber := Some p, t_exec := Some p\<rparr>"
  have r: "fiber_resume u p w tc = Inr (?w1, ?tc1)"
    by (rule worker_resume_eq [OF wf assms(2) p assms(3,4,6,5)])
  have y: "fiber_yield u p ?w1 ?tc1 =
      Inr (?w1\<lparr>fibers := (fibers ?w1)(p \<mapsto> f\<lparr>m_state := after_yield RUNNING, m_ctx := Ctx_At p\<rparr>)\<rparr>,
           ?tc1\<lparr>t_fiber := t_thread_fiber ?tc1, t_exec := Some g\<rparr>)"
    by (subst fiber_yield_ok [where g = g and f = "f\<lparr>m_state := RUNNING\<rparr>" and fg = "fg\<lparr>m_ctx := Ctx_At g\<rparr>"
          and e = p and e' = g])
       (use assms(6) tc p ris in \<open>auto simp: swap_partner_def ctx_target_def\<close>)
  have f_eq: "f\<lparr>m_state := after_yield RUNNING, m_ctx := Ctx_At p\<rparr> = f\<lparr>m_ctx := Ctx_At p\<rparr>"
    using assms(4) by (cases f) (simp add: after_yield_def)
  have tc_eq: "?tc1\<lparr>t_fiber := t_thread_fiber ?tc1, t_exec := Some g\<rparr> = tc"
    using tc assms(2) by (cases tc) simp
  show ?thesis
    using p by (simp add: r y f_eq tc_eq [simplified] fun_upd_twist)
qed

theorem resume_yield_roundtrip_witness:
  "obind (fiber_resume no_fail 2 sample_world sample_tc) (\<lambda>(w1, tc1). fiber_yield no_fail 2 w1 tc1) \<noteq> Inl Null_Deref"
proof -
  from resume_yield_roundtrip [OF sample_reach _ sample_fibers(3) _ sample_fibers(1), of no_fail] show ?thesis
    by (simp add: sample_tc_def no_fail_def)
qed

lemma fiber_reset_ok:
  "fibers w p = Some f \<Longrightarrow> m_stack f \<noteq> 0 \<Longrightarrow> m_state f = TERMINATED \<Longrightarrow> \<not> uc_get_fails u \<Longrightarrow>
   fiber_reset u p cb w =
     Inr (w\<lparr>fibers := (fibers w)(p \<mapsto> f\<lparr>m_fcb := cb, m_ctx := Ctx_Entry, m_state := READY\<rparr>)\<rparr>)"
  by (simp add: fiber_reset_def fiber_upd_def cong del: obind_cong)

lemma fiber_delete_task:
  "fibers w p = Some f \<Longrightarrow> m_stack f \<noteq> 0 \<Longrightarrow>
   fiber_delete p w tc =
     (if m_state f = TERMINATED then Inr (w\<lparr>s_fiber_count := s_fiber_count w - 1, fibers := (fibers w)(p := None)\<rparr>, tc)
      else Inl (Assert_Fail ''m_state != TERM''))"
  by (cases "m_state f = TERMINATED") (auto simp: fiber_delete_def Let_def cong del: obind_cong)

text \<open>A state of the sample worker in which the task 1 executes.\<close>

definition sample_running :: "nat fiber_world \<times> thread_ctx" where
  "sample_running =
     (sample_world\<lparr>fibers := (fibers sample_world)(1 \<mapsto> sample_fiber 1 RUNNING Ctx_Entry 4096)\<rparr>,
      sample_tc\<lparr>t_fiber := Some 1, t_exec := Some 1\<rparr>)"

lemma sample_running_reach: "reach (worker_start 0) (worker_step 0) sample_running"
proof -
  have "fiber_resume no_fail 1 sample_world sample_tc = Inr sample_running"
    by (simp add: fiber_resume_def sample_fibers sample_running_def swap_partner_def fiber_swap_def fiber_upd_def
        Fiber_SetThis_def sample_tc_def no_fail_def sample_fiber_def sample_worlds fun_upd_twist)
  then have "worker_step 0 (sample_world, sample_tc) sample_running"
    unfolding sample_running_def by (rule w_resume [rotated 2]) (simp_all add: sample_tc_def)
  then show ?thesis
    by (rule reach_step [OF sample_reach])
qed

text \<open>C31: the end of a task. While a task executes it can be neither reset nor destroyed. When its
  function returns, control goes back to the scheduling fiber and the task is terminated, without a
  function: resuming it again aborts, destroying it is allowed, and \<open>reset\<close> makes it a ready
  task with the new function, the same identifier and the same stack, that starts at the entry.\<close>

theorem task_end_lifecycle:
  fixes w :: "'a fiber_world"
  assumes "reach (worker_start g) (worker_step g) (w, tc)" and "t_exec tc = Some p" and "p \<noteq> g"
    and "\<not> uc_swap_fails u" and "\<not> uc_get_fails u"
  shows "\<exists>f w' tc'. fibers w p = Some f \<and>
     fiber_reset u p cb w = Inl (Assert_Fail ''reset error, m_state != TERM'') \<and>
     fiber_delete p w tc = Inl (Assert_Fail ''m_state != TERM'') \<and>
     fiber_main_end u p w tc = Inr (w', tc') \<and> t_exec tc' = Some g \<and> t_fiber tc' = Some g \<and>
     fibers w' = (fibers w)(p \<mapsto> f\<lparr>m_fcb := None, m_state := TERMINATED, m_ctx := Ctx_At p\<rparr>) \<and>
     fiber_resume u p w' tc' = Inl (Assert_Fail ''resume error'') \<and>
     (\<exists>w2. fiber_delete p w' tc' = Inr (w2, tc') \<and> fibers w2 = (fibers w)(p := None)) \<and>
     (\<exists>w2. fiber_reset u p cb w' = Inr w2 \<and>
        fibers w2 = (fibers w)(p \<mapsto> f\<lparr>m_fcb := cb, m_state := READY, m_ctx := Ctx_Entry\<rparr>))"
proof -
  note wf = worker_safe.reach_inv [OF assms(1)]
  obtain f fg where f: "fibers w p = Some f" "m_state f = RUNNING" "m_runInScheduler f" "m_stack f \<noteq> 0"
    and g: "fibers w g = Some fg" "m_ctx fg = Ctx_At g"
    using worker_task [OF wf assms(2,3)] .
  have tc: "t_thread_fiber tc = Some g" "t_scheduler_fiber tc = Some g"
    using wf by (auto simp: worker_wf_def)
  let ?f = "f\<lparr>m_fcb := None, m_state := TERMINATED\<rparr>"
  let ?w = "w\<lparr>fibers := (fibers w)(p \<mapsto> ?f)\<rparr>"
  let ?w' = "?w\<lparr>fibers := (fibers ?w)(p \<mapsto> ?f\<lparr>m_state := after_yield TERMINATED, m_ctx := Ctx_At p\<rparr>)\<rparr>"
  let ?tc' = "tc\<lparr>t_fiber := t_thread_fiber tc, t_exec := Some g\<rparr>"
  have "fiber_yield u p ?w tc = Inr (?w', ?tc')"
    by (subst fiber_yield_ok [where g = g and f = ?f and fg = fg and e = p and e' = g])
       (use assms f g tc in \<open>auto simp: swap_partner_def ctx_target_def\<close>)
  then have e: "fiber_main_end u p w tc = Inr (?w', ?tc')"
    by (simp add: fiber_main_end_def f fiber_upd_Some)
  have "fiber_reset u p cb w = Inl (Assert_Fail ''reset error, m_state != TERM'')"
    "fiber_delete p w tc = Inl (Assert_Fail ''m_state != TERM'')"
    by (simp_all add: fiber_reset_def fiber_delete_def f)
  moreover have "fiber_resume u p ?w' ?tc' = Inl (Assert_Fail ''resume error'')"
    by (simp add: fiber_resume_def after_yield_def)
  moreover have "\<exists>w2. fiber_delete p ?w' ?tc' = Inr (w2, ?tc') \<and> fibers w2 = (fibers w)(p := None)"
    by (subst fiber_delete_task, simp, simp add: f) (simp add: after_yield_def)
  moreover have "\<exists>w2. fiber_reset u p cb ?w' = Inr w2 \<and>
        fibers w2 = (fibers w)(p \<mapsto> f\<lparr>m_fcb := cb, m_state := READY, m_ctx := Ctx_Entry\<rparr>)"
    by (subst fiber_reset_ok [where u = u], simp, simp add: f, simp add: after_yield_def, rule assms(5))
       (cases f, simp)
  moreover have "fibers ?w' = (fibers w)(p \<mapsto> f\<lparr>m_fcb := None, m_state := TERMINATED, m_ctx := Ctx_At p\<rparr>)"
    by (simp add: after_yield_def)
  moreover have "t_exec ?tc' = Some g" "t_fiber ?tc' = Some g" by (simp_all add: tc)
  ultimately show ?thesis
    using f(1) e by blast
qed

theorem task_end_lifecycle_witness:
  "\<exists>w' tc'. fiber_main_end no_fail 1 (fst sample_running) (snd sample_running) = Inr (w', tc') \<and>
     t_exec tc' = Some 0 \<and> fiber_resume no_fail 1 w' tc' = Inl (Assert_Fail ''resume error'')"
proof -
  have "reach (worker_start 0) (worker_step 0) (fst sample_running, snd sample_running)"
    using sample_running_reach by simp
  from task_end_lifecycle [OF this, of 1 no_fail None] show ?thesis
    by (fastforce simp: sample_running_def no_fail_def)
qed

text \<open>Coroutines are asymmetric only. If a task that executes resumes another ready task, the
  switch succeeds, but it overwrites the context of the scheduling fiber with the task's own: when
  the inner task yields, control is in the outer task while \<open>t_fiber\<close> says the scheduling
  fiber, and the outer task's own yield continues the outer task itself. The scheduling fiber is never continued.\<close>

theorem nested_resume_loses_scheduler:
  fixes w :: "'a fiber_world"
  assumes "reach (worker_start g) (worker_step g) (w, tc)" and "t_exec tc = Some p" and "p \<noteq> g"
    and "fibers w q = Some h" and "m_state h = READY" and "q \<noteq> g" and "\<not> uc_swap_fails u"
  shows "\<exists>w1 tc1 w2 tc2 w3 tc3.
     fiber_resume u q w tc = Inr (w1, tc1) \<and> t_exec tc1 = Some q \<and>
     fiber_yield u q w1 tc1 = Inr (w2, tc2) \<and> t_exec tc2 = Some p \<and> t_fiber tc2 = Some g \<and>
     fiber_yield u p w2 tc2 = Inr (w3, tc3) \<and> t_exec tc3 = Some p"
proof -
  note wf = worker_safe.reach_inv [OF assms(1)]
  obtain f fg where f: "fibers w p = Some f" "m_state f = RUNNING" "m_runInScheduler f"
    and g: "fibers w g = Some fg"
    using worker_task [OF wf assms(2,3)] .
  have tc: "t_thread_fiber tc = Some g" "t_scheduler_fiber tc = Some g"
    using wf by (auto simp: worker_wf_def)
  have h: "m_runInScheduler h" "ctx_target q h = Some q"
    using wf assms(4-6) by (auto simp: worker_wf_def task_ok_def)
  have ne: "p \<noteq> q" using f assms(4,5) by auto
  let ?w1 = "w\<lparr>fibers := (fibers w)(q \<mapsto> h\<lparr>m_state := RUNNING\<rparr>, g \<mapsto> fg\<lparr>m_ctx := Ctx_At p\<rparr>)\<rparr>"
  let ?tc1 = "tc\<lparr>t_fiber := Some q, t_exec := Some q\<rparr>"
  have 1: "fiber_resume u q w tc = Inr (?w1, ?tc1)"
    by (rule fiber_resume_ok) (use assms h g tc in \<open>auto simp: swap_partner_def\<close>)
  let ?w2 = "?w1\<lparr>fibers := (fibers ?w1)(q \<mapsto> h\<lparr>m_state := after_yield RUNNING, m_ctx := Ctx_At q\<rparr>)\<rparr>"
  let ?tc2 = "?tc1\<lparr>t_fiber := t_thread_fiber ?tc1, t_exec := Some p\<rparr>"
  have 2: "fiber_yield u q ?w1 ?tc1 = Inr (?w2, ?tc2)"
    by (subst fiber_yield_ok [where g = g and f = "h\<lparr>m_state := RUNNING\<rparr>" and fg = "fg\<lparr>m_ctx := Ctx_At p\<rparr>"
          and e = q and e' = p])
       (use assms h tc in \<open>auto simp: swap_partner_def ctx_target_def\<close>)
  let ?w3 = "?w2\<lparr>fibers := (fibers ?w2)(p \<mapsto> f\<lparr>m_state := after_yield RUNNING, m_ctx := Ctx_At p\<rparr>)\<rparr>"
  let ?tc3 = "?tc2\<lparr>t_fiber := t_thread_fiber ?tc2, t_exec := Some p\<rparr>"
  have 3: "fiber_yield u p ?w2 ?tc2 = Inr (?w3, ?tc3)"
    by (subst fiber_yield_ok [where g = g and f = f and fg = "fg\<lparr>m_ctx := Ctx_At p\<rparr>" and e = p and e' = p])
       (use assms f tc ne in \<open>auto simp: swap_partner_def ctx_target_def\<close>)
  from 1 2 3 tc show ?thesis by simp
qed

theorem nested_resume_loses_scheduler_witness:
  "\<exists>w1 tc1. fiber_resume no_fail 2 (fst sample_running) (snd sample_running) = Inr (w1, tc1) \<and> t_exec tc1 = Some 2"
proof -
  have "reach (worker_start 0) (worker_step 0) (fst sample_running, snd sample_running)"
    using sample_running_reach by simp
  from nested_resume_loses_scheduler [OF this, of 1 2 "sample_fiber 2 READY Ctx_Entry 8192" no_fail] show ?thesis
    by (fastforce simp: sample_running_def no_fail_def sample_worlds)
qed

text \<open>The main fiber. The constructor of a main fiber leaves \<open>m_stack\<close> uninitialised, and
  the destructor tells a main fiber by that member: destroying the main fiber of a fresh thread
  works exactly when the memory happened to hold a null pointer, and aborts the process for every
  other content.\<close>

theorem main_fiber_uninitialised:
  fixes w :: "'a fiber_world"
  assumes "worker_init u junk_stack junk_flag g = Inr (w, tc)"
  shows "fiber_delete g w tc =
     (if junk_stack = 0 then Inr (fiber_world_new\<lparr>s_fiber_id := 1\<rparr>, tc\<lparr>t_fiber := None\<rparr>)
      else Inl (Assert_Fail ''m_state != TERM''))"
proof -
  let ?f = "\<lparr>m_id = 0, m_stacksize = 0, m_state = RUNNING, m_ctx = Ctx_At g,
                m_stack = junk_stack, m_fcb = None, m_runInScheduler = junk_flag\<rparr> :: 'a fiber"
  from assms have w: "w = \<lparr>fibers = [g \<mapsto> ?f], s_fiber_id = 1, s_fiber_count = 1\<rparr>" and tc: "t_fiber tc = Some g"
    by (auto simp: worker_init_def Fiber_GetThis_def fiber_new_main_def thread_ctx_new_def
      fiber_world_new_def Let_def outcome_simps Fiber_SetThis_def split: if_splits)
  show ?thesis
    by (cases "junk_stack = 0")
       (auto simp: w tc fiber_delete_def fiber_world_new_def Fiber_SetThis_def Let_def cong del: obind_cong)
qed

theorem main_fiber_uninitialised_witness:
  "fiber_delete 0 sample_world0 sample_tc = Inr (fiber_world_new\<lparr>s_fiber_id := 1\<rparr>, sample_tc\<lparr>t_fiber := None\<rparr>)"
  using main_fiber_uninitialised [OF sample_init] by simp

text \<open>The stack size. The size asked for is a 64-bit number and the size kept, allocated and given to
  the context is its low 32 bits (128 KiB for 0): it is the size asked for exactly when that is
  below 2^32, and asking for a multiple of 2^32 makes a stack of size 0.\<close>

theorem fiber_stack_size_kept:
  assumes "fiber_new u st p cb sz ris w = Inr w'"
  shows "\<exists>f. fibers w' p = Some f \<and> m_stack f = st \<and>
     unat (m_stacksize f) = (if sz = 0 then 131072 else unat sz mod 2 ^ 32) \<and>
     (sz \<noteq> 0 \<longrightarrow> (unat (m_stacksize f) = unat sz \<longleftrightarrow> unat sz < 2 ^ 32))"
proof -
  from assms obtain f where f: "fibers w' p = Some f" "m_stack f = st" "m_stacksize f = fiber_stacksize sz"
    by (auto simp: fiber_new_def split: if_splits)
  have 1: "unat (fiber_stacksize sz) = (if sz = 0 then 131072 else unat sz mod 2 ^ 32)"
    by (simp add: fiber_stacksize_def g_fiber_stack_size_def unsigned_ucast_eq take_bit_eq_mod)
  then have "sz \<noteq> 0 \<longrightarrow> (unat (fiber_stacksize sz) = unat sz \<longleftrightarrow> unat sz < 2 ^ 32)"
    by (metis mod_less mod_less_divisor zero_less_numeral zero_less_power)
  with 1 f show ?thesis by simp
qed

theorem fiber_stack_size_kept_witness:
  "\<exists>f. fibers sample_world1 1 = Some f \<and> unat (m_stacksize f) = 131072"
  using fiber_stack_size_kept [OF sample_new(1)] by auto

end
