(* ===== verification/Scheduler.thy ===== *)
theory Scheduler
  imports Fiber
begin

text \<open>
  Scheduler.h and Scheduler.cpp, the part one thread executes: the task queue, construction, start,
  stop, and one turn of the dispatch loop \<open>run\<close> cut at its context switches (look for a task,
  dispatch it, what is done when the resumed fiber has given control back). The interleaving of
  several workers is in Scheduler_Concurrent. A thread identifier is a number;
  \<open>std::thread::id(-1)\<close>, which no thread has, is \<open>None\<close>.
\<close>

section \<open>Tasks\<close>

text \<open>The closures the scheduler creates itself, and those of its users.\<close>

datatype 'u sched_fn = Run_Loop | Idle_Loop | User_Fn 'u

record 'u sched_task =
  tk_fiber :: "nat option"
  tk_cb :: "'u sched_fn option"
  tk_thread :: "nat option"

definition task_of_fiber :: "nat option \<Rightarrow> nat option \<Rightarrow> 'u sched_task" where
  "task_of_fiber f thr = \<lparr>tk_fiber = f, tk_cb = None, tk_thread = thr\<rparr>"

text \<open>The constructor from a pointer to a smart pointer takes the fiber out of it.\<close>

definition task_of_fiber_ptr :: "nat option \<Rightarrow> nat option \<Rightarrow> 'u sched_task \<times> nat option" where
  "task_of_fiber_ptr f thr = (\<lparr>tk_fiber = f, tk_cb = None, tk_thread = thr\<rparr>, None)"

definition task_of_cb :: "'u sched_fn option \<Rightarrow> nat option \<Rightarrow> 'u sched_task" where
  "task_of_cb cb thr = \<lparr>tk_fiber = None, tk_cb = cb, tk_thread = thr\<rparr>"

definition task_reset :: "'u sched_task" where
  "task_reset = \<lparr>tk_fiber = None, tk_cb = None, tk_thread = None\<rparr>"

definition task_empty :: "'u sched_task \<Rightarrow> bool" where
  "task_empty t \<longleftrightarrow> \<not> (tk_fiber t \<noteq> None \<or> tk_cb t \<noteq> None)"

lemma task_simps [simp]:
  "tk_fiber (task_of_fiber f thr) = f" "tk_cb (task_of_fiber f thr) = None"
  "tk_thread (task_of_fiber f thr) = thr"
  "tk_fiber (task_of_cb cb thr) = None" "tk_cb (task_of_cb cb thr) = cb" "tk_thread (task_of_cb cb thr) = thr"
  "task_empty (task_of_fiber f thr) \<longleftrightarrow> f = None" "task_empty (task_of_cb cb thr) \<longleftrightarrow> cb = None"
  by (simp_all add: task_of_fiber_def task_of_cb_def task_empty_def)

section \<open>The scheduler object\<close>

record 'u scheduler =
  m_name :: string
  m_threads :: "nat list"
  m_tasks :: "'u sched_task list"
  m_threadIds :: "nat list"
  m_threadCount :: "64 word"
  m_activeThreadCount :: "64 word"
  m_idleThreadCount :: "64 word"
  m_useCaller :: bool
  m_rootFiber :: "nat option"
  m_rootThread :: "nat option"
  m_stopping :: bool

text \<open>\<open>scheduleNoLock\<close>; \<open>schedule\<close> calls \<open>tickle\<close> when the first component is true.\<close>

definition schedule_no_lock :: "'u sched_task \<Rightarrow> 'u scheduler \<Rightarrow> bool \<times> 'u scheduler" where
  "schedule_no_lock task s =
     (let need_tickle = (m_tasks s = [])
      in (need_tickle, if \<not> task_empty task then s\<lparr>m_tasks := m_tasks s @ [task]\<rparr> else s))"

definition schedule :: "'u sched_task \<Rightarrow> 'u scheduler \<Rightarrow> bool \<times> 'u scheduler" where
  "schedule task s = schedule_no_lock task s"

definition hasIdleThreads :: "'u scheduler \<Rightarrow> bool" where
  "hasIdleThreads s \<longleftrightarrow> m_idleThreadCount s > 0"

definition scheduler_stopping :: "'u scheduler \<Rightarrow> bool" where
  "scheduler_stopping s \<longleftrightarrow> m_stopping s \<and> m_tasks s = [] \<and> m_activeThreadCount s = 0"

text \<open>
  The constructor, on the thread \<open>me\<close>. \<open>this\<close> is the scheduler, \<open>cur\<close> the thread's
  \<open>t_scheduler\<close>; the last four arguments of the first row are what a main fiber and a stack
  need from the environment, \<open>gp\<close> and \<open>rp\<close> where the two fibers are allocated.
\<close>

definition scheduler_new ::
  "uc_api \<Rightarrow> 64 word \<Rightarrow> bool \<Rightarrow> 64 word \<Rightarrow> nat \<Rightarrow> nat \<Rightarrow> 64 word \<Rightarrow> bool \<Rightarrow> string \<Rightarrow> nat \<Rightarrow> nat
   \<Rightarrow> nat option \<Rightarrow> 'u sched_fn fiber_world \<Rightarrow> thread_ctx
   \<Rightarrow> ('u scheduler \<times> nat option \<times> 'u sched_fn fiber_world \<times> thread_ctx) outcome" where
  "scheduler_new u junk_stack junk_flag stack gp rp threads use_caller name this me cur w tc =
     obind (MYASSERT (threads > 0) ''threads > 0'') (\<lambda>_.
       let s0 = \<lparr>m_name = name, m_threads = [], m_tasks = [], m_threadIds = [], m_threadCount = 0,
                 m_activeThreadCount = 0, m_idleThreadCount = 0, m_useCaller = use_caller,
                 m_rootFiber = None, m_rootThread = None, m_stopping = False\<rparr>
       in if use_caller then
            obind (Fiber_GetThis u junk_stack junk_flag gp w tc) (\<lambda>(_, w1, tc1).
            obind (MYASSERT (cur = None) ''this->GetThis() == nullptr'') (\<lambda>_.
            obind (fiber_new u stack rp (Some Run_Loop) 0 False w1) (\<lambda>w2.
              Inr (s0\<lparr>m_rootFiber := Some rp, m_rootThread := Some me,
                      m_threadIds := m_threadIds s0 @ [me], m_threadCount := threads - 1\<rparr>,
                   Some this, w2, tc1\<lparr>t_scheduler_fiber := Some rp\<rparr>))))
          else Inr (s0\<lparr>m_rootThread := None, m_threadCount := threads\<rparr>, cur, w, tc))"

definition scheduler_delete :: "nat \<Rightarrow> nat option \<Rightarrow> 'u scheduler \<Rightarrow> nat option outcome" where
  "scheduler_delete this cur s =
     obind (MYASSERT (m_stopping s) ''this->m_stopping'') (\<lambda>_.
       Inr (if cur = Some this then None else cur))"

text \<open>\<open>start\<close>; \<open>new_id i\<close> is the identifier of the i-th thread created, each executes \<open>run\<close>.\<close>

definition scheduler_start :: "(nat \<Rightarrow> nat) \<Rightarrow> 'u scheduler \<Rightarrow> 'u scheduler outcome" where
  "scheduler_start new_id s =
     (if m_stopping s then Inr s
      else obind (MYASSERT (m_threads s = []) ''m_threads is not empty'') (\<lambda>_.
        let ids = map new_id [0..<unat (m_threadCount s)]
        in Inr (s\<lparr>m_threads := ids, m_threadIds := m_threadIds s @ ids\<rparr>)))"

text \<open>
  \<open>stop\<close> up to the switch to the root fiber. The result says whether it returned at once; the
  number is how often \<open>tickle\<close> is called on the way.
\<close>

definition scheduler_stop ::
  "uc_api \<Rightarrow> nat \<Rightarrow> nat option \<Rightarrow> 'u scheduler \<Rightarrow> 'u sched_fn fiber_world \<Rightarrow> thread_ctx
   \<Rightarrow> (bool \<times> nat \<times> 'u scheduler \<times> 'u sched_fn fiber_world \<times> thread_ctx) outcome" where
  "scheduler_stop u this cur s w tc =
     (if scheduler_stopping s then Inr (True, 0, s, w, tc)
      else
        let s1 = s\<lparr>m_stopping := True\<rparr>
        in obind (if m_useCaller s1 then MYASSERT (cur = Some this) ''only scheduler could stop''
                  else MYASSERT (cur \<noteq> Some this) ''only scheduler could stop'') (\<lambda>_.
           case m_rootFiber s1 of
             Some r \<Rightarrow>
               obind (fiber_resume u r w tc) (\<lambda>(w1, tc1). Inr (False, Suc (unat (m_threadCount s1)), s1, w1, tc1))
           | None \<Rightarrow> Inr (False, unat (m_threadCount s1), s1, w, tc)))"

text \<open>\<open>stop\<close> after the root fiber has given control back: the threads that are joined.\<close>

definition scheduler_stop_join :: "'u scheduler \<Rightarrow> nat list \<times> 'u scheduler" where
  "scheduler_stop_join s = (m_threads s, s\<lparr>m_threads := []\<rparr>)"

section \<open>One turn of \<open>run\<close>\<close>

text \<open>The local variables of \<open>run\<close> that live across turns.\<close>

record run_locals =
  idle_fiber :: nat
  cb_fiber :: "nat option"

text \<open>The prologue of \<open>run\<close>; its first result is the thread's \<open>t_scheduler\<close>.\<close>

definition run_begin ::
  "uc_api \<Rightarrow> 64 word \<Rightarrow> bool \<Rightarrow> 64 word \<Rightarrow> nat \<Rightarrow> nat \<Rightarrow> nat \<Rightarrow> nat \<Rightarrow> 'u scheduler \<Rightarrow> 'u sched_fn fiber_world
   \<Rightarrow> thread_ctx \<Rightarrow> (nat option \<times> run_locals \<times> 'u sched_fn fiber_world \<times> thread_ctx) outcome" where
  "run_begin u junk_stack junk_flag stack gp ip this me s w tc =
     obind (if Some me \<noteq> m_rootThread s then
              obind (Fiber_GetThis u junk_stack junk_flag gp w tc) (\<lambda>(q, w1, tc1).
                Inr (w1, tc1\<lparr>t_scheduler_fiber := Some q\<rparr>))
            else Inr (w, tc)) (\<lambda>(w1, tc1).
     obind (fiber_new u stack ip (Some Idle_Loop) 0 True w1) (\<lambda>w2.
       Inr (Some this, \<lparr>idle_fiber = ip, cb_fiber = None\<rparr>, w2, tc1)))"

text \<open>
  The search under the lock: tasks pinned to another thread are passed over (and somebody has to be
  woken up), tasks whose fiber still runs are passed over, the first other task is taken.
\<close>

fun run_scan :: "(nat \<Rightarrow> bool) \<Rightarrow> nat \<Rightarrow> 'u sched_task list \<Rightarrow> 'u sched_task option \<times> bool \<times> 'u sched_task list" where
  "run_scan running me [] = (None, False, [])"
| "run_scan running me (t # ts) =
     (if tk_thread t \<noteq> None \<and> tk_thread t \<noteq> Some me then
        (case run_scan running me ts of (r, tickle_me, rest) \<Rightarrow> (r, True, t # rest))
      else if (case tk_fiber t of Some f \<Rightarrow> running f | None \<Rightarrow> False) then
        (case run_scan running me ts of (r, tickle_me, rest) \<Rightarrow> (r, tickle_me, t # rest))
      else (Some t, ts \<noteq> [], ts))"

definition run_lookup ::
  "(nat \<Rightarrow> bool) \<Rightarrow> nat \<Rightarrow> 'u scheduler \<Rightarrow> 'u sched_task option \<times> bool \<times> 'u scheduler" where
  "run_lookup running me s =
     (case run_scan running me (m_tasks s) of (r, tickle_me, rest) \<Rightarrow>
        (r, tickle_me,
         case r of None \<Rightarrow> s
         | Some _ \<Rightarrow> s\<lparr>m_tasks := rest, m_activeThreadCount := m_activeThreadCount s + 1\<rparr>))"

definition fiber_running :: "'cb fiber_world \<Rightarrow> nat \<Rightarrow> bool" where
  "fiber_running w f \<longleftrightarrow> (case fibers w f of Some x \<Rightarrow> m_state x = RUNNING | None \<Rightarrow> False)"

text \<open>What the thread does when the fiber it resumed gives control back.\<close>

datatype run_after = After_Fiber nat | After_Cb | After_Idle

text \<open>
  The dispatch. \<open>np\<close> and \<open>stack\<close> are where a fiber for a callback would be allocated. No
  result means that \<open>run\<close> leaves its loop.
\<close>

definition run_dispatch ::
  "uc_api \<Rightarrow> 64 word \<Rightarrow> nat \<Rightarrow> 'u sched_task \<Rightarrow> run_locals \<Rightarrow> 'u scheduler \<Rightarrow> 'u sched_fn fiber_world \<Rightarrow> thread_ctx
   \<Rightarrow> (run_after option \<times> run_locals \<times> 'u scheduler \<times> 'u sched_fn fiber_world \<times> thread_ctx) outcome" where
  "run_dispatch u stack np task l s w tc =
     (case tk_fiber task of
        Some f \<Rightarrow>
          obind (fiber_resume u f w tc) (\<lambda>(w1, tc1). Inr (Some (After_Fiber f), l, s, w1, tc1))
      | None \<Rightarrow>
         (case tk_cb task of
            Some cb \<Rightarrow>
              obind (case cb_fiber l of
                       Some c \<Rightarrow> obind (fiber_reset u c (Some cb) w) (\<lambda>w1. Inr (c, w1))
                     | None \<Rightarrow> obind (fiber_new u stack np (Some cb) 0 True w) (\<lambda>w1. Inr (np, w1))) (\<lambda>(c, w1).
              obind (fiber_resume u c w1 tc) (\<lambda>(w2, tc2).
                Inr (Some After_Cb, l\<lparr>cb_fiber := Some c\<rparr>, s, w2, tc2)))
          | None \<Rightarrow>
              obind (deref (fibers w) (idle_fiber l)) (\<lambda>i.
                if m_state i = TERMINATED then Inr (None, l, s, w, tc)
                else
                  obind (fiber_resume u (idle_fiber l) w tc) (\<lambda>(w1, tc1).
                    Inr (Some After_Idle, l, s\<lparr>m_idleThreadCount := m_idleThreadCount s + 1\<rparr>, w1, tc1)))))"

text \<open>
  \<open>MainFunc\<close> keeps a smart pointer \<open>cur\<close> to its fiber on the fiber's own stack, from its first
  statement (\<open>GetThis\<close>) until the function it called has returned. A fiber that was resumed at
  least once and has not ended holds itself: it executes, or it is suspended inside \<open>MainFunc\<close>.
\<close>

definition main_func_holds :: "'cb fiber_world \<Rightarrow> nat \<Rightarrow> bool" where
  "main_func_holds w p =
     (case fibers w p of
        None \<Rightarrow> False
      | Some f \<Rightarrow>
          (case m_state f of
             RUNNING \<Rightarrow> True
           | READY \<Rightarrow> (case m_ctx f of Ctx_At _ \<Rightarrow> True | _ \<Rightarrow> False)
           | TERMINATED \<Rightarrow> False))"

text \<open>
  Dropping a smart pointer to a fiber destroys it unless somebody else owns it too: an event context,
  a timer callback or a queued task (\<open>owned\<close> says whether that is so), or the fiber itself.
\<close>

definition fiber_release ::
  "(nat \<Rightarrow> bool) \<Rightarrow> nat \<Rightarrow> 'cb fiber_world \<Rightarrow> thread_ctx \<Rightarrow> ('cb fiber_world \<times> thread_ctx) outcome" where
  "fiber_release owned p w tc =
     (if owned p \<or> main_func_holds w p then Inr (w, tc) else fiber_delete p w tc)"

definition run_return ::
  "(nat \<Rightarrow> bool) \<Rightarrow> run_after \<Rightarrow> run_locals \<Rightarrow> 'u scheduler \<Rightarrow> 'u sched_fn fiber_world \<Rightarrow> thread_ctx
   \<Rightarrow> (run_locals \<times> 'u scheduler \<times> 'u sched_fn fiber_world \<times> thread_ctx) outcome" where
  "run_return owned a l s w tc =
     (case a of
        After_Fiber f \<Rightarrow>
          obind (fiber_release owned f w tc) (\<lambda>(w1, tc1).
            Inr (l, s\<lparr>m_activeThreadCount := m_activeThreadCount s - 1\<rparr>, w1, tc1))
      | After_Cb \<Rightarrow>
         (case cb_fiber l of
            None \<Rightarrow> Inr (l, s\<lparr>m_activeThreadCount := m_activeThreadCount s - 1\<rparr>, w, tc)
          | Some c \<Rightarrow>
              obind (fiber_release owned c w tc) (\<lambda>(w1, tc1).
                Inr (l\<lparr>cb_fiber := None\<rparr>, s\<lparr>m_activeThreadCount := m_activeThreadCount s - 1\<rparr>, w1, tc1)))
      | After_Idle \<Rightarrow> Inr (l, s\<lparr>m_idleThreadCount := m_idleThreadCount s - 1\<rparr>, w, tc))"

text \<open>\<open>Scheduler::idle\<close> between two switches: yield again, or return (which ends the idle fiber).\<close>

definition scheduler_idle_turn ::
  "uc_api \<Rightarrow> nat \<Rightarrow> 'u scheduler \<Rightarrow> 'u sched_fn fiber_world \<Rightarrow> thread_ctx
   \<Rightarrow> ('u sched_fn fiber_world \<times> thread_ctx) outcome" where
  "scheduler_idle_turn u cur s w tc =
     (if \<not> scheduler_stopping s then
        (case t_fiber tc of None \<Rightarrow> Inl Null_Deref | Some q \<Rightarrow> fiber_yield u q w tc)
      else fiber_main_end u cur w tc)"


section \<open>The task queue as an interface\<close>

text \<open>
  What the users of the scheduler (hooks, event triggering, the idle loop of the I/O manager) rely on:
  scheduling appends the task, unless it is empty.
\<close>

locale task_queue =
  fixes enq :: "'u sched_task \<Rightarrow> 's \<Rightarrow> 's"
    and pending :: "'s \<Rightarrow> 'u sched_task list"
  assumes pending_enq: "pending (enq t s) = pending s @ (if task_empty t then [] else [t])"
begin

text \<open>\<open>for(const auto &cb : cbs) schedule(cb)\<close>.\<close>

lemma pending_fold: "pending (fold enq ts s) = pending s @ filter (\<lambda>t. \<not> task_empty t) ts"
  by (induction ts arbitrary: s) (simp_all add: pending_enq)

lemma pending_mset:
  "mset (pending (fold enq ts s)) = mset (pending s) + mset (filter (\<lambda>t. \<not> task_empty t) ts)"
  by (simp add: pending_fold)

lemma pending_monotone: "t \<in> set (pending s) \<Longrightarrow> t \<in> set (pending (fold enq ts s))"
  by (simp add: pending_fold)

end

interpretation sq: task_queue "\<lambda>t s. snd (schedule t s)" m_tasks
  by unfold_locales (simp add: schedule_def schedule_no_lock_def Let_def)

lemma schedule_simps [simp]:
  "m_stopping (snd (schedule t s)) = m_stopping s"
  "m_activeThreadCount (snd (schedule t s)) = m_activeThreadCount s"
  "m_idleThreadCount (snd (schedule t s)) = m_idleThreadCount s"
  "m_tasks (snd (schedule t s)) = m_tasks s @ (if task_empty t then [] else [t])"
  "fst (schedule t s) \<longleftrightarrow> m_tasks s = []"
  by (simp_all add: schedule_def schedule_no_lock_def Let_def)

section \<open>What the search finds\<close>

definition pinned_elsewhere :: "nat \<Rightarrow> 'u sched_task \<Rightarrow> bool" where
  "pinned_elsewhere me t \<longleftrightarrow> tk_thread t \<noteq> None \<and> tk_thread t \<noteq> Some me"

definition eligible :: "(nat \<Rightarrow> bool) \<Rightarrow> nat \<Rightarrow> 'u sched_task \<Rightarrow> bool" where
  "eligible running me t \<longleftrightarrow> \<not> pinned_elsewhere me t \<and>
     \<not> (case tk_fiber t of Some f \<Rightarrow> running f | None \<Rightarrow> False)"

lemma run_scan_eq:
  "run_scan running me ts =
     (List.find (eligible running me) ts,
      (\<exists>x\<in>set (takeWhile (\<lambda>t. \<not> eligible running me t) ts). pinned_elsewhere me x) \<or>
        1 < length (dropWhile (\<lambda>t. \<not> eligible running me t) ts),
      takeWhile (\<lambda>t. \<not> eligible running me t) ts @ drop 1 (dropWhile (\<lambda>t. \<not> eligible running me t) ts))"
  by (induction ts) (auto simp: eligible_def pinned_elsewhere_def)

lemma find_split:
  "List.find P ts = Some t \<Longrightarrow> \<exists>pre post. ts = pre @ t # post \<and> P t \<and> (\<forall>x\<in>set pre. \<not> P x)"
proof (induction ts)
  case (Cons a ts)
  show ?case
  proof (cases "P a")
    case True
    with Cons.prems show ?thesis by (intro exI [of _ "[]"] exI [of _ ts]) auto
  next
    case False
    with Cons obtain pre post where "ts = pre @ t # post" "P t" "\<forall>x\<in>set pre. \<not> P x"
      by auto
    with False show ?thesis by (intro exI [of _ "a # pre"] exI [of _ post]) auto
  qed
qed simp

lemma run_scan_Some:
  assumes "run_scan running me ts = (Some t, k, rest)"
  obtains pre post where "ts = pre @ t # post" and "rest = pre @ post" and "eligible running me t"
    and "\<forall>x\<in>set pre. \<not> eligible running me x"
proof -
  from assms have "List.find (eligible running me) ts = Some t" by (simp add: run_scan_eq)
  then obtain pre post where s: "ts = pre @ t # post" "eligible running me t" "\<forall>x\<in>set pre. \<not> eligible running me x"
    using find_split by metis
  with assms have "rest = pre @ post"
    by (auto simp: run_scan_eq takeWhile_append dropWhile_append)
  with s that show thesis by blast
qed

lemma run_scan_None:
  "run_scan running me ts = (None, k, rest) \<Longrightarrow> rest = ts \<and> (\<forall>x\<in>set ts. \<not> eligible running me x)"
proof -
  assume a: "run_scan running me ts = (None, k, rest)"
  then have none: "\<forall>x\<in>set ts. \<not> eligible running me x"
    by (simp add: run_scan_eq find_None_iff)
  then have "takeWhile (\<lambda>t. \<not> eligible running me t) ts = ts" "dropWhile (\<lambda>t. \<not> eligible running me t) ts = []"
    by (simp_all add: takeWhile_eq_all_conv)
  with a none show ?thesis by (simp add: run_scan_eq)
qed


section \<open>Properties\<close>

definition caller_scheduler :: "'u sched_task list \<Rightarrow> 'u scheduler" where
  "caller_scheduler ts =
     \<lparr>m_name = ''scheduler'', m_threads = [1], m_tasks = ts, m_threadIds = [0, 1], m_threadCount = 1,
      m_activeThreadCount = 0, m_idleThreadCount = 0, m_useCaller = True, m_rootFiber = Some 7,
      m_rootThread = Some 0, m_stopping = False\<rparr>"

abbreviation sample_scheduler :: "nat sched_task list \<Rightarrow> nat scheduler" where
  "sample_scheduler \<equiv> caller_scheduler"

text \<open>C23: the search of a worker. It takes the first task of the queue that is neither pinned to another
  thread nor a fiber that still runs, removes exactly that one, keeps the order of the others and
  counts itself as active; when there is none the scheduler is unchanged. Other workers are woken
  exactly when a task remains behind the one taken or a task pinned elsewhere was passed over.\<close>

theorem run_lookup_first_eligible:
  assumes "run_lookup running me s = (r, tickle_me, s')"
  shows "case r of
      None \<Rightarrow> s' = s \<and> (\<forall>x\<in>set (m_tasks s). \<not> eligible running me x) \<and>
        (tickle_me \<longleftrightarrow> (\<exists>x\<in>set (m_tasks s). pinned_elsewhere me x))
    | Some t \<Rightarrow> \<exists>pre post. m_tasks s = pre @ t # post \<and> eligible running me t \<and>
        (\<forall>x\<in>set pre. \<not> eligible running me x) \<and>
        s' = s\<lparr>m_tasks := pre @ post, m_activeThreadCount := m_activeThreadCount s + 1\<rparr> \<and>
        (tickle_me \<longleftrightarrow> post \<noteq> [] \<or> (\<exists>x\<in>set pre. pinned_elsewhere me x))"
proof -
  obtain rest where scan: "run_scan running me (m_tasks s) = (r, tickle_me, rest)"
    and s': "s' = (case r of None \<Rightarrow> s
         | Some _ \<Rightarrow> s\<lparr>m_tasks := rest, m_activeThreadCount := m_activeThreadCount s + 1\<rparr>)"
    using assms by (auto simp: run_lookup_def split: prod.splits)
  show ?thesis
  proof (cases r)
    case None
    with scan have "\<forall>x\<in>set (m_tasks s). \<not> eligible running me x" using run_scan_None by blast
    with scan None s' show ?thesis
      by (simp add: run_scan_eq takeWhile_eq_all_conv [THEN iffD2] dropWhile_eq_Nil_conv [THEN iffD2] eq_commute)
  next
    case (Some t)
    with scan obtain pre post where p: "m_tasks s = pre @ t # post" "rest = pre @ post" "eligible running me t"
      "\<forall>x\<in>set pre. \<not> eligible running me x"
      using run_scan_Some by metis
    with scan have "tickle_me \<longleftrightarrow> post \<noteq> [] \<or> (\<exists>x\<in>set pre. pinned_elsewhere me x)"
      by (auto simp: run_scan_eq takeWhile_append dropWhile_append)
    with p Some s' show ?thesis by auto
  qed
qed

theorem run_lookup_first_eligible_witness:
  "\<exists>pre post. [task_of_cb (Some (User_Fn 1)) (Some 5), task_of_cb (Some (User_Fn 2)) None] = pre @ task_of_cb (Some (User_Fn (2::nat))) None # post
     \<and> \<not> (\<exists>x\<in>set pre. eligible (\<lambda>_. False) 1 x)"
proof -
  let ?s = "sample_scheduler [task_of_cb (Some (User_Fn 1)) (Some 5), task_of_cb (Some (User_Fn 2)) None]"
  have "run_lookup (\<lambda>_. False) 1 ?s = (Some (task_of_cb (Some (User_Fn 2)) None), True,
      sample_scheduler [task_of_cb (Some (User_Fn 1)) (Some 5)]\<lparr>m_activeThreadCount := 1\<rparr>)"
    by (simp add: run_lookup_def caller_scheduler_def)
  from run_lookup_first_eligible [OF this] show ?thesis
    by (auto simp: caller_scheduler_def)
qed

text \<open>The same worker looks for a task \<open>n\<close> times.\<close>

fun run_lookups :: "nat \<Rightarrow> (nat \<Rightarrow> bool) \<Rightarrow> nat \<Rightarrow> 'u scheduler \<Rightarrow> 'u sched_task option list \<times> 'u scheduler" where
  "run_lookups 0 running me s = ([], s)"
| "run_lookups (Suc n) running me s =
     (case run_lookup running me s of (r, _, s1) \<Rightarrow>
        (case run_lookups n running me s1 of (rs, s2) \<Rightarrow> (r # rs, s2)))"

lemma run_lookups_all:
  "\<forall>x\<in>set (m_tasks s). eligible running me x \<Longrightarrow>
   fst (run_lookups (length (m_tasks s)) running me s) = map Some (m_tasks s) \<and>
   m_tasks (snd (run_lookups (length (m_tasks s)) running me s)) = []"
proof (induction "m_tasks s" arbitrary: s)
  case (Cons t ts)
  let ?s = "s\<lparr>m_tasks := ts, m_activeThreadCount := m_activeThreadCount s + 1\<rparr>"
  have "run_lookup running me s = (Some t, ts \<noteq> [], ?s)"
    using Cons(2) [symmetric] Cons(3) by (simp add: run_lookup_def run_scan_eq)
  moreover have "fst (run_lookups (length ts) running me ?s) = map Some ts \<and>
      m_tasks (snd (run_lookups (length ts) running me ?s)) = []"
    using Cons(1) [of ?s] Cons(2) [symmetric] Cons(3) by simp
  ultimately show ?case
    using Cons(2) [symmetric] by (auto split: prod.splits)
qed simp

text \<open>The queue is first in, first out. When callbacks are scheduled one after the other, without a
  thread, on a scheduler with an empty queue, a worker that keeps looking finds exactly the
  callbacks that are not null, in the order in which they were scheduled.\<close>

theorem schedule_fifo:
  assumes "m_tasks s = []"
  shows "fst (run_lookups (length (filter (\<lambda>c. c \<noteq> None) cbs)) running me
            (fold (\<lambda>c s. snd (schedule (task_of_cb c None) s)) cbs s)) =
         map (\<lambda>c. Some (task_of_cb c None)) (filter (\<lambda>c. c \<noteq> None) cbs)"
proof -
  let ?s = "fold (\<lambda>t s. snd (schedule t s)) (map (\<lambda>c. task_of_cb c None) cbs) s"
  have p: "m_tasks ?s = map (\<lambda>c. task_of_cb c None) (filter (\<lambda>c. c \<noteq> None) cbs)"
    by (simp add: sq.pending_fold assms filter_map comp_def)
  have "fst (run_lookups (length (m_tasks ?s)) running me ?s) = map Some (m_tasks ?s)"
    by (rule run_lookups_all [THEN conjunct1]) (auto simp: p eligible_def pinned_elsewhere_def)
  then show ?thesis
    unfolding p by (simp add: fold_map comp_def)
qed

theorem schedule_fifo_witness:
  "fst (run_lookups 2 (\<lambda>_. False) 1
      (fold (\<lambda>c s. snd (schedule (task_of_cb c None) s)) [Some (User_Fn (4::nat)), None, Some (User_Fn 5)]
        (sample_scheduler []))) =
   [Some (task_of_cb (Some (User_Fn 4)) None), Some (task_of_cb (Some (User_Fn 5)) None)]"
  using schedule_fifo [of "sample_scheduler []" "[Some (User_Fn 4), None, Some (User_Fn 5)]" "\<lambda>_. False" 1]
  by (simp add: caller_scheduler_def numeral_2_eq_2)

section \<open>A turn that executes a callback\<close>

text \<open>The fiber made for a callback.\<close>

definition callback_fiber :: "64 word \<Rightarrow> 'cb \<Rightarrow> 'cb fiber_world \<Rightarrow> 'cb fiber" where
  "callback_fiber stack cb w =
     \<lparr>m_id = s_fiber_id w, m_stacksize = g_fiber_stack_size, m_state = RUNNING, m_ctx = Ctx_Entry,
      m_stack = stack, m_fcb = Some cb, m_runInScheduler = True\<rparr>"

lemma fiber_stacksize_0 [simp]: "fiber_stacksize 0 = g_fiber_stack_size"
  by (simp add: fiber_stacksize_def g_fiber_stack_size_def)

lemma dispatch_callback:
  fixes w :: "'u sched_fn fiber_world"
  assumes wf: "worker_wf g (w, tc)" and e: "t_exec tc = Some g" and g: "fibers w g = Some fg"
    and t: "tk_fiber t = None" "tk_cb t = Some cb" and l: "cb_fiber l = None"
    and np: "fibers w np = None" and st: "stack \<noteq> 0" and u: "\<not> uc_swap_fails u" "\<not> uc_get_fails u"
  shows "run_dispatch u stack np t l s w tc =
     Inr (Some After_Cb, l\<lparr>cb_fiber := Some np\<rparr>, s,
          w\<lparr>s_fiber_id := s_fiber_id w + 1, s_fiber_count := s_fiber_count w + 1,
            fibers := (fibers w)(np \<mapsto> callback_fiber stack cb w, g \<mapsto> fg\<lparr>m_ctx := Ctx_At g\<rparr>)\<rparr>,
          tc\<lparr>t_fiber := Some np, t_exec := Some np\<rparr>)"
proof -
  let ?f = "(callback_fiber stack cb w)\<lparr>m_state := READY\<rparr>"
  let ?w = "w\<lparr>fibers := (fibers w)(np \<mapsto> ?f), s_fiber_id := s_fiber_id w + 1, s_fiber_count := s_fiber_count w + 1\<rparr>"
  have new: "fiber_new u stack np (Some cb) 0 True w = Inr ?w"
    using u by (simp add: fiber_new_def callback_fiber_def)
  have ne: "np \<noteq> g" using g np by auto
  have "fiber_resume u np ?w tc =
     Inr (?w\<lparr>fibers := (fibers ?w)(np \<mapsto> ?f\<lparr>m_state := RUNNING\<rparr>, g \<mapsto> fg\<lparr>m_ctx := Ctx_At g\<rparr>)\<rparr>,
          tc\<lparr>t_fiber := Some np, t_exec := Some np\<rparr>)"
    by (rule worker_resume_eq [OF worker_new_wf [OF wf np st new] e ne _ _ u(1)])
       (use g ne in \<open>simp_all add: callback_fiber_def\<close>)
  then show ?thesis
    by (simp add: run_dispatch_def t l new callback_fiber_def)
qed

text \<open>What giving up control does to it, when \<open>f\<close> is the fiber at that moment.\<close>

lemma callback_leaves:
  fixes w :: "'u sched_fn fiber_world"
  assumes tc: "t_scheduler_fiber tc = Some g" "t_thread_fiber tc = Some g" "t_fiber tc = Some g" "t_exec tc = Some g"
    and g: "fibers w g = Some fg" "m_ctx fg = Ctx_At g" and np: "fibers w np = Some f" "np \<noteq> g"
    and f: "m_state f = RUNNING \<or> m_state f = TERMINATED" "m_runInScheduler f" and u: "\<not> uc_swap_fails u"
  shows "fiber_yield u np w (tc\<lparr>t_fiber := Some np, t_exec := Some np\<rparr>) =
     Inr (w\<lparr>fibers := (fibers w)(np \<mapsto> f\<lparr>m_state := after_yield (m_state f), m_ctx := Ctx_At np\<rparr>)\<rparr>, tc)"
proof -
  have "tc\<lparr>t_fiber := Some g, t_exec := Some g\<rparr> = tc" using tc by (cases tc) simp
  then show ?thesis
    by (subst fiber_yield_ok [where g = g and f = f and fg = fg and e = np and e' = g])
       (use assms in \<open>auto simp: swap_partner_def ctx_target_def\<close>)
qed

lemma suspended_fiber_ends:
  fixes w :: "'u sched_fn fiber_world"
  assumes tc: "t_scheduler_fiber tc = Some g" "t_thread_fiber tc = Some g" "t_fiber tc = Some g" "t_exec tc = Some g"
    and g: "fibers w g = Some fg" "m_ctx fg = Ctx_At g" and p: "fibers w p = Some f" "p \<noteq> g"
    and f: "m_state f = READY" "m_ctx f = Ctx_At p" "m_runInScheduler f" "m_stack f \<noteq> 0"
    and u: "\<not> uc_swap_fails u" and t: "tk_fiber t = Some p"
  shows "\<exists>w1 tc1 w2 w3.
     run_dispatch u stack np t l s w tc = Inr (Some (After_Fiber p), l, s, w1, tc1) \<and>
     t_exec tc1 = Some p \<and> t_fiber tc1 = Some p \<and>
     fiber_main_end u p w1 tc1 = Inr (w2, tc) \<and>
     run_return (\<lambda>_. False) (After_Fiber p) l s w2 tc =
       Inr (l, s\<lparr>m_activeThreadCount := m_activeThreadCount s - 1\<rparr>, w3, tc) \<and>
     fibers w3 = (fibers w)(p := None) \<and> s_fiber_count w3 = s_fiber_count w - 1"
proof -
  let ?w1 = "w\<lparr>fibers := (fibers w)(p \<mapsto> f\<lparr>m_state := RUNNING\<rparr>, g \<mapsto> fg\<lparr>m_ctx := Ctx_At g\<rparr>)\<rparr>"
  let ?tc1 = "tc\<lparr>t_fiber := Some p, t_exec := Some p\<rparr>"
  let ?f' = "f\<lparr>m_fcb := None, m_state := TERMINATED\<rparr>"
  let ?w1' = "?w1\<lparr>fibers := (fibers ?w1)(p \<mapsto> ?f')\<rparr>"
  let ?f2 = "?f'\<lparr>m_state := after_yield TERMINATED, m_ctx := Ctx_At p\<rparr>"
  let ?w2 = "?w1'\<lparr>fibers := (fibers ?w1')(p \<mapsto> ?f2)\<rparr>"
  have "fiber_resume u p w tc = Inr (?w1, ?tc1)"
    by (rule fiber_resume_ok) (use assms in \<open>auto simp: swap_partner_def ctx_target_def\<close>)
  moreover have "fiber_yield u p ?w1' ?tc1 = Inr (?w2, tc)"
    by (subst callback_leaves [where f = ?f' and fg = "fg\<lparr>m_ctx := Ctx_At g\<rparr>" and g = g]) (use assms in simp_all)
  then have "fiber_main_end u p ?w1 ?tc1 = Inr (?w2, tc)"
    using p(2) by (simp add: fiber_main_end_def fiber_upd_def fun_upd_twist)
  moreover have "(fibers ?w2)(p := None) = (fibers w)(p := None)"
    using g p(2) by (cases fg) (auto simp: fun_eq_iff)
  ultimately show ?thesis
    using f(4) t p(2)
    by (intro exI [of _ ?w1] exI [of _ ?tc1] exI [of _ ?w2]
          exI [of _ "?w2\<lparr>s_fiber_count := s_fiber_count ?w2 - 1, fibers := (fibers ?w2)(p := None)\<rparr>"])
       (simp add: run_dispatch_def run_return_def fiber_release_def main_func_holds_def fiber_delete_task
         after_yield_def)
qed

lemma callback_round:
  fixes w :: "'u sched_fn fiber_world"
  assumes wf: "worker_wf g (w, tc)" and "t_exec tc = Some g" and "fibers w g = Some fg"
    and "tk_fiber t = None" and "tk_cb t = Some cb" and "cb_fiber l = None" and "fibers w np = None"
    and "stack \<noteq> 0" and "\<not> uc_swap_fails u" and "\<not> uc_get_fails u" and "\<not> owned np"
  shows "\<exists>l1 w1 tc1 w2 w3.
     run_dispatch u stack np t l s w tc = Inr (Some After_Cb, l1, s, w1, tc1) \<and>
     t_exec tc1 = Some np \<and> t_fiber tc1 = Some np \<and> map_option m_fcb (fibers w1 np) = Some (Some cb) \<and>
     fiber_main_end u np w1 tc1 = Inr (w2, tc) \<and>
     (\<forall>s2. run_return owned After_Cb l1 s2 w2 tc =
       Inr (l, s2\<lparr>m_activeThreadCount := m_activeThreadCount s2 - 1\<rparr>, w3, tc)) \<and>
     fibers w3 = (fibers w)(g \<mapsto> fg\<lparr>m_ctx := Ctx_At g\<rparr>) \<and>
     s_fiber_count w3 = s_fiber_count w \<and> s_fiber_id w3 = s_fiber_id w + 1"
proof -
  have tc: "t_scheduler_fiber tc = Some g" "t_thread_fiber tc = Some g" "t_fiber tc = Some g"
    using wf assms(2) by (auto simp: worker_wf_def)
  have ne: "np \<noteq> g" using assms by auto
  let ?f = "callback_fiber stack cb w"
  let ?w1 = "w\<lparr>s_fiber_id := s_fiber_id w + 1, s_fiber_count := s_fiber_count w + 1,
            fibers := (fibers w)(np \<mapsto> ?f, g \<mapsto> fg\<lparr>m_ctx := Ctx_At g\<rparr>)\<rparr>"
  let ?tc1 = "tc\<lparr>t_fiber := Some np, t_exec := Some np\<rparr>"
  let ?f' = "?f\<lparr>m_fcb := None, m_state := TERMINATED\<rparr>"
  let ?w1' = "?w1\<lparr>fibers := (fibers ?w1)(np \<mapsto> ?f')\<rparr>"
  let ?f2 = "?f'\<lparr>m_state := after_yield TERMINATED, m_ctx := Ctx_At np\<rparr>"
  let ?w2 = "?w1'\<lparr>fibers := (fibers ?w1')(np \<mapsto> ?f2)\<rparr>"
  let ?w3 = "?w2\<lparr>s_fiber_count := s_fiber_count ?w2 - 1, fibers := (fibers ?w2)(np := None)\<rparr>"
  have d: "run_dispatch u stack np t l s w tc = Inr (Some After_Cb, l\<lparr>cb_fiber := Some np\<rparr>, s, ?w1, ?tc1)"
    by (rule dispatch_callback) (use wf assms in auto)
  have "fiber_yield u np ?w1' ?tc1 = Inr (?w2, tc)"
    by (subst callback_leaves [where f = ?f' and fg = "fg\<lparr>m_ctx := Ctx_At g\<rparr>" and g = g])
       (use tc assms(2,9) ne in \<open>simp_all add: callback_fiber_def\<close>)
  then have m: "fiber_main_end u np ?w1 ?tc1 = Inr (?w2, tc)"
    using ne by (simp add: fiber_main_end_def fiber_upd_def fun_upd_twist)
  have del: "fiber_delete np ?w2 tc = Inr (?w3, tc)"
    by (subst fiber_delete_task [where f = ?f2])
       (use assms(8) in \<open>simp_all add: callback_fiber_def after_yield_def\<close>)
  have l: "l\<lparr>cb_fiber := None\<rparr> = l" using assms(6) by (cases l) simp
  have r: "run_return owned After_Cb (l\<lparr>cb_fiber := Some np\<rparr>) s2 ?w2 tc =
       Inr (l, s2\<lparr>m_activeThreadCount := m_activeThreadCount s2 - 1\<rparr>, ?w3, tc)" for s2
    using del assms(11) by (simp add: run_return_def fiber_release_def main_func_holds_def after_yield_def l)
  have "fibers ?w3 = (fibers w)(g \<mapsto> fg\<lparr>m_ctx := Ctx_At g\<rparr>)"
    using assms(7) ne by (auto simp: fun_eq_iff)
  moreover have "map_option m_fcb (fibers ?w1 np) = Some (Some cb)"
    using ne by (simp add: callback_fiber_def)
  ultimately show ?thesis
    by (intro exI [of _ "l\<lparr>cb_fiber := Some np\<rparr>"] exI [of _ ?w1] exI [of _ ?tc1] exI [of _ ?w2] exI [of _ ?w3])
       (use d m r in simp)
qed

text \<open>C24: a turn of a worker with a callback. The callback gets a fiber of its own, with the default
  stack, which executes next; when its function returns, control is back in the worker's loop with
  the old thread-local state, and the end of the turn destroys the fiber: every other fiber is as
  before, the number of live fibers too, one thread less is active and the loop has no callback
  fiber that a later turn could reuse.\<close>

theorem callback_turn:
  fixes w :: "'u sched_fn fiber_world"
  assumes "reach (worker_start g) (worker_step g) (w, tc)" and "t_exec tc = Some g" and "fibers w g = Some fg"
    and "tk_fiber t = None" and "tk_cb t = Some cb" and "cb_fiber l = None" and "fibers w np = None"
    and "stack \<noteq> 0" and "\<not> uc_swap_fails u" and "\<not> uc_get_fails u" and "\<not> owned np"
  shows "\<exists>l1 w1 tc1 w2 w3.
     run_dispatch u stack np t l s w tc = Inr (Some After_Cb, l1, s, w1, tc1) \<and>
     t_exec tc1 = Some np \<and> t_fiber tc1 = Some np \<and> map_option m_fcb (fibers w1 np) = Some (Some cb) \<and>
     fiber_main_end u np w1 tc1 = Inr (w2, tc) \<and>
     run_return owned After_Cb l1 s w2 tc =
       Inr (l, s\<lparr>m_activeThreadCount := m_activeThreadCount s - 1\<rparr>, w3, tc) \<and>
     fibers w3 = (fibers w)(g \<mapsto> fg\<lparr>m_ctx := Ctx_At g\<rparr>) \<and>
     s_fiber_count w3 = s_fiber_count w \<and> s_fiber_id w3 = s_fiber_id w + 1"
proof -
  have "worker_wf g (w, tc)" using worker_safe.reach_inv [OF assms(1)] .
  from callback_round [where u = u and owned = owned and s = s, OF this assms(2-11)] show ?thesis by blast
qed

text \<open>The sample worker of Fiber, as a worker of a scheduler.\<close>

definition sample_main :: "nat sched_fn fiber" where
  "sample_main =
     \<lparr>m_id = 0, m_stacksize = 0, m_state = RUNNING, m_ctx = Ctx_At 0, m_stack = 0, m_fcb = None,
      m_runInScheduler = True\<rparr>"

definition sample_pool :: "nat sched_fn fiber_world" where
  "sample_pool = \<lparr>fibers = [0 \<mapsto> sample_main], s_fiber_id = 1, s_fiber_count = 1\<rparr>"

lemma sample_pool_main [simp]: "fibers sample_pool 0 = Some sample_main"
  by (simp add: sample_pool_def)

lemma sample_pool_reach: "reach (worker_start 0) (worker_step 0) (sample_pool, sample_tc)"
proof -
  have "worker_init no_fail 0 True 0 = Inr (sample_pool, sample_tc)"
    by (simp add: worker_init_def Fiber_GetThis_def fiber_new_main_def thread_ctx_new_def no_fail_def
        fiber_world_new_def Fiber_SetThis_def sample_tc_def sample_pool_def sample_main_def)
  then show ?thesis by (intro reach_start) (auto simp: worker_start_def)
qed

theorem callback_turn_witness:
  "\<exists>l1 w1 tc1. run_dispatch no_fail 4096 5 (task_of_cb (Some (User_Fn 3)) None) \<lparr>idle_fiber = 9, cb_fiber = None\<rparr>
       (sample_scheduler []) sample_pool sample_tc = Inr (Some After_Cb, l1, sample_scheduler [], w1, tc1) \<and> t_exec tc1 = Some 5"
  using callback_turn [OF sample_pool_reach, where t = "task_of_cb (Some (User_Fn 3)) None" and np = 5 and
      l = "\<lparr>idle_fiber = 9, cb_fiber = None\<rparr>" and stack = 4096 and u = no_fail and owned = "\<lambda>_. False" and
      s = "sample_scheduler []"]
  by (fastforce simp: sample_tc_def sample_pool_def no_fail_def)

text \<open>C35: a callback that yields. Dropping the loop's pointer does not destroy its fiber, whoever owns
  it besides: the fiber holds itself. The turn ends with the fiber suspended and ready, one fiber
  more alive than before and no callback fiber left in the loop for a later turn to reset. A queued
  task that names the fiber continues it; when its function then returns, nothing but that task
  holds it, and the end of that turn destroys it: the number of live fibers and every other fiber
  are as before the callback was taken. (A fiber that no task, event or timer names stays for ever.)\<close>

theorem yielded_callback_holds_itself:
  fixes w :: "'u sched_fn fiber_world"
  assumes "reach (worker_start g) (worker_step g) (w, tc)" and "t_exec tc = Some g" and "fibers w g = Some fg"
    and "tk_fiber t = None" and "tk_cb t = Some cb" and "cb_fiber l = None" and "fibers w np = None"
    and "stack \<noteq> 0" and "\<not> uc_swap_fails u" and "\<not> uc_get_fails u"
  shows "\<exists>l1 w1 tc1 w2 f.
     run_dispatch u stack np t l s w tc = Inr (Some After_Cb, l1, s, w1, tc1) \<and>
     fiber_yield u np w1 tc1 = Inr (w2, tc) \<and>
     fibers w2 = (fibers w)(np \<mapsto> f, g \<mapsto> fg\<lparr>m_ctx := Ctx_At g\<rparr>) \<and> m_state f = READY \<and> m_fcb f = Some cb \<and>
     s_fiber_count w2 = s_fiber_count w + 1 \<and>
     (\<forall>owned. run_return owned After_Cb l1 s w2 tc =
        Inr (l, s\<lparr>m_activeThreadCount := m_activeThreadCount s - 1\<rparr>, w2, tc)) \<and>
     (\<forall>t' s'. tk_fiber t' = Some np \<longrightarrow>
        (\<exists>w3 tc3 w4 w5.
           run_dispatch u stack np t' l s' w2 tc = Inr (Some (After_Fiber np), l, s', w3, tc3) \<and>
           t_exec tc3 = Some np \<and> t_fiber tc3 = Some np \<and>
           fiber_main_end u np w3 tc3 = Inr (w4, tc) \<and>
           run_return (\<lambda>_. False) (After_Fiber np) l s' w4 tc =
             Inr (l, s'\<lparr>m_activeThreadCount := m_activeThreadCount s' - 1\<rparr>, w5, tc) \<and>
           fibers w5 = (fibers w)(g \<mapsto> fg\<lparr>m_ctx := Ctx_At g\<rparr>) \<and> s_fiber_count w5 = s_fiber_count w))"
proof -
  note wf = worker_safe.reach_inv [OF assms(1)]
  have tc: "t_scheduler_fiber tc = Some g" "t_thread_fiber tc = Some g" "t_fiber tc = Some g"
    using wf assms(2) by (auto simp: worker_wf_def)
  have ne: "np \<noteq> g" using assms by auto
  let ?f = "callback_fiber stack cb w" and ?fg = "fg\<lparr>m_ctx := Ctx_At g\<rparr>"
  let ?w1 = "w\<lparr>s_fiber_id := s_fiber_id w + 1, s_fiber_count := s_fiber_count w + 1,
            fibers := (fibers w)(np \<mapsto> ?f, g \<mapsto> ?fg)\<rparr>"
  let ?tc1 = "tc\<lparr>t_fiber := Some np, t_exec := Some np\<rparr>"
  let ?f2 = "?f\<lparr>m_state := READY, m_ctx := Ctx_At np\<rparr>"
  let ?w2 = "?w1\<lparr>fibers := (fibers w)(np \<mapsto> ?f2, g \<mapsto> ?fg)\<rparr>"
  have d: "run_dispatch u stack np t l s w tc = Inr (Some After_Cb, l\<lparr>cb_fiber := Some np\<rparr>, s, ?w1, ?tc1)"
    by (rule dispatch_callback) (use wf assms in auto)
  have y: "fiber_yield u np ?w1 ?tc1 = Inr (?w2, tc)"
    by (subst callback_leaves [where f = ?f and fg = ?fg and g = g])
       (use tc assms(2,9) ne in \<open>simp_all add: callback_fiber_def after_yield_def fun_upd_twist\<close>)
  have l: "l\<lparr>cb_fiber := None\<rparr> = l" using assms(6) by (cases l) simp
  have r: "run_return owned After_Cb (l\<lparr>cb_fiber := Some np\<rparr>) s ?w2 tc =
      Inr (l, s\<lparr>m_activeThreadCount := m_activeThreadCount s - 1\<rparr>, ?w2, tc)" for owned
    using ne by (simp add: run_return_def fiber_release_def main_func_holds_def l)
  have cont: "\<exists>w3 tc3 w4 w5.
           run_dispatch u stack np t' l s' ?w2 tc = Inr (Some (After_Fiber np), l, s', w3, tc3) \<and>
           t_exec tc3 = Some np \<and> t_fiber tc3 = Some np \<and>
           fiber_main_end u np w3 tc3 = Inr (w4, tc) \<and>
           run_return (\<lambda>_. False) (After_Fiber np) l s' w4 tc =
             Inr (l, s'\<lparr>m_activeThreadCount := m_activeThreadCount s' - 1\<rparr>, w5, tc) \<and>
           fibers w5 = (fibers w)(g \<mapsto> ?fg) \<and> s_fiber_count w5 = s_fiber_count w"
    if t': "tk_fiber t' = Some np" for t' s'
  proof -
    have "(fibers ?w2)(np := None) = (fibers w)(g \<mapsto> ?fg)" using assms(7) ne by (auto simp: fun_eq_iff)
    then show ?thesis
      using suspended_fiber_ends [where tc = tc and g = g and w = ?w2 and fg = ?fg and p = np and f = ?f2 and
          u = u and t = t' and stack = stack and np = np and l = l and s = s'] tc assms(2,8,9) ne t'
      by (simp add: callback_fiber_def)
  qed
  show ?thesis
    by (intro exI [of _ "l\<lparr>cb_fiber := Some np\<rparr>"] exI [of _ ?w1] exI [of _ ?tc1] exI [of _ ?w2] exI [of _ ?f2])
       (use d y r cont in \<open>simp add: callback_fiber_def\<close>)
qed

theorem yielded_callback_holds_itself_witness:
  "\<exists>l1 w1 tc1 w2.
     run_dispatch no_fail 4096 5 (task_of_cb (Some (User_Fn 3)) None) \<lparr>idle_fiber = 9, cb_fiber = None\<rparr>
       (sample_scheduler []) sample_pool sample_tc = Inr (Some After_Cb, l1, sample_scheduler [], w1, tc1) \<and>
     fiber_yield no_fail 5 w1 tc1 = Inr (w2, sample_tc) \<and> s_fiber_count w2 = 2 \<and> dom (fibers w2) = {0, 5} \<and>
     (\<exists>w3 tc3. run_dispatch no_fail 4096 5 (task_of_fiber (Some 5) None) \<lparr>idle_fiber = 9, cb_fiber = None\<rparr>
        (sample_scheduler []) w2 sample_tc = Inr (Some (After_Fiber 5), \<lparr>idle_fiber = 9, cb_fiber = None\<rparr>, sample_scheduler [], w3, tc3))"
proof -
  let ?t = "task_of_cb (Some (User_Fn 3)) None" and ?l = "\<lparr>idle_fiber = 9, cb_fiber = None\<rparr>"
  have a: "t_exec sample_tc = Some 0" "fibers sample_pool 5 = None" "\<not> uc_swap_fails no_fail" "\<not> uc_get_fails no_fail"
    "s_fiber_count sample_pool = 1" "dom (fibers sample_pool) = {0}"
    by (simp_all add: sample_tc_def sample_pool_def no_fail_def)
  have t: "tk_fiber ?t = None" "tk_cb ?t = Some (User_Fn 3)" "cb_fiber ?l = None" "(4096 :: 64 word) \<noteq> 0" by simp_all
  obtain l1 w1 tc1 w2 f where
    r: "run_dispatch no_fail 4096 5 ?t ?l (sample_scheduler []) sample_pool sample_tc = Inr (Some After_Cb, l1, sample_scheduler [], w1, tc1)"
    and y: "fiber_yield no_fail 5 w1 tc1 = Inr (w2, sample_tc)" and c: "s_fiber_count w2 = s_fiber_count sample_pool + 1"
    and f: "fibers w2 = (fibers sample_pool)(5 \<mapsto> f, 0 \<mapsto> sample_main\<lparr>m_ctx := Ctx_At 0\<rparr>)"
    and n: "\<forall>t' s'. tk_fiber t' = Some 5 \<longrightarrow> (\<exists>w3 tc3.
      run_dispatch no_fail 4096 5 t' ?l s' w2 sample_tc = Inr (Some (After_Fiber 5), ?l, s', w3, tc3))"
    using yielded_callback_holds_itself [OF sample_pool_reach a(1) sample_pool_main t(1-3) a(2) t(4) a(3,4),
        where s = "sample_scheduler []"] by (elim exE conjE) (rule that, assumption+, blast)
  have "dom (fibers w2) = {0, 5}" using a(6) by (auto simp: f)
  moreover have "\<exists>w3 tc3. run_dispatch no_fail 4096 5 (task_of_fiber (Some 5) None) ?l (sample_scheduler []) w2 sample_tc =
      Inr (Some (After_Fiber 5), ?l, sample_scheduler [], w3, tc3)"
    using n by simp
  ultimately show ?thesis
    using r y c a(5) by (intro exI [of _ l1] exI [of _ w1] exI [of _ tc1] exI [of _ w2]) simp
qed

text \<open>The number of threads. A scheduler constructed for \<open>n\<close> threads and started has exactly
  \<open>n\<close> threads that execute tasks: \<open>n\<close> created ones, or, when it uses the caller, one created
  less and the caller itself; starting it a second time aborts unless none was created.\<close>

theorem scheduler_thread_count:
  assumes "scheduler_new u js jf st gp rp n use_caller name this me cur w tc = Inr (s, cur', w', tc')"
    and "scheduler_start new_id s = Inr s'"
  shows "length (m_threadIds s') = unat n \<and>
     length (m_threads s') = (if use_caller then unat n - 1 else unat n) \<and>
     (use_caller \<longrightarrow> m_threadIds s' = me # m_threads s' \<and> m_rootThread s' = Some me) \<and>
     (\<not> use_caller \<longrightarrow> m_threadIds s' = m_threads s' \<and> m_rootFiber s' = None) \<and>
     (m_threads s' \<noteq> [] \<longrightarrow> scheduler_start new_id s' = Inl (Assert_Fail ''m_threads is not empty''))"
proof -
  from assms(1) have n: "n \<noteq> 0"
    and new: "m_threads s = []" "\<not> m_stopping s"
      "m_threadCount s = (if use_caller then n - 1 else n)"
      "m_threadIds s = (if use_caller then [me] else [])"
      "use_caller \<Longrightarrow> m_rootThread s = Some me" "\<not> use_caller \<Longrightarrow> m_rootFiber s = None"
    by (auto simp: scheduler_new_def outcome_simps Let_def word_neq_0_conv split: if_splits)
  have cnt: "unat (n - 1) = unat n - 1"
    using n by (simp add: unat_minus_one)
  have pos: "0 < unat n" using n by (simp add: unat_gt_0)
  from assms(2) new have s': "s' = s\<lparr>m_threads := map new_id [0..<unat (m_threadCount s)],
      m_threadIds := m_threadIds s @ map new_id [0..<unat (m_threadCount s)]\<rparr>"
    by (simp add: scheduler_start_def Let_def)
  show ?thesis
    using new pos by (auto simp: s' cnt scheduler_start_def)
qed

lemma sample_new_scheduler:
  "\<exists>s w tc. scheduler_new no_fail 0 True 4096 0 2 3 True ''s'' 50 7 None fiber_world_new thread_ctx_new =
     Inr (s :: nat scheduler, Some 50, w, tc) \<and> \<not> m_stopping s \<and> m_threads s = []"
proof -
  obtain w :: "nat sched_fn fiber_world" and tc where g: "Fiber_GetThis no_fail 0 True 0 fiber_world_new thread_ctx_new = Inr (0, w, tc)"
    by (simp add: Fiber_GetThis_def fiber_new_main_def thread_ctx_new_def no_fail_def fiber_world_new_def
        cong del: obind_cong)
  obtain w2 where f: "fiber_new no_fail 4096 2 (Some Run_Loop) 0 False w = Inr w2"
    by (simp add: fiber_new_def no_fail_def)
  show ?thesis
    by (simp add: scheduler_new_def g f cong del: obind_cong)
qed

theorem scheduler_thread_count_witness:
  "\<exists>s :: nat scheduler. length (m_threadIds s) = 3 \<and> length (m_threads s) = 2"
proof -
  obtain s :: "nat scheduler" and w tc where s: "scheduler_new no_fail 0 True 4096 0 2 3 True ''s'' 50 7 None
      fiber_world_new thread_ctx_new = Inr (s, Some 50, w, tc)" "\<not> m_stopping s" "m_threads s = []"
    using sample_new_scheduler by metis
  then obtain s' where s': "scheduler_start (\<lambda>i. i + 10) s = Inr s'"
    by (simp add: scheduler_start_def Let_def)
  from scheduler_thread_count [OF s(1) s'] show ?thesis by auto
qed

end
