(* ===== verification/Scheduler_Concurrent.thy ===== *)
theory Scheduler_Concurrent
  imports Scheduler
begin

text \<open>
  The workers of one scheduler side by side. Each worker is a program counter in the loop of
  \<open>Scheduler::run\<close>; a step is what one thread does between two points at which another
  thread can interfere: the critical section of the search, the change of a fiber's state, the switch
  itself, the updates of the two atomic counters. Contexts and thread-local pointers are the
  business of Fiber and Scheduler; here a fiber is its state. \<open>pl_pushed\<close> and
  \<open>pl_started\<close> are history variables: the tasks put into the queue so far and those whose
  execution has begun.
\<close>

section \<open>Workers\<close>

datatype 'u worker_pc =
    Looking
  | Taken "'u sched_task"
  | On_Task nat
  | Leaving nat
  | Task_Returned
  | No_Task
  | On_Idle
  | Idle_Returned
  | Exited

record 'u worker =
  wk_id :: nat
  wk_idle_state :: fiber_state
  wk_pc :: "'u worker_pc"

record 'u pool =
  pl_sched :: "'u scheduler"
  pl_fibers :: "nat \<rightharpoonup> fiber_state"
  pl_workers :: "'u worker list"
  pl_pushed :: "'u sched_task multiset"
  pl_started :: "'u sched_task multiset"

definition pool_running :: "'u pool \<Rightarrow> nat \<Rightarrow> bool" where
  "pool_running s f \<longleftrightarrow> pl_fibers s f = Some RUNNING"

definition set_pc :: "nat \<Rightarrow> 'u worker_pc \<Rightarrow> 'u pool \<Rightarrow> 'u pool" where
  "set_pc i c s = s\<lparr>pl_workers := (pl_workers s)[i := (pl_workers s ! i)\<lparr>wk_pc := c\<rparr>]\<rparr>"

definition set_idle :: "nat \<Rightarrow> fiber_state \<Rightarrow> 'u pool \<Rightarrow> 'u pool" where
  "set_idle i st s = s\<lparr>pl_workers := (pl_workers s)[i := (pl_workers s ! i)\<lparr>wk_idle_state := st\<rparr>]\<rparr>"

definition at_pc :: "'u pool \<Rightarrow> nat \<Rightarrow> 'u worker_pc \<Rightarrow> bool" where
  "at_pc s i c \<longleftrightarrow> i < length (pl_workers s) \<and> wk_pc (pl_workers s ! i) = c"

definition worker_active :: "'u worker \<Rightarrow> bool" where
  "worker_active x = (case wk_pc x of
     Taken _ \<Rightarrow> True | On_Task _ \<Rightarrow> True | Leaving _ \<Rightarrow> True | Task_Returned \<Rightarrow> True | _ \<Rightarrow> False)"

definition worker_idle :: "'u worker \<Rightarrow> bool" where
  "worker_idle x = (case wk_pc x of On_Idle \<Rightarrow> True | Idle_Returned \<Rightarrow> True | _ \<Rightarrow> False)"

text \<open>A worker that has the fiber in its hands: about to resume it, or with it on its stack.\<close>

definition holds :: "nat \<Rightarrow> 'u worker \<Rightarrow> bool" where
  "holds f x = (case wk_pc x of
     Taken t \<Rightarrow> tk_fiber t = Some f | On_Task g \<Rightarrow> g = f | Leaving g \<Rightarrow> g = f | _ \<Rightarrow> False)"

definition on_stack_of :: "nat \<Rightarrow> 'u worker \<Rightarrow> bool" where
  "on_stack_of f x = (case wk_pc x of On_Task g \<Rightarrow> g = f | Leaving g \<Rightarrow> g = f | _ \<Rightarrow> False)"

section \<open>Steps\<close>

text \<open>
  \<open>G\<close> says which tasks the surroundings (user code, hooks, timers, epoll) may schedule in which
  state; a scheduled fiber exists.
\<close>

inductive pool_step :: "('u pool \<Rightarrow> 'u sched_task \<Rightarrow> bool) \<Rightarrow> 'u pool \<Rightarrow> 'u pool \<Rightarrow> bool"
  for G :: "'u pool \<Rightarrow> 'u sched_task \<Rightarrow> bool" where
  sc_schedule:
    "G s t \<Longrightarrow> (\<And>f. tk_fiber t = Some f \<Longrightarrow> pl_fibers s f \<noteq> None) \<Longrightarrow>
     pool_step G s (s\<lparr>pl_sched := snd (schedule t (pl_sched s)),
       pl_pushed := pl_pushed s + (if task_empty t then {#} else {#t#})\<rparr>)"
| sc_new_fiber:
    "pl_fibers s f = None \<Longrightarrow> pool_step G s (s\<lparr>pl_fibers := (pl_fibers s)(f \<mapsto> READY)\<rparr>)"
| sc_stop:
    "pool_step G s (s\<lparr>pl_sched := (pl_sched s)\<lparr>m_stopping := True\<rparr>\<rparr>)"
| sc_find:
    "at_pc s i Looking \<Longrightarrow>
     run_lookup (pool_running s) (wk_id (pl_workers s ! i)) (pl_sched s) = (Some t, k, sch) \<Longrightarrow>
     pool_step G s (set_pc i (Taken t) (s\<lparr>pl_sched := sch\<rparr>))"
| sc_none:
    "at_pc s i Looking \<Longrightarrow>
     run_lookup (pool_running s) (wk_id (pl_workers s ! i)) (pl_sched s) = (None, k, sch) \<Longrightarrow>
     pool_step G s (set_pc i No_Task (s\<lparr>pl_sched := sch\<rparr>))"
| sc_resume:
    "at_pc s i (Taken t) \<Longrightarrow> tk_fiber t = Some f \<Longrightarrow> pl_fibers s f = Some READY \<Longrightarrow>
     pool_step G s (set_pc i (On_Task f)
       (s\<lparr>pl_fibers := (pl_fibers s)(f \<mapsto> RUNNING), pl_started := pl_started s + {#t#}\<rparr>))"
| sc_callback:
    "at_pc s i (Taken t) \<Longrightarrow> tk_fiber t = None \<Longrightarrow> tk_cb t \<noteq> None \<Longrightarrow> pl_fibers s f = None \<Longrightarrow>
     pool_step G s (set_pc i (On_Task f)
       (s\<lparr>pl_fibers := (pl_fibers s)(f \<mapsto> RUNNING), pl_started := pl_started s + {#t#}\<rparr>))"
| sc_yield:
    "at_pc s i (On_Task f) \<Longrightarrow> pl_fibers s f = Some RUNNING \<Longrightarrow>
     pool_step G s (set_pc i (Leaving f) (s\<lparr>pl_fibers := (pl_fibers s)(f \<mapsto> READY)\<rparr>))"
| sc_end:
    "at_pc s i (On_Task f) \<Longrightarrow>
     pool_step G s (set_pc i (Leaving f) (s\<lparr>pl_fibers := (pl_fibers s)(f \<mapsto> TERMINATED)\<rparr>))"
| sc_switch:
    "at_pc s i (Leaving f) \<Longrightarrow> pool_step G s (set_pc i Task_Returned s)"
| sc_done:
    "at_pc s i Task_Returned \<Longrightarrow>
     pool_step G s (set_pc i Looking (s\<lparr>pl_sched :=
       (pl_sched s)\<lparr>m_activeThreadCount := m_activeThreadCount (pl_sched s) - 1\<rparr>\<rparr>))"
| sc_exit:
    "at_pc s i No_Task \<Longrightarrow> wk_idle_state (pl_workers s ! i) = TERMINATED \<Longrightarrow>
     pool_step G s (set_pc i Exited s)"
| sc_idle:
    "at_pc s i No_Task \<Longrightarrow> wk_idle_state (pl_workers s ! i) \<noteq> TERMINATED \<Longrightarrow>
     pool_step G s (set_pc i On_Idle (set_idle i RUNNING (s\<lparr>pl_sched :=
       (pl_sched s)\<lparr>m_idleThreadCount := m_idleThreadCount (pl_sched s) + 1\<rparr>\<rparr>)))"
| sc_idle_yield:
    "at_pc s i On_Idle \<Longrightarrow> \<not> scheduler_stopping (pl_sched s) \<Longrightarrow>
     pool_step G s (set_pc i Idle_Returned (set_idle i READY s))"
| sc_idle_end:
    "at_pc s i On_Idle \<Longrightarrow> scheduler_stopping (pl_sched s) \<Longrightarrow>
     pool_step G s (set_pc i Idle_Returned (set_idle i TERMINATED s))"
| sc_idle_back:
    "at_pc s i Idle_Returned \<Longrightarrow>
     pool_step G s (set_pc i Looking (s\<lparr>pl_sched :=
       (pl_sched s)\<lparr>m_idleThreadCount := m_idleThreadCount (pl_sched s) - 1\<rparr>\<rparr>))"

definition pool_start :: "'u pool \<Rightarrow> bool" where
  "pool_start s \<longleftrightarrow> m_tasks (pl_sched s) = [] \<and> m_activeThreadCount (pl_sched s) = 0 \<and>
     m_idleThreadCount (pl_sched s) = 0 \<and> \<not> m_stopping (pl_sched s) \<and>
     pl_fibers s = Map.empty \<and> pl_pushed s = {#} \<and> pl_started s = {#} \<and>
     (\<forall>x\<in>set (pl_workers s). wk_pc x = Looking \<and> wk_idle_state x = READY)"

section \<open>Counters and history\<close>

fun taken_task :: "'u worker_pc \<Rightarrow> 'u sched_task multiset" where
  "taken_task (Taken t) = {#t#}"
| "taken_task _ = {#}"

definition in_hand :: "'u worker list \<Rightarrow> 'u sched_task multiset" where
  "in_hand xs = sum_list (map (taken_task \<circ> wk_pc) xs)"

definition pool_counts :: "'u pool \<Rightarrow> bool" where
  "pool_counts s \<longleftrightarrow>
     m_activeThreadCount (pl_sched s) = of_nat (count_if worker_active (pl_workers s)) \<and>
     m_idleThreadCount (pl_sched s) = of_nat (count_if worker_idle (pl_workers s)) \<and>
     pl_pushed s = mset (m_tasks (pl_sched s)) + in_hand (pl_workers s) + pl_started s \<and>
     (\<forall>x\<in>set (pl_workers s). wk_idle_state x = TERMINATED \<or> wk_pc x = Exited \<longrightarrow> m_stopping (pl_sched s))"

lemma set_pc_simps [simp]:
  "pl_sched (set_pc i c s) = pl_sched s" "pl_fibers (set_pc i c s) = pl_fibers s"
  "pl_pushed (set_pc i c s) = pl_pushed s" "pl_started (set_pc i c s) = pl_started s"
  "length (pl_workers (set_pc i c s)) = length (pl_workers s)"
  "pl_sched (set_idle i st s) = pl_sched s" "pl_fibers (set_idle i st s) = pl_fibers s"
  "pl_pushed (set_idle i st s) = pl_pushed s" "pl_started (set_idle i st s) = pl_started s"
  "length (pl_workers (set_idle i st s)) = length (pl_workers s)"
  by (simp_all add: set_pc_def set_idle_def)

lemma in_hand_update:
  "i < length xs \<Longrightarrow> in_hand (xs[i := y]) + taken_task (wk_pc (xs ! i)) = in_hand xs + taken_task (wk_pc y)"
proof (induction xs arbitrary: i)
  case (Cons x xs)
  then show ?case by (cases i) (auto simp: in_hand_def ac_simps)
qed simp

lemma counts_move:
  fixes s :: "'u pool" and s' :: "'u pool"
  assumes c: "pool_counts s" and i: "i < length (pl_workers s)"
    and ws: "pl_workers s' = (pl_workers s)[i := y]" and x: "x = pl_workers s ! i"
    and act: "m_activeThreadCount (pl_sched s') + of_bool (worker_active x) =
      m_activeThreadCount (pl_sched s) + of_bool (worker_active y)"
    and idl: "m_idleThreadCount (pl_sched s') + of_bool (worker_idle x) =
      m_idleThreadCount (pl_sched s) + of_bool (worker_idle y)"
    and h: "pl_pushed s' = pl_pushed s"
      "mset (m_tasks (pl_sched s')) + taken_task (wk_pc y) + pl_started s' =
       mset (m_tasks (pl_sched s)) + taken_task (wk_pc x) + pl_started s"
    and st: "m_stopping (pl_sched s) \<Longrightarrow> m_stopping (pl_sched s')"
      "wk_idle_state y = TERMINATED \<or> wk_pc y = Exited \<Longrightarrow> m_stopping (pl_sched s')"
  shows "pool_counts s'"
proof -
  have n: "count_if P (pl_workers s') + of_bool (P x) = count_if P (pl_workers s) + of_bool (P y)" for P
    using count_if_update [OF i, of P y] by (simp add: ws x of_bool_def)
  have w: "(of_nat (count_if P (pl_workers s')) :: 64 word) + of_bool (P x) =
      of_nat (count_if P (pl_workers s)) + of_bool (P y)" for P
    using arg_cong [OF n [of P], of "of_nat :: nat \<Rightarrow> 64 word"] by (simp only: of_nat_add of_nat_of_bool)
  have "m_activeThreadCount (pl_sched s') = of_nat (count_if worker_active (pl_workers s'))"
    using act w [of worker_active] c by (simp add: pool_counts_def) (metis add_right_cancel)
  moreover have "m_idleThreadCount (pl_sched s') = of_nat (count_if worker_idle (pl_workers s'))"
    using idl w [of worker_idle] c by (simp add: pool_counts_def) (metis add_right_cancel)
  moreover have "pl_pushed s' = mset (m_tasks (pl_sched s')) + in_hand (pl_workers s') + pl_started s'"
  proof -
    have "in_hand (pl_workers s') + taken_task (wk_pc x) = in_hand (pl_workers s) + taken_task (wk_pc y)"
      using in_hand_update [OF i, of y] by (simp add: ws x)
    then have "mset (m_tasks (pl_sched s')) + in_hand (pl_workers s') + pl_started s' + taken_task (wk_pc x)
      = mset (m_tasks (pl_sched s')) + (in_hand (pl_workers s) + taken_task (wk_pc y)) + pl_started s'"
      by (metis add.assoc add.commute)
    also have "\<dots> = mset (m_tasks (pl_sched s')) + taken_task (wk_pc y) + pl_started s' + in_hand (pl_workers s)"
      by (simp add: ac_simps)
    also have "\<dots> = pl_pushed s' + taken_task (wk_pc x)"
      unfolding h(2) using c h(1) by (simp add: pool_counts_def ac_simps)
    finally show ?thesis by simp
  qed
  moreover have "m_stopping (pl_sched s')"
    if "z \<in> set (pl_workers s')" "wk_idle_state z = TERMINATED \<or> wk_pc z = Exited" for z
  proof -
    from that(1) i have "z = y \<or> z \<in> set (pl_workers s)"
      using set_update_subset_insert [of "pl_workers s" i y] by (auto simp: ws)
    then show ?thesis
      using that(2) c st by (auto simp: pool_counts_def)
  qed
  ultimately show ?thesis
    by (simp add: pool_counts_def)
qed

lemma run_lookup_Some:
  assumes "run_lookup running me s = (Some t, k, s')"
  obtains pre post where "m_tasks s = pre @ t # post" and "eligible running me t"
    and "s' = s\<lparr>m_tasks := pre @ post, m_activeThreadCount := m_activeThreadCount s + 1\<rparr>"
proof -
  from assms obtain rest where scan: "run_scan running me (m_tasks s) = (Some t, k, rest)"
    and s': "s' = s\<lparr>m_tasks := rest, m_activeThreadCount := m_activeThreadCount s + 1\<rparr>"
    by (auto simp: run_lookup_def split: prod.splits)
  from scan obtain pre post where "m_tasks s = pre @ t # post" "rest = pre @ post" "eligible running me t"
    by (rule run_scan_Some)
  with s' that show thesis by blast
qed

lemma run_lookup_None: "run_lookup running me s = (None, k, s') \<Longrightarrow> s' = s"
  by (auto simp: run_lookup_def split: prod.splits)

lemmas pool_upd = set_pc_def set_idle_def at_pc_def worker_active_def worker_idle_def

lemmas counts_set_pc = counts_move [where y = "(pl_workers s ! i)\<lparr>wk_pc := c\<rparr>" and
    s' = "set_pc i c s1" for s i c s1, OF _ _ _ refl]

lemmas counts_set_idle = counts_move [where y = "(pl_workers s ! i)\<lparr>wk_idle_state := st, wk_pc := c\<rparr>" and
    s' = "set_pc i c (set_idle i st s1)" for s i st c s1, OF _ _ _ refl]

lemma pool_counts_step:
  "pool_step G s s' \<Longrightarrow> pool_counts s \<Longrightarrow> pool_counts s'"
proof (induction rule: pool_step.induct)
  case (sc_schedule s t)
  then show ?case by (auto simp: pool_counts_def)
next
  case (sc_new_fiber s f)
  then show ?case by (simp add: pool_counts_def)
next
  case (sc_stop s)
  then show ?case by (simp add: pool_counts_def)
next
  case (sc_find s i t k sch)
  from sc_find.hyps(2) obtain pre post where "m_tasks (pl_sched s) = pre @ t # post"
    "sch = (pl_sched s)\<lparr>m_tasks := pre @ post, m_activeThreadCount := m_activeThreadCount (pl_sched s) + 1\<rparr>"
    by (rule run_lookup_Some)
  with sc_find show ?case
    by (intro counts_set_pc [OF sc_find.prems]) (auto simp: pool_upd pool_counts_def)
next
  case (sc_none s i k sch)
  then have "sch = pl_sched s" by (simp add: run_lookup_None)
  with sc_none show ?case
    by (intro counts_set_pc [OF sc_none.prems]) (auto simp: pool_upd pool_counts_def)
next
  case (sc_resume s i t f)
  then show ?case
    by (intro counts_set_pc [OF sc_resume.prems]) (auto simp: pool_upd pool_counts_def)
next
  case (sc_callback s i t f)
  then show ?case
    by (intro counts_set_pc [OF sc_callback.prems]) (auto simp: pool_upd pool_counts_def)
next
  case (sc_yield s i f)
  then show ?case
    by (intro counts_set_pc [OF sc_yield.prems]) (auto simp: pool_upd pool_counts_def)
next
  case (sc_end s i f)
  then show ?case
    by (intro counts_set_pc [OF sc_end.prems]) (auto simp: pool_upd pool_counts_def)
next
  case (sc_switch s i f)
  then show ?case
    by (intro counts_set_pc [OF sc_switch.prems]) (auto simp: pool_upd pool_counts_def)
next
  case (sc_done s i)
  then show ?case
    by (intro counts_set_pc [OF sc_done.prems]) (auto simp: pool_upd pool_counts_def)
next
  case (sc_exit s i)
  then show ?case
    by (intro counts_set_pc [OF sc_exit.prems]) (auto simp: pool_upd pool_counts_def)
next
  case (sc_idle s i)
  then show ?case
    by (intro counts_set_idle [OF sc_idle.prems]) (auto simp: pool_upd pool_counts_def)
next
  case (sc_idle_yield s i)
  then show ?case
    by (intro counts_set_idle [OF sc_idle_yield.prems]) (auto simp: pool_upd pool_counts_def)
next
  case (sc_idle_end s i)
  then show ?case
    by (intro counts_set_idle [OF sc_idle_end.prems])
       (auto simp: pool_upd pool_counts_def scheduler_stopping_def)
next
  case (sc_idle_back s i)
  then show ?case
    by (intro counts_set_pc [OF sc_idle_back.prems]) (auto simp: pool_upd pool_counts_def)
qed

lemma in_hand_none: "\<forall>x\<in>set xs. taken_task (wk_pc x) = {#} \<Longrightarrow> in_hand xs = {#}"
  by (induction xs) (auto simp: in_hand_def)

lemma in_hand_empty: "\<forall>x\<in>set xs. wk_pc x = Looking \<Longrightarrow> in_hand xs = {#}"
  by (intro in_hand_none) simp

lemma pool_counts_start: "pool_start s \<Longrightarrow> pool_counts s"
  by (auto simp: pool_start_def pool_counts_def in_hand_empty worker_active_def worker_idle_def
      intro!: sym [of "count_if _ _" 0] arg_cong [where f = of_nat and y = 0] simp: count_if_zero_iff [THEN iffD2])

interpretation pool_safe: safe_system pool_start "pool_step G" pool_counts
  by unfold_locales (auto intro: pool_counts_start pool_counts_step)


section \<open>Exclusive use of a fiber\<close>

definition queued :: "nat \<Rightarrow> 'u pool \<Rightarrow> nat" where
  "queued f s = count_if (\<lambda>t. tk_fiber t = Some f) (m_tasks (pl_sched s))"

definition owners :: "nat \<Rightarrow> 'u pool \<Rightarrow> nat" where
  "owners f s = queued f s + count_if (holds f) (pl_workers s)"

text \<open>
  The discipline under which fibers are shared safely: a fiber is scheduled only when it is ready and
  neither queued nor in the hands of a worker, in particular not before its switch out is complete.
\<close>

definition exclusive_guard :: "'u pool \<Rightarrow> 'u sched_task \<Rightarrow> bool" where
  "exclusive_guard s t \<longleftrightarrow> (case tk_fiber t of None \<Rightarrow> True
     | Some f \<Rightarrow> owners f s = 0 \<and> pl_fibers s f = Some READY)"

fun pc_fits :: "(nat \<rightharpoonup> fiber_state) \<Rightarrow> 'u worker_pc \<Rightarrow> bool" where
  "pc_fits m (Taken t) = (case tk_fiber t of None \<Rightarrow> True | Some f \<Rightarrow> m f = Some READY)"
| "pc_fits m (On_Task f) = (m f = Some RUNNING)"
| "pc_fits m (Leaving f) = (m f \<noteq> None)"
| "pc_fits m _ = True"

definition pool_excl :: "'u pool \<Rightarrow> bool" where
  "pool_excl s \<longleftrightarrow> (\<forall>f. owners f s \<le> 1) \<and>
     (\<forall>t\<in>set (m_tasks (pl_sched s)). \<forall>f. tk_fiber t = Some f \<longrightarrow> pl_fibers s f = Some READY) \<and>
     (\<forall>x\<in>set (pl_workers s). pc_fits (pl_fibers s) (wk_pc x))"

lemma pc_fits_other:
  "pc_fits m (wk_pc x) \<Longrightarrow> (\<And>f. holds f x \<Longrightarrow> m' f = m f) \<Longrightarrow> pc_fits m' (wk_pc x)"
  by (cases "wk_pc x") (auto simp: holds_def split: option.splits)

lemma pc_fits_held: "pc_fits m (wk_pc x) \<Longrightarrow> holds f x \<Longrightarrow> m f \<noteq> None"
  by (cases "wk_pc x") (auto simp: holds_def)

lemma queued_pos: "t \<in> set (m_tasks (pl_sched s)) \<Longrightarrow> tk_fiber t = Some f \<Longrightarrow> 0 < queued f s"
  unfolding queued_def using count_if_zero_iff [of "\<lambda>t. tk_fiber t = Some f" "m_tasks (pl_sched s)"] by fastforce

lemma unallocated_unowned:
  assumes "pool_excl s" and "pl_fibers s f = None"
  shows "owners f s = 0"
proof -
  have "queued f s = 0"
    using assms by (fastforce simp: queued_def count_if_zero_iff pool_excl_def)
  moreover have "count_if (holds f) (pl_workers s) = 0"
    unfolding count_if_zero_iff using assms pc_fits_held by (fastforce simp: pool_excl_def)
  ultimately show ?thesis by (simp add: owners_def)
qed

lemma count_if_two:
  assumes "i < length xs" and "j < length xs" and "i \<noteq> j" and "P (xs ! i)" and "P (xs ! j)"
  shows "2 \<le> count_if P xs"
proof -
  have "{i, j} \<subseteq> {k. k < length xs \<and> P (xs ! k)}" using assms by auto
  then have "card {i, j} \<le> card {k. k < length xs \<and> P (xs ! k)}"
    by (rule card_mono [rotated]) simp
  then show ?thesis
    using assms(3) by (simp add: count_if_def length_filter_conv_card)
qed

lemma sole_owner:
  assumes e: "pool_excl s" and i: "i < length (pl_workers s)" and h: "holds f (pl_workers s ! i)"
  shows "queued f s = 0" and "j < length (pl_workers s) \<Longrightarrow> holds f (pl_workers s ! j) \<Longrightarrow> j = i"
proof -
  have le: "queued f s + count_if (holds f) (pl_workers s) \<le> 1"
    using e by (simp add: pool_excl_def owners_def)
  with count_if_pos [of i "pl_workers s" "holds f"] i h show "queued f s = 0" by simp
  show "j = i" if "j < length (pl_workers s)" "holds f (pl_workers s ! j)"
    using count_if_two [of j "pl_workers s" i "holds f"] that i h le by (cases "j = i") auto
qed

lemma excl_move:
  fixes s :: "'u pool" and s' :: "'u pool"
  assumes e: "pool_excl s" and i: "i < length (pl_workers s)"
    and ws: "pl_workers s' = (pl_workers s)[i := y]" and x: "x = pl_workers s ! i"
    and own: "\<And>f. queued f s' + of_bool (holds f y) \<le> queued f s + of_bool (holds f x) \<or>
      (pl_fibers s f = None \<and> queued f s' \<le> queued f s)"
    and fib: "\<And>f. pl_fibers s' f = pl_fibers s f \<or> holds f x \<or> pl_fibers s f = None"
    and tasks: "set (m_tasks (pl_sched s')) \<subseteq> set (m_tasks (pl_sched s))"
    and y: "pc_fits (pl_fibers s') (wk_pc y)"
  shows "pool_excl s'"
proof -
  have cnt: "count_if (holds f) (pl_workers s') + of_bool (holds f x) =
      count_if (holds f) (pl_workers s) + of_bool (holds f y)" for f
    using count_if_update [OF i, of "holds f" y] by (simp add: ws x of_bool_def)
  have own': "owners f s' \<le> 1" for f
    using own [of f]
  proof
    assume "queued f s' + of_bool (holds f y) \<le> queued f s + of_bool (holds f x)"
    with cnt [of f] have "owners f s' \<le> owners f s" by (simp add: owners_def)
    also have "\<dots> \<le> 1" using e by (simp add: pool_excl_def)
    finally show ?thesis .
  next
    assume a: "pl_fibers s f = None \<and> queued f s' \<le> queued f s"
    with unallocated_unowned [OF e] have "queued f s' = 0" "count_if (holds f) (pl_workers s) = 0"
      by (auto simp: owners_def)
    with cnt [of f] show ?thesis by (simp add: owners_def of_bool_def split: if_splits)
  qed
  have "pl_fibers s' f = Some READY" if t: "t \<in> set (m_tasks (pl_sched s'))" "tk_fiber t = Some f" for t f
  proof -
    from t tasks have q: "t \<in> set (m_tasks (pl_sched s))" by auto
    with t e have r: "pl_fibers s f = Some READY" by (auto simp: pool_excl_def)
    have "\<not> holds f x" using sole_owner(1) [OF e i, of f] queued_pos [OF q t(2)] x by auto
    with fib [of f] r show ?thesis by simp
  qed
  moreover have "pc_fits (pl_fibers s') (wk_pc z)" if "z \<in> set (pl_workers s')" for z
  proof -
    from that obtain j where j: "j < length (pl_workers s)" "z = (pl_workers s)[i := y] ! j"
      by (auto simp: ws in_set_conv_nth)
    show ?thesis
    proof (cases "j = i")
      case True
      with j y show ?thesis by simp
    next
      case False
      with j have z: "z = pl_workers s ! j" by simp
      have "z \<in> set (pl_workers s)" unfolding z using j(1) by (rule nth_mem)
      then have fits: "pc_fits (pl_fibers s) (wk_pc z)" using e by (simp add: pool_excl_def)
      then show ?thesis
      proof (rule pc_fits_other)
        fix f assume h: "holds f z"
        then have "\<not> holds f x" using sole_owner(2) [OF e i, of f j] j z x False by auto
        with fib [of f] pc_fits_held [OF fits h] show "pl_fibers s' f = pl_fibers s f" by auto
      qed
    qed
  qed
  ultimately show ?thesis
    using own' by (simp add: pool_excl_def)
qed

lemmas excl_set_pc = excl_move [where y = "(pl_workers s ! i)\<lparr>wk_pc := c\<rparr>" and
    s' = "set_pc i c s1" for s i c s1, OF _ _ _ refl]

lemmas excl_set_idle = excl_move [where y = "(pl_workers s ! i)\<lparr>wk_idle_state := st, wk_pc := c\<rparr>" and
    s' = "set_pc i c (set_idle i st s1)" for s i st c s1, OF _ _ _ refl]

lemma fits_at: "pool_excl s \<Longrightarrow> at_pc s i c \<Longrightarrow> pc_fits (pl_fibers s) c"
  by (auto simp: pool_excl_def at_pc_def)

lemmas excl_simps = set_pc_def set_idle_def at_pc_def holds_def queued_def

lemma pool_excl_step:
  "pool_step exclusive_guard s s' \<Longrightarrow> pool_excl s \<Longrightarrow> pool_excl s'"
proof (induction rule: pool_step.induct)
  case (sc_schedule s t)
  then show ?case
    by (auto simp: pool_excl_def owners_def queued_def exclusive_guard_def split: option.splits)
next
  case (sc_new_fiber s f)
  then have z: "owners f s = 0" by (simp add: unallocated_unowned)
  have "pc_fits ((pl_fibers s)(f \<mapsto> READY)) (wk_pc x)" if "x \<in> set (pl_workers s)" for x
  proof (rule pc_fits_other [where m = "pl_fibers s"])
    show "pc_fits (pl_fibers s) (wk_pc x)" using that sc_new_fiber.prems by (simp add: pool_excl_def)
    show "((pl_fibers s)(f \<mapsto> READY)) g = pl_fibers s g" if "holds g x" for g
      using z \<open>x \<in> set (pl_workers s)\<close> that by (auto simp: owners_def count_if_zero_iff)
  qed
  with sc_new_fiber show ?case
    by (auto simp: pool_excl_def owners_def queued_def)
next
  case (sc_stop s)
  then show ?case by (simp add: pool_excl_def owners_def queued_def)
next
  case (sc_find s i t k sch)
  from sc_find.hyps(2) obtain pre post where l: "m_tasks (pl_sched s) = pre @ t # post"
    "sch = (pl_sched s)\<lparr>m_tasks := pre @ post, m_activeThreadCount := m_activeThreadCount (pl_sched s) + 1\<rparr>"
    by (rule run_lookup_Some)
  have "pc_fits (pl_fibers s) (Taken t)"
    using sc_find.prems l(1) by (auto simp: pool_excl_def split: option.splits)
  with sc_find.hyps l show ?case
    by (intro excl_set_pc [OF sc_find.prems]) (auto simp: excl_simps)
next
  case (sc_none s i k sch)
  then have "sch = pl_sched s" by (simp add: run_lookup_None)
  with sc_none.hyps show ?case
    by (intro excl_set_pc [OF sc_none.prems]) (auto simp: excl_simps)
next
  case (sc_resume s i t f)
  then show ?case
    by (intro excl_set_pc [OF sc_resume.prems]) (auto simp: excl_simps)
next
  case (sc_callback s i t f)
  then show ?case
    by (intro excl_set_pc [OF sc_callback.prems]) (auto simp: excl_simps)
next
  case (sc_yield s i f)
  then show ?case
    by (intro excl_set_pc [OF sc_yield.prems]) (auto simp: excl_simps)
next
  case (sc_end s i f)
  then show ?case
    by (intro excl_set_pc [OF sc_end.prems]) (auto simp: excl_simps)
next
  case (sc_switch s i f)
  then show ?case
    by (intro excl_set_pc [OF sc_switch.prems]) (auto simp: excl_simps)
next
  case (sc_done s i)
  then show ?case
    by (intro excl_set_pc [OF sc_done.prems]) (auto simp: excl_simps)
next
  case (sc_exit s i)
  then show ?case
    by (intro excl_set_pc [OF sc_exit.prems]) (auto simp: excl_simps)
next
  case (sc_idle s i)
  then show ?case
    by (intro excl_set_idle [OF sc_idle.prems]) (auto simp: excl_simps)
next
  case (sc_idle_yield s i)
  then show ?case
    by (intro excl_set_idle [OF sc_idle_yield.prems]) (auto simp: excl_simps)
next
  case (sc_idle_end s i)
  then show ?case
    by (intro excl_set_idle [OF sc_idle_end.prems]) (auto simp: excl_simps)
next
  case (sc_idle_back s i)
  then show ?case
    by (intro excl_set_pc [OF sc_idle_back.prems]) (auto simp: excl_simps)
qed

lemma pool_excl_start: "pool_start s \<Longrightarrow> pool_excl s"
  by (auto simp: pool_excl_def pool_start_def owners_def queued_def holds_def
      intro!: order.trans [OF eq_imp_le [OF count_if_zero_iff [THEN iffD2]]])

interpretation pool_excl_safe: safe_system pool_start "pool_step exclusive_guard" pool_excl
  by unfold_locales (auto intro: pool_excl_start pool_excl_step)


section \<open>A task that no worker may take\<close>

definition blocked_by :: "'u sched_task \<Rightarrow> 'u pool \<Rightarrow> bool" where
  "blocked_by t s \<longleftrightarrow> t \<in> set (m_tasks (pl_sched s)) \<and>
     (\<forall>x\<in>set (pl_workers s). pinned_elsewhere (wk_id x) t \<and> wk_idle_state x \<noteq> TERMINATED \<and> wk_pc x \<noteq> Exited)"

lemma blocked_move:
  fixes s :: "'u pool" and s' :: "'u pool"
  assumes "blocked_by t s" and "i < length (pl_workers s)" and "pl_workers s' = (pl_workers s)[i := y]"
    and "t \<in> set (m_tasks (pl_sched s'))" and "wk_id y = wk_id (pl_workers s ! i)"
    and "wk_idle_state y \<noteq> TERMINATED" and "wk_pc y \<noteq> Exited"
  shows "blocked_by t s'"
  using assms set_update_subset_insert [of "pl_workers s" i y] unfolding blocked_by_def
  by (auto dest!: subsetD)

lemma blocked_step: "pool_step G s s' \<Longrightarrow> blocked_by t s \<Longrightarrow> blocked_by t s'"
proof (induction rule: pool_step.induct)
  case (sc_find s i t' k sch)
  from sc_find.hyps(2) obtain pre post where l: "m_tasks (pl_sched s) = pre @ t' # post"
    "eligible (pool_running s) (wk_id (pl_workers s ! i)) t'"
    "sch = (pl_sched s)\<lparr>m_tasks := pre @ post, m_activeThreadCount := m_activeThreadCount (pl_sched s) + 1\<rparr>"
    by (rule run_lookup_Some)
  have "pinned_elsewhere (wk_id (pl_workers s ! i)) t"
    using sc_find by (auto simp: blocked_by_def at_pc_def)
  with l(2) have "t \<noteq> t'" by (auto simp: eligible_def)
  with sc_find l show ?case
    by (intro blocked_move [OF sc_find.prems, where i = i and y = "(pl_workers s ! i)\<lparr>wk_pc := Taken t'\<rparr>"])
       (auto simp: set_pc_def at_pc_def blocked_by_def)
next
  case (sc_none s i k sch)
  then have "sch = pl_sched s" by (simp add: run_lookup_None)
  with sc_none show ?case
    by (intro blocked_move [OF sc_none.prems, where i = i and y = "(pl_workers s ! i)\<lparr>wk_pc := No_Task\<rparr>"])
       (auto simp: set_pc_def at_pc_def blocked_by_def)
next
  case (sc_resume s i t' f)
  then show ?case
    by (intro blocked_move [OF sc_resume.prems, where i = i and y = "(pl_workers s ! i)\<lparr>wk_pc := On_Task f\<rparr>"])
       (auto simp: set_pc_def at_pc_def blocked_by_def)
next
  case (sc_callback s i t' f)
  then show ?case
    by (intro blocked_move [OF sc_callback.prems, where i = i and y = "(pl_workers s ! i)\<lparr>wk_pc := On_Task f\<rparr>"])
       (auto simp: set_pc_def at_pc_def blocked_by_def)
next
  case (sc_yield s i f)
  then show ?case
    by (intro blocked_move [OF sc_yield.prems, where i = i and y = "(pl_workers s ! i)\<lparr>wk_pc := Leaving f\<rparr>"])
       (auto simp: set_pc_def at_pc_def blocked_by_def)
next
  case (sc_end s i f)
  then show ?case
    by (intro blocked_move [OF sc_end.prems, where i = i and y = "(pl_workers s ! i)\<lparr>wk_pc := Leaving f\<rparr>"])
       (auto simp: set_pc_def at_pc_def blocked_by_def)
next
  case (sc_switch s i f)
  then show ?case
    by (intro blocked_move [OF sc_switch.prems, where i = i and y = "(pl_workers s ! i)\<lparr>wk_pc := Task_Returned\<rparr>"])
       (auto simp: set_pc_def at_pc_def blocked_by_def)
next
  case (sc_done s i)
  then show ?case
    by (intro blocked_move [OF sc_done.prems, where i = i and y = "(pl_workers s ! i)\<lparr>wk_pc := Looking\<rparr>"])
       (auto simp: set_pc_def at_pc_def blocked_by_def)
next
  case (sc_idle s i)
  then show ?case
    by (intro blocked_move [OF sc_idle.prems, where i = i and
          y = "(pl_workers s ! i)\<lparr>wk_idle_state := RUNNING, wk_pc := On_Idle\<rparr>"])
       (auto simp: set_pc_def set_idle_def at_pc_def blocked_by_def)
next
  case (sc_idle_yield s i)
  then show ?case
    by (intro blocked_move [OF sc_idle_yield.prems, where i = i and
          y = "(pl_workers s ! i)\<lparr>wk_idle_state := READY, wk_pc := Idle_Returned\<rparr>"])
       (auto simp: set_pc_def set_idle_def at_pc_def blocked_by_def)
next
  case (sc_idle_back s i)
  then show ?case
    by (intro blocked_move [OF sc_idle_back.prems, where i = i and y = "(pl_workers s ! i)\<lparr>wk_pc := Looking\<rparr>"])
       (auto simp: set_pc_def at_pc_def blocked_by_def)
qed (auto simp: blocked_by_def scheduler_stopping_def at_pc_def)

interpretation blocked_safe: safe_system "\<lambda>s. s = s0 \<and> blocked_by t s" "pool_step G" "blocked_by t"
  by unfold_locales (auto intro: blocked_step)

section \<open>Properties\<close>

definition sample_sched0 :: "nat scheduler" where
  "sample_sched0 = (sample_scheduler [])\<lparr>m_threads := [1, 2], m_threadIds := [1, 2], m_threadCount := 2,
     m_useCaller := False, m_rootFiber := None, m_rootThread := None\<rparr>"

definition sample_worker :: "nat \<Rightarrow> nat worker" where
  "sample_worker n = \<lparr>wk_id = n, wk_idle_state = READY, wk_pc = Looking\<rparr>"

text \<open>Two workers, with the identifiers 1 and 2, that have just been started.\<close>

definition pool0 :: "nat pool" where
  "pool0 = \<lparr>pl_sched = sample_sched0, pl_fibers = Map.empty, pl_workers = [sample_worker 1, sample_worker 2],
     pl_pushed = {#}, pl_started = {#}\<rparr>"

lemma pool0_start: "pool_start pool0"
  by (auto simp: pool0_def sample_sched0_def caller_scheduler_def sample_worker_def pool_start_def)

lemma pool0_reach: "reach pool_start (pool_step G) pool0"
  by (rule reach_start) (rule pool0_start)

text \<open>C1: the thread counters. In every interleaving of the workers, of \<open>schedule\<close> and of
  \<open>stop\<close>, \<open>m_activeThreadCount\<close> counts the workers between taking a task and the end
  of its turn, \<open>m_idleThreadCount\<close> those in their idle fiber, so that \<open>hasIdleThreads\<close>
  is exact; and \<open>stopping\<close> says exactly that a stop was requested, every task
  pushed so far has been started, and no worker has a task in hand or on its stack.\<close>

theorem pool_counters_exact:
  assumes "reach pool_start (pool_step G) s" and "length (pl_workers s) < 2 ^ 64"
  shows "unat (m_activeThreadCount (pl_sched s)) = count_if worker_active (pl_workers s) \<and>
     unat (m_idleThreadCount (pl_sched s)) = count_if worker_idle (pl_workers s) \<and>
     (hasIdleThreads (pl_sched s) \<longleftrightarrow> (\<exists>x\<in>set (pl_workers s). worker_idle x)) \<and>
     (scheduler_stopping (pl_sched s) \<longleftrightarrow> m_stopping (pl_sched s) \<and> pl_pushed s = pl_started s \<and>
        (\<forall>x\<in>set (pl_workers s). \<not> worker_active x))"
proof -
  have c: "pool_counts s" by (rule pool_safe.reach_inv [OF assms(1)])
  have lt: "count_if P (pl_workers s) < 2 ^ 64" for P
    unfolding count_if_def using assms(2) by (rule le_less_trans [OF length_filter_le])
  have u: "unat (of_nat (count_if P (pl_workers s)) :: 64 word) = count_if P (pl_workers s)" for P
    using lt [of P] by (simp add: unat_of_nat)
  have act: "unat (m_activeThreadCount (pl_sched s)) = count_if worker_active (pl_workers s)"
    and idl: "unat (m_idleThreadCount (pl_sched s)) = count_if worker_idle (pl_workers s)"
    using c u by (simp_all add: pool_counts_def)
  have "m_activeThreadCount (pl_sched s) = 0 \<longleftrightarrow> (\<forall>x\<in>set (pl_workers s). \<not> worker_active x)"
    using act by (metis count_if_zero_iff unat_eq_zero)
  moreover have "m_idleThreadCount (pl_sched s) > 0 \<longleftrightarrow> (\<exists>x\<in>set (pl_workers s). worker_idle x)"
    using idl by (metis count_if_zero_iff unat_eq_zero word_gt_0)
  moreover have "in_hand (pl_workers s) = {#}" if "\<forall>x\<in>set (pl_workers s). \<not> worker_active x"
  proof -
    have "taken_task (wk_pc x) = {#}" if "\<not> worker_active x" for x :: "'a worker"
      using that by (cases "wk_pc x") (auto simp: worker_active_def)
    with that show ?thesis by (intro in_hand_none) simp
  qed
  moreover have "pl_pushed s = pl_started s \<longleftrightarrow> m_tasks (pl_sched s) = [] \<and> in_hand (pl_workers s) = {#}"
    using c by (simp add: pool_counts_def)
  ultimately show ?thesis
    using act idl by (auto simp: hasIdleThreads_def scheduler_stopping_def)
qed

theorem pool_counters_exact_witness:
  "\<not> hasIdleThreads (pl_sched pool0) \<and> unat (m_activeThreadCount (pl_sched pool0)) = 0"
  using pool_counters_exact [OF pool0_reach [of "\<lambda>_ _. True"]]
  by (auto simp: pool0_def sample_worker_def worker_idle_def worker_active_def)

text \<open>C2: exclusive fibers. As long as a fiber is only scheduled when it is ready and neither queued nor in
  the hands of a worker, no two workers ever have the same fiber on their stacks, whatever the
  interleaving, and a worker that has taken a fiber finds it ready, so that the assertion at the
  start of \<open>resume\<close> holds.\<close>

theorem fibers_exclusive:
  assumes "reach pool_start (pool_step exclusive_guard) s"
  shows "(\<forall>i j f. i < length (pl_workers s) \<and> j < length (pl_workers s) \<and>
            on_stack_of f (pl_workers s ! i) \<and> on_stack_of f (pl_workers s ! j) \<longrightarrow> i = j) \<and>
         (\<forall>i t f. at_pc s i (Taken t) \<and> tk_fiber t = Some f \<longrightarrow> pl_fibers s f = Some READY)"
proof -
  have e: "pool_excl s" by (rule pool_excl_safe.reach_inv [OF assms])
  have "on_stack_of f x \<Longrightarrow> holds f x" for f and x :: "'a worker"
    by (auto simp: on_stack_of_def holds_def split: worker_pc.splits)
  then have "i = j" if "i < length (pl_workers s)" "j < length (pl_workers s)"
    "on_stack_of f (pl_workers s ! i)" "on_stack_of f (pl_workers s ! j)" for i j f
    using sole_owner(2) [OF e, of j f i] that by blast
  moreover have "pl_fibers s f = Some READY" if "at_pc s i (Taken t)" "tk_fiber t = Some f" for i t f
    using fits_at [OF e that(1)] that(2) by simp
  ultimately show ?thesis by blast
qed

text \<open>Fiber 5 is created, scheduled, taken and resumed by the first worker.\<close>

abbreviation task5 :: "nat sched_task" where
  "task5 \<equiv> task_of_fiber (Some 5) None"

definition pool1 :: "nat pool" where
  "pool1 = pool0\<lparr>pl_fibers := [5 \<mapsto> READY]\<rparr>"

definition pool2 :: "nat pool" where
  "pool2 = pool1\<lparr>pl_sched := sample_sched0\<lparr>m_tasks := [task5]\<rparr>, pl_pushed := {#task5#}\<rparr>"

definition pool3 :: "nat pool" where
  "pool3 = pool2\<lparr>pl_sched := sample_sched0\<lparr>m_activeThreadCount := 1\<rparr>,
     pl_workers := [(sample_worker 1)\<lparr>wk_pc := Taken task5\<rparr>, sample_worker 2]\<rparr>"

definition pool4 :: "nat pool" where
  "pool4 = pool3\<lparr>pl_fibers := [5 \<mapsto> RUNNING], pl_started := {#task5#},
     pl_workers := [(sample_worker 1)\<lparr>wk_pc := On_Task 5\<rparr>, sample_worker 2]\<rparr>"

lemmas pool_defs = pool4_def pool3_def pool2_def pool1_def pool0_def sample_sched0_def caller_scheduler_def
  sample_worker_def

lemma pool_step1: "pool_step G pool0 pool1"
  using sc_new_fiber [of pool0 5 G] by (simp add: pool_defs)

lemma pool_step2: "G pool1 task5 \<Longrightarrow> pool_step G pool1 pool2"
  using sc_schedule [of G pool1 task5]
  by (simp add: pool_defs schedule_def schedule_no_lock_def)

lemma pool_step3: "pool_step G pool2 pool3"
proof -
  have "run_lookup (pool_running pool2) 1 (pl_sched pool2) =
      (Some task5, False, sample_sched0\<lparr>m_activeThreadCount := 1\<rparr>)"
    by (simp add: pool_defs run_lookup_def pool_running_def)
  then show ?thesis
    using sc_find [of pool2 0 task5 False "sample_sched0\<lparr>m_activeThreadCount := 1\<rparr>" G]
    by (simp add: pool_defs at_pc_def set_pc_def)
qed

lemma pool_step4: "pool_step G pool3 pool4"
  using sc_resume [of pool3 0 task5 5 G] by (simp add: pool_defs at_pc_def set_pc_def)

lemma pool4_reach: "G pool1 task5 \<Longrightarrow> reach pool_start (pool_step G) pool4"
  by (rule reach_step [OF reach_step [OF reach_step [OF reach_step [OF pool0_reach pool_step1]
        pool_step2] pool_step3] pool_step4])

theorem fibers_exclusive_witness:
  "reach pool_start (pool_step exclusive_guard) pool4 \<and> on_stack_of 5 (pl_workers pool4 ! 0) \<and>
   \<not> on_stack_of 5 (pl_workers pool4 ! 1)"
proof -
  have r: "reach pool_start (pool_step exclusive_guard) pool4"
    by (rule pool4_reach) (simp add: exclusive_guard_def owners_def queued_def holds_def pool_defs)
  have "on_stack_of 5 (pl_workers pool4 ! 0)"
    by (simp add: pool_defs on_stack_of_def)
  moreover have "length (pl_workers pool4) = 2" by (simp add: pool_defs)
  ultimately show ?thesis
    using r fibers_exclusive [OF r] by (metis one_less_numeral_iff semiring_norm(76) zero_less_numeral zero_neq_one)
qed

text \<open>No fiber is queued twice; nothing is said about fibers on a stack.\<close>

definition queue_once_guard :: "'u pool \<Rightarrow> 'u sched_task \<Rightarrow> bool" where
  "queue_once_guard s t \<longleftrightarrow> (case tk_fiber t of None \<Rightarrow> True | Some f \<Rightarrow> queued f s = 0)"

definition pool8 :: "nat pool" where
  "pool8 = pool4\<lparr>pl_sched := sample_sched0\<lparr>m_activeThreadCount := 2\<rparr>, pl_fibers := [5 \<mapsto> RUNNING],
     pl_pushed := {#task5, task5#}, pl_started := {#task5, task5#},
     pl_workers := [(sample_worker 1)\<lparr>wk_pc := Leaving 5\<rparr>, (sample_worker 2)\<lparr>wk_pc := On_Task 5\<rparr>]\<rparr>"

lemma pool8_reach: "reach pool_start (pool_step queue_once_guard) pool8"
proof -
  let ?s5 = "pool4\<lparr>pl_sched := sample_sched0\<lparr>m_tasks := [task5], m_activeThreadCount := 1\<rparr>,
    pl_pushed := {#task5, task5#}\<rparr>"
  let ?s6 = "?s5\<lparr>pl_fibers := [5 \<mapsto> READY],
    pl_workers := [(sample_worker 1)\<lparr>wk_pc := Leaving 5\<rparr>, sample_worker 2]\<rparr>"
  let ?s7 = "?s6\<lparr>pl_sched := sample_sched0\<lparr>m_activeThreadCount := 2\<rparr>,
    pl_workers := [(sample_worker 1)\<lparr>wk_pc := Leaving 5\<rparr>, (sample_worker 2)\<lparr>wk_pc := Taken task5\<rparr>]\<rparr>"
  have "reach pool_start (pool_step queue_once_guard) pool4"
    by (rule pool4_reach) (simp add: queue_once_guard_def queued_def pool_defs)
  moreover have "pool_step queue_once_guard pool4 ?s5"
    using sc_schedule [of queue_once_guard pool4 task5]
    by (simp add: pool_defs schedule_def schedule_no_lock_def queue_once_guard_def queued_def)
  ultimately have "reach pool_start (pool_step queue_once_guard) ?s5" by (rule reach_step)
  moreover have "pool_step queue_once_guard ?s5 ?s6"
    using sc_yield [of ?s5 0 5 queue_once_guard] by (simp add: pool_defs at_pc_def set_pc_def)
  ultimately have r: "reach pool_start (pool_step queue_once_guard) ?s6" by (rule reach_step)
  have "run_lookup (pool_running ?s6) 2 (pl_sched ?s6) =
      (Some task5, False, sample_sched0\<lparr>m_activeThreadCount := 2\<rparr>)"
    by (simp add: pool_defs run_lookup_def pool_running_def)
  then have "pool_step queue_once_guard ?s6 ?s7"
    using sc_find [of ?s6 1 task5 False "sample_sched0\<lparr>m_activeThreadCount := 2\<rparr>" queue_once_guard]
    by (simp add: pool_defs at_pc_def set_pc_def)
  with r have "reach pool_start (pool_step queue_once_guard) ?s7" by (rule reach_step)
  moreover have "pool_step queue_once_guard ?s7 pool8"
    using sc_resume [of ?s7 1 task5 5 queue_once_guard]
    by (simp add: pool8_def pool_defs at_pc_def set_pc_def)
  ultimately show ?thesis by (rule reach_step)
qed

text \<open>C25: why RUNNING fibers are not enough. Even when no fiber is ever queued twice, skipping the fibers
  in state RUNNING does not make fibers exclusive: \<open>yield\<close> marks the fiber READY before it
  has left the stack, and a worker that finds the fiber queued in between resumes it, so that two
  workers execute on one stack.\<close>

theorem yield_race_two_runners:
  "\<exists>s :: nat pool. reach pool_start (pool_step queue_once_guard) s \<and>
     (\<exists>i j f. i \<noteq> j \<and> i < length (pl_workers s) \<and> j < length (pl_workers s) \<and>
        on_stack_of f (pl_workers s ! i) \<and> on_stack_of f (pl_workers s ! j))"
  by (intro exI [of _ pool8] conjI pool8_reach exI [of _ 0] exI [of _ 1] exI [of _ 5])
     (simp_all add: pool8_def pool_defs on_stack_of_def)

definition sample_blocked :: "nat pool" where
  "sample_blocked = pool0\<lparr>pl_sched := sample_sched0\<lparr>m_tasks := [task_of_cb (Some (User_Fn 1)) (Some 77)]\<rparr>\<rparr>"

text \<open>C36: a task for a thread that is not a worker. It stays in the queue for ever, whatever is scheduled,
  executed or stopped: \<open>stopping\<close> never becomes true again, no worker that has not ended
  already ever leaves its loop, and \<open>stop\<close>, which joins the workers, never returns.\<close>

theorem pinned_task_blocks_stop:
  assumes "t \<in> set (m_tasks (pl_sched s0))"
    and "\<forall>x\<in>set (pl_workers s0). pinned_elsewhere (wk_id x) t \<and> wk_idle_state x \<noteq> TERMINATED \<and> wk_pc x \<noteq> Exited"
    and "reach ((=) s0) (pool_step G) s"
  shows "t \<in> set (m_tasks (pl_sched s)) \<and> \<not> scheduler_stopping (pl_sched s) \<and>
         (\<forall>x\<in>set (pl_workers s). wk_pc x \<noteq> Exited)"
proof -
  have "blocked_by t s"
    by (rule blocked_safe.reach_from_inv [OF assms(3)]) (use assms(1,2) in \<open>simp add: blocked_by_def\<close>)
  then show ?thesis
    by (auto simp: blocked_by_def scheduler_stopping_def)
qed

theorem pinned_task_blocks_stop_witness:
  "\<not> scheduler_stopping ((pl_sched sample_blocked)\<lparr>m_stopping := True\<rparr>)"
proof -
  let ?s = "sample_blocked\<lparr>pl_sched := (pl_sched sample_blocked)\<lparr>m_stopping := True\<rparr>\<rparr>"
  have "reach ((=) sample_blocked) (pool_step (\<lambda>_ _. True)) ?s"
    by (rule reach_step, rule reach_start, rule refl) (rule sc_stop)
  from pinned_task_blocks_stop [OF _ _ this, of "task_of_cb (Some (User_Fn 1)) (Some 77)"] show ?thesis
    by (simp add: sample_blocked_def pool_defs pinned_elsewhere_def)
qed

end
