(* ===== verification/Worker_Loop.thy ===== *)
theory Worker_Loop
  imports Scheduler
begin

text \<open>
  The loop of \<open>Scheduler::run\<close> as a whole, on one thread: turn after turn until the idle fiber has
  ended. What the tasks do is a parameter, the tasks each function schedules before it returns; the
  loop itself may run forever, so it is given a number of turns, and the theorem says how many are
  enough.
\<close>

section \<open>The loop\<close>

text \<open>
  What happens between the switch to a fiber and the switch back. A task runs \<open>MainFunc\<close> from its
  entry to its end; \<open>body f\<close> are the tasks that \<open>f\<close> schedules. The idle fiber does one
  round of its own loop.
\<close>

definition exec_resumed ::
  "uc_api \<Rightarrow> 64 word \<Rightarrow> bool \<Rightarrow> nat \<Rightarrow> ('u sched_fn \<Rightarrow> 'u sched_task list) \<Rightarrow> run_after \<Rightarrow> run_locals
   \<Rightarrow> 'u scheduler \<Rightarrow> 'u sched_fn fiber_world \<Rightarrow> thread_ctx
   \<Rightarrow> ('u sched_fn list \<times> 'u scheduler \<times> 'u sched_fn fiber_world \<times> thread_ctx) outcome" where
  "exec_resumed u js jf np body a l s w tc =
     (if a = After_Idle then
        obind (scheduler_idle_turn u (idle_fiber l) s w tc) (\<lambda>(w1, tc1). Inr ([], s, w1, tc1))
      else
        obind (fiber_main_begin u js jf np w tc) (\<lambda>(cur, fn, w1, tc1).
          case fn of
            None \<Rightarrow> Inl Null_Deref
          | Some f \<Rightarrow>
              obind (fiber_main_end u cur w1 tc1) (\<lambda>(w2, tc2).
                Inr ([f], fold (\<lambda>t s. snd (schedule t s)) (body f) s, w2, tc2))))"

text \<open>
  One turn: the functions executed, and whether the loop ends. \<open>np\<close> and \<open>stack\<close> are where a
  fiber for a callback is allocated, \<open>owned\<close> whether somebody else owns a fiber.
\<close>

definition run_turn ::
  "uc_api \<Rightarrow> 64 word \<Rightarrow> bool \<Rightarrow> 64 word \<Rightarrow> nat \<Rightarrow> (nat \<Rightarrow> bool) \<Rightarrow> ('u sched_fn \<Rightarrow> 'u sched_task list) \<Rightarrow> nat
   \<Rightarrow> run_locals \<Rightarrow> 'u scheduler \<Rightarrow> 'u sched_fn fiber_world \<Rightarrow> thread_ctx
   \<Rightarrow> ('u sched_fn list \<times> bool \<times> run_locals \<times> 'u scheduler \<times> 'u sched_fn fiber_world \<times> thread_ctx) outcome" where
  "run_turn u js jf stack np owned body me l s w tc =
     (case run_lookup (fiber_running w) me s of (found, tickle_me, s1) \<Rightarrow>
        let task = (case found of Some t \<Rightarrow> t | None \<Rightarrow> task_reset)
        in obind (run_dispatch u stack np task l s1 w tc) (\<lambda>(after, l1, s2, w1, tc1).
             case after of
               None \<Rightarrow> Inr ([], True, l1, s2, w1, tc1)
             | Some a \<Rightarrow>
                 obind (exec_resumed u js jf np body a l1 s2 w1 tc1) (\<lambda>(fs, s3, w2, tc2).
                 obind (run_return owned a l1 s3 w2 tc2) (\<lambda>(l2, s4, w3, tc3).
                   Inr (fs, False, l2, s4, w3, tc3)))))"

fun run_loop ::
  "nat \<Rightarrow> uc_api \<Rightarrow> 64 word \<Rightarrow> bool \<Rightarrow> 64 word \<Rightarrow> nat \<Rightarrow> (nat \<Rightarrow> bool) \<Rightarrow> ('u sched_fn \<Rightarrow> 'u sched_task list) \<Rightarrow> nat
   \<Rightarrow> run_locals \<Rightarrow> 'u scheduler \<Rightarrow> 'u sched_fn fiber_world \<Rightarrow> thread_ctx
   \<Rightarrow> ('u sched_fn list \<times> bool \<times> run_locals \<times> 'u scheduler \<times> 'u sched_fn fiber_world \<times> thread_ctx) outcome" where
  "run_loop 0 u js jf stack np owned body me l s w tc = Inr ([], False, l, s, w, tc)"
| "run_loop (Suc n) u js jf stack np owned body me l s w tc =
     obind (run_turn u js jf stack np owned body me l s w tc) (\<lambda>(fs, ended, l1, s1, w1, tc1).
       if ended then Inr (fs, True, l1, s1, w1, tc1)
       else obind (run_loop n u js jf stack np owned body me l1 s1 w1 tc1) (\<lambda>(gs, rest). Inr (fs @ gs, rest)))"

section \<open>What it should do\<close>

text \<open>First in, first out: a function is executed, and what it schedules goes to the end of the queue.\<close>

fun fifo_run :: "('u sched_fn \<Rightarrow> 'u sched_task list) \<Rightarrow> nat \<Rightarrow> 'u sched_fn list \<Rightarrow> 'u sched_fn list" where
  "fifo_run body 0 fs = []"
| "fifo_run body (Suc n) [] = []"
| "fifo_run body (Suc n) (f # fs) = f # fifo_run body n (fs @ List.map_filter tk_cb (body f))"

text \<open>A callback this thread may execute, and a bound on the work behind each function.\<close>

definition local_cb :: "nat \<Rightarrow> 'u sched_task \<Rightarrow> bool" where
  "local_cb me t \<longleftrightarrow> tk_fiber t = None \<and> (tk_thread t = None \<or> tk_thread t = Some me)"

definition work_bound :: "('u sched_fn \<Rightarrow> 'u sched_task list) \<Rightarrow> ('u sched_fn \<Rightarrow> nat) \<Rightarrow> bool" where
  "work_bound body W \<longleftrightarrow> (\<forall>f. sum_list (map W (List.map_filter tk_cb (body f))) < W f)"

section \<open>One turn\<close>

lemma lookup_local:
  assumes "m_tasks s = t # ts" and "local_cb me t"
  shows "run_lookup running me s =
     (Some t, ts \<noteq> [], s\<lparr>m_tasks := ts, m_activeThreadCount := m_activeThreadCount s + 1\<rparr>)"
  using assms by (auto simp: run_lookup_def local_cb_def)

lemma fold_schedule_simps [simp]:
  "m_tasks (fold (\<lambda>t s. snd (schedule t s)) ts s) = m_tasks s @ filter (\<lambda>t. \<not> task_empty t) ts"
  "m_stopping (fold (\<lambda>t s. snd (schedule t s)) ts s) = m_stopping s"
  "m_activeThreadCount (fold (\<lambda>t s. snd (schedule t s)) ts s) = m_activeThreadCount s"
  "m_idleThreadCount (fold (\<lambda>t s. snd (schedule t s)) ts s) = m_idleThreadCount s"
  by (simp add: sq.pending_fold, (induction ts arbitrary: s; simp)+)

text \<open>The scheduler after a turn with \<open>f\<close>, the rest of the queue being \<open>ts\<close>.\<close>

definition after_cb :: "('u sched_fn \<Rightarrow> 'u sched_task list) \<Rightarrow> 'u sched_fn \<Rightarrow> 'u sched_task list \<Rightarrow> 'u scheduler \<Rightarrow> 'u scheduler" where
  "after_cb body f ts s =
     (let s1 = fold (\<lambda>t s. snd (schedule t s)) (body f) (s\<lparr>m_tasks := ts, m_activeThreadCount := m_activeThreadCount s + 1\<rparr>)
      in s1\<lparr>m_activeThreadCount := m_activeThreadCount s1 - 1\<rparr>)"

lemma after_cb_simps [simp]:
  "m_tasks (after_cb body f ts s) = ts @ filter (\<lambda>t. \<not> task_empty t) (body f)"
  "m_stopping (after_cb body f ts s) = m_stopping s"
  "m_activeThreadCount (after_cb body f ts s) = m_activeThreadCount s"
  "m_idleThreadCount (after_cb body f ts s) = m_idleThreadCount s"
  by (simp_all add: after_cb_def Let_def)

lemma turn_callback:
  fixes w :: "'u sched_fn fiber_world"
  assumes wf: "worker_wf g (w, tc)" and e: "t_exec tc = Some g" and g: "fibers w g = Some fg"
    and q: "run_lookup (fiber_running w) me s = (Some t, b, s\<lparr>m_tasks := ts, m_activeThreadCount := m_activeThreadCount s + 1\<rparr>)"
    and loc: "tk_fiber t = None" and cb: "tk_cb t = Some f"
    and l: "cb_fiber l = None" and np: "fibers w np = None" and st: "stack \<noteq> 0"
    and u: "\<not> uc_swap_fails u" "\<not> uc_get_fails u" and own: "\<not> owned np"
  shows "\<exists>w'. run_turn u js jf stack np owned body me l s w tc = Inr ([f], False, l, after_cb body f ts s, w', tc) \<and>
     fibers w' = (fibers w)(g \<mapsto> fg\<lparr>m_ctx := Ctx_At g\<rparr>) \<and> s_fiber_count w' = s_fiber_count w"
proof -
  let ?s1 = "s\<lparr>m_tasks := ts, m_activeThreadCount := m_activeThreadCount s + 1\<rparr>"
  from callback_round [where u = u and owned = owned and s = ?s1, OF wf e g loc cb l np st u own]
  obtain l1 w1 tc1 w2 w3 where d: "run_dispatch u stack np t l ?s1 w tc = Inr (Some After_Cb, l1, ?s1, w1, tc1)"
    and tc1: "t_exec tc1 = Some np" "t_fiber tc1 = Some np" "map_option m_fcb (fibers w1 np) = Some (Some f)"
    and e: "fiber_main_end u np w1 tc1 = Inr (w2, tc)"
    and r: "\<forall>s2. run_return owned After_Cb l1 s2 w2 tc =
       Inr (l, s2\<lparr>m_activeThreadCount := m_activeThreadCount s2 - 1\<rparr>, w3, tc)"
    and w3: "fibers w3 = (fibers w)(g \<mapsto> fg\<lparr>m_ctx := Ctx_At g\<rparr>)" "s_fiber_count w3 = s_fiber_count w"
    by blast
  from tc1 have b: "fiber_main_begin u js jf np w1 tc1 = Inr (np, Some f, w1, tc1)"
    by (auto simp: fiber_main_begin_def Fiber_GetThis_def)
  have "exec_resumed u js jf np body After_Cb l1 ?s1 w1 tc1 =
      Inr ([f], fold (\<lambda>t s. snd (schedule t s)) (body f) ?s1, w2, tc)"
    by (simp add: exec_resumed_def b e)
  with d r w3 show ?thesis
    by (simp add: run_turn_def q after_cb_def Let_def)
qed

lemma worker_wf_parked:
  assumes "worker_wf g (w, tc)" and "t_exec tc = Some g" and "fibers w g = Some fg"
    and "fibers w' = (fibers w)(g \<mapsto> fg\<lparr>m_ctx := Ctx_At g\<rparr>)"
  shows "worker_wf g (w', tc)"
  using assms by (auto simp: worker_wf_def)

text \<open>The last two turns: the idle fiber ends, then the loop does.\<close>

lemma turn_idle_end:
  fixes w :: "'u sched_fn fiber_world"
  assumes wf: "worker_wf g (w, tc)" and e: "t_exec tc = Some g" and g: "fibers w g = Some fg"
    and q: "m_tasks s = []" and idle: "fibers w (idle_fiber l) = Some fi" "m_state fi = READY" "idle_fiber l \<noteq> g"
    and stop: "m_stopping s" "m_activeThreadCount s = 0" and u: "\<not> uc_swap_fails u"
  shows "\<exists>w'. run_turn u js jf stack np owned body me l s w tc = Inr ([], False, l, s, w', tc) \<and>
     map_option m_state (fibers w' (idle_fiber l)) = Some TERMINATED \<and> s_fiber_count w' = s_fiber_count w"
proof -
  have tc: "t_scheduler_fiber tc = Some g" "t_thread_fiber tc = Some g" "t_fiber tc = Some g"
    using wf e by (auto simp: worker_wf_def)
  let ?s1 = "s\<lparr>m_idleThreadCount := m_idleThreadCount s + 1\<rparr>"
  let ?w1 = "w\<lparr>fibers := (fibers w)(idle_fiber l \<mapsto> fi\<lparr>m_state := RUNNING\<rparr>, g \<mapsto> fg\<lparr>m_ctx := Ctx_At g\<rparr>)\<rparr>"
  let ?tc1 = "tc\<lparr>t_fiber := Some (idle_fiber l), t_exec := Some (idle_fiber l)\<rparr>"
  have r: "fiber_resume u (idle_fiber l) w tc = Inr (?w1, ?tc1)"
    by (rule worker_resume_eq [OF wf e idle(3,1,2) u g])
  have k: "run_lookup (fiber_running w) me s = (None, False, s)"
    by (simp add: run_lookup_def q)
  have d: "run_dispatch u stack np task_reset l s w tc = Inr (Some After_Idle, l, ?s1, ?w1, ?tc1)"
    using idle r by (simp add: run_dispatch_def task_reset_def)
  have flag: "m_runInScheduler fi" using wf idle by (auto simp: worker_wf_def task_ok_def)
  let ?f = "fi\<lparr>m_fcb := None, m_state := TERMINATED\<rparr>"
  let ?w2 = "?w1\<lparr>fibers := (fibers ?w1)(idle_fiber l \<mapsto> ?f)\<rparr>"
  let ?w3 = "?w2\<lparr>fibers := (fibers ?w2)(idle_fiber l \<mapsto> ?f\<lparr>m_state := after_yield TERMINATED, m_ctx := Ctx_At (idle_fiber l)\<rparr>)\<rparr>"
  have y: "fiber_yield u (idle_fiber l) ?w2 ?tc1 = Inr (?w3, tc)"
    by (subst callback_leaves [where f = ?f and fg = "fg\<lparr>m_ctx := Ctx_At g\<rparr>" and g = g])
       (use tc e idle u flag in simp_all)
  have "fiber_main_end u (idle_fiber l) ?w1 ?tc1 = Inr (?w3, tc)"
    using y idle(3) by (simp add: fiber_main_end_def fiber_upd_def fun_upd_twist)
  moreover have "scheduler_stopping ?s1" using q stop by (simp add: scheduler_stopping_def)
  ultimately have x: "exec_resumed u js jf np body After_Idle l ?s1 ?w1 ?tc1 = Inr ([], ?s1, ?w3, tc)"
    by (simp add: exec_resumed_def scheduler_idle_turn_def)
  have "run_turn u js jf stack np owned body me l s w tc = Inr ([], False, l, s, ?w3, tc)"
    by (simp add: run_turn_def k d x run_return_def)
  then show ?thesis by (simp add: after_yield_def)
qed

lemma turn_exit:
  assumes "m_tasks s = []" and "map_option m_state (fibers w (idle_fiber l)) = Some TERMINATED"
  shows "run_turn u js jf stack np owned body me l s w tc = Inr ([], True, l, s, w, tc)"
  using assms by (auto simp: run_turn_def run_lookup_def run_dispatch_def task_reset_def)

section \<open>Draining the queue\<close>

definition queued_cbs :: "nat \<Rightarrow> 'u sched_task list \<Rightarrow> bool" where
  "queued_cbs me ts \<longleftrightarrow> (\<forall>t\<in>set ts. local_cb me t \<and> \<not> task_empty t)"

lemma queued_cbs_Cons: "queued_cbs me (t # ts) \<longleftrightarrow> local_cb me t \<and> (\<exists>f. tk_cb t = Some f) \<and> queued_cbs me ts"
  by (auto simp: queued_cbs_def local_cb_def task_empty_def)

lemma queued_cbs_append: "queued_cbs me (ts @ us) \<longleftrightarrow> queued_cbs me ts \<and> queued_cbs me us"
  by (auto simp: queued_cbs_def)

lemma queued_cbs_filter: "list_all (local_cb me) ts \<Longrightarrow> queued_cbs me (filter (\<lambda>t. \<not> task_empty t) ts)"
  by (auto simp: queued_cbs_def list_all_iff)

lemma map_filter_nonempty: "list_all (local_cb me) ts \<Longrightarrow>
  List.map_filter tk_cb (filter (\<lambda>t. \<not> task_empty t) ts) = List.map_filter tk_cb ts"
  by (induction ts) (auto simp: map_filter_simps local_cb_def task_empty_def split: option.splits)

lemma map_filter_append: "List.map_filter h (xs @ ys) = List.map_filter h xs @ List.map_filter h ys"
  by (induction xs) (simp_all add: map_filter_simps split: option.splits)

text \<open>The worker between two turns.\<close>

definition turn_ready ::
  "nat \<Rightarrow> nat \<Rightarrow> run_locals \<Rightarrow> 'u sched_fn fiber_world \<Rightarrow> thread_ctx \<Rightarrow> bool" where
  "turn_ready g np l w tc \<longleftrightarrow> worker_wf g (w, tc) \<and> t_exec tc = Some g \<and> cb_fiber l = None \<and> fibers w np = None \<and>
     idle_fiber l \<noteq> g \<and> map_option m_state (fibers w (idle_fiber l)) = Some READY"

lemma turn_ready_parked:
  assumes "turn_ready g np l w tc" and "fibers w g = Some fg" and "fibers w' = (fibers w)(g \<mapsto> fg\<lparr>m_ctx := Ctx_At g\<rparr>)"
  shows "turn_ready g np l w' tc"
  using assms worker_wf_parked [of g w tc fg w'] by (auto simp: turn_ready_def)

text \<open>The scheduler at the end.\<close>

fun sched_run :: "('u sched_fn \<Rightarrow> 'u sched_task list) \<Rightarrow> nat \<Rightarrow> 'u scheduler \<Rightarrow> 'u scheduler" where
  "sched_run body 0 s = s"
| "sched_run body (Suc n) s =
     (case m_tasks s of
        [] \<Rightarrow> s
      | t # ts \<Rightarrow> (case tk_cb t of None \<Rightarrow> s | Some f \<Rightarrow> sched_run body n (after_cb body f ts s)))"

lemma run_loop_drains:
  fixes w :: "'u sched_fn fiber_world"
  assumes st: "stack \<noteq> 0" and u: "\<not> uc_swap_fails u" "\<not> uc_get_fails u" and own: "\<not> owned np"
    and W: "work_bound body W" and body: "\<And>f. list_all (local_cb me) (body f)"
  shows "turn_ready g np l w tc \<Longrightarrow> m_stopping s \<Longrightarrow> m_activeThreadCount s = 0 \<Longrightarrow> queued_cbs me (m_tasks s) \<Longrightarrow>
    sum_list (map W (List.map_filter tk_cb (m_tasks s))) + 2 \<le> n \<Longrightarrow>
    \<exists>w'. run_loop n u js jf stack np owned body me l s w tc =
        Inr (fifo_run body n (List.map_filter tk_cb (m_tasks s)), True, l, sched_run body n s, w', tc) \<and>
      m_tasks (sched_run body n s) = [] \<and> m_activeThreadCount (sched_run body n s) = 0 \<and>
      m_idleThreadCount (sched_run body n s) = m_idleThreadCount s \<and>
      s_fiber_count w' = s_fiber_count w \<and> map_option m_state (fibers w' (idle_fiber l)) = Some TERMINATED"
proof (induction n arbitrary: s w)
  case (Suc n)
  have wf: "worker_wf g (w, tc)" and e: "t_exec tc = Some g" and l: "cb_fiber l = None" and np: "fibers w np = None"
    using Suc.prems(1) by (simp_all add: turn_ready_def)
  obtain fg where g: "fibers w g = Some fg" using wf e by (auto simp: worker_wf_def)
  show ?case
  proof (cases "m_tasks s")
    case Nil
    obtain fi where idle: "fibers w (idle_fiber l) = Some fi" "m_state fi = READY" "idle_fiber l \<noteq> g"
      using Suc.prems(1) by (auto simp: turn_ready_def)
    obtain w' where t1: "run_turn u js jf stack np owned body me l s w tc = Inr ([], False, l, s, w', tc)"
      and w': "map_option m_state (fibers w' (idle_fiber l)) = Some TERMINATED" "s_fiber_count w' = s_fiber_count w"
      using turn_idle_end [OF wf e g Nil idle Suc.prems(2,3) u(1)] by blast
    obtain m where "n = Suc m" using Suc.prems(5) by (cases n) auto
    with t1 turn_exit [OF Nil w'(1)] w' Nil Suc.prems(3) show ?thesis by (simp add: map_filter_simps)
  next
    case (Cons t ts)
    from Suc.prems(4) obtain f where t: "local_cb me t" "tk_cb t = Some f" and ts: "queued_cbs me ts"
      by (auto simp: Cons queued_cbs_Cons)
    obtain w1 where turn: "run_turn u js jf stack np owned body me l s w tc =
        Inr ([f], False, l, after_cb body f ts s, w1, tc)"
      and w1: "fibers w1 = (fibers w)(g \<mapsto> fg\<lparr>m_ctx := Ctx_At g\<rparr>)" "s_fiber_count w1 = s_fiber_count w"
      using turn_callback [OF wf e g lookup_local [OF Cons t(1)] _ t(2) l np st u, of owned js jf body] own t(1)
      by (auto simp: local_cb_def)
    have fns: "List.map_filter tk_cb (m_tasks (after_cb body f ts s)) = List.map_filter tk_cb ts @ List.map_filter tk_cb (body f)"
      by (simp add: map_filter_append map_filter_nonempty [OF body])
    have "sum_list (map W (List.map_filter tk_cb (body f))) < W f" using W by (simp add: work_bound_def)
    with Suc.prems(5) have n: "sum_list (map W (List.map_filter tk_cb (m_tasks (after_cb body f ts s)))) + 2 \<le> n"
      unfolding fns by (simp add: Cons t map_filter_simps)
    have "queued_cbs me (m_tasks (after_cb body f ts s))"
      by (simp add: queued_cbs_append ts queued_cbs_filter [OF body])
    from Suc.IH [OF turn_ready_parked [OF Suc.prems(1) g w1(1)] _ _ this n] Suc.prems(2,3) w1(2) turn
    show ?thesis by (auto simp: Cons t map_filter_simps fns [unfolded after_cb_simps])
  qed
qed simp

section \<open>Properties\<close>

text \<open>C7: \<open>run\<close> ends. A worker of a scheduler that was asked to stop, with callbacks in its queue that
  it may execute, each of which schedules only a bounded amount of further work before it returns,
  leaves the loop of \<open>run\<close> after finitely many turns: it has executed the callbacks and all they
  scheduled, in the order of a queue, the queue is empty, no thread is counted active, the fibers
  made for the callbacks are destroyed, and the idle fiber has ended. \<open>W\<close> bounds the work behind a
  function, and gives the number of turns that is enough.\<close>

theorem run_executes_all_and_ends:
  fixes w :: "'u sched_fn fiber_world"
  assumes "reach (worker_start g) (worker_step g) (w, tc)" and "t_exec tc = Some g" and "cb_fiber l = None"
    and "fibers w np = None" and "idle_fiber l \<noteq> g" and "map_option m_state (fibers w (idle_fiber l)) = Some READY"
    and "stack \<noteq> 0" and "\<not> uc_swap_fails u" and "\<not> uc_get_fails u" and "\<not> owned np"
    and "m_stopping s" and "m_activeThreadCount s = 0" and "queued_cbs me (m_tasks s)"
    and "work_bound body W" and "\<And>f. list_all (local_cb me) (body f)"
    and "sum_list (map W (List.map_filter tk_cb (m_tasks s))) + 2 \<le> n"
  shows "\<exists>s' w'. run_loop n u js jf stack np owned body me l s w tc =
       Inr (fifo_run body n (List.map_filter tk_cb (m_tasks s)), True, l, s', w', tc) \<and>
     m_tasks s' = [] \<and> m_activeThreadCount s' = 0 \<and> m_idleThreadCount s' = m_idleThreadCount s \<and>
     s_fiber_count w' = s_fiber_count w \<and> map_option m_state (fibers w' (idle_fiber l)) = Some TERMINATED"
proof -
  have "turn_ready g np l w tc"
    using worker_safe.reach_inv [OF assms(1)] assms(2-6) by (simp add: turn_ready_def)
  from run_loop_drains [where owned = owned, OF assms(7-10,14,15) this assms(11-13,16)] show ?thesis by blast
qed

text \<open>Two callbacks, the first of which schedules a third one, pinned to this thread.\<close>

definition sample_body :: "nat sched_fn \<Rightarrow> nat sched_task list" where
  "sample_body f = (if f = User_Fn 1 then [task_of_cb (Some (User_Fn 2)) (Some 5)] else [])"

definition sample_looping :: "nat sched_fn fiber_world" where
  "sample_looping = sample_pool\<lparr>fibers := (fibers sample_pool)(9 \<mapsto>
      \<lparr>m_id = 1, m_stacksize = fiber_stacksize 0, m_state = READY, m_ctx = Ctx_Entry, m_stack = 4096,
       m_fcb = Some Idle_Loop, m_runInScheduler = True\<rparr>), s_fiber_id := 2, s_fiber_count := 2\<rparr>"

lemma sample_looping_reach: "reach (worker_start 0) (worker_step 0) (sample_looping, sample_tc)"
proof (rule reach_step [OF sample_pool_reach])
  have "fiber_new no_fail 4096 9 (Some Idle_Loop) 0 True sample_pool = Inr sample_looping"
    by (simp add: fiber_new_def sample_looping_def sample_pool_def no_fail_def)
  then show "worker_step 0 (sample_pool, sample_tc) (sample_looping, sample_tc)"
    by (rule w_new [rotated 2]) (simp_all add: sample_pool_def)
qed

theorem run_executes_all_and_ends_witness:
  "\<exists>s' w'. run_loop 6 no_fail 0 True 4096 7 (\<lambda>_. False) sample_body 5 \<lparr>idle_fiber = 9, cb_fiber = None\<rparr>
       ((sample_scheduler [task_of_cb (Some (User_Fn 1)) None, task_of_cb (Some (User_Fn 3)) None])\<lparr>m_stopping := True\<rparr>)
       sample_looping sample_tc =
     Inr ([User_Fn 1, User_Fn 3, User_Fn 2], True, \<lparr>idle_fiber = 9, cb_fiber = None\<rparr>, s', w', sample_tc) \<and>
     m_tasks s' = []"
proof -
  let ?s = "(sample_scheduler [task_of_cb (Some (User_Fn 1)) None, task_of_cb (Some (User_Fn 3)) None])\<lparr>m_stopping := True\<rparr>"
  let ?l = "\<lparr>idle_fiber = 9, cb_fiber = None\<rparr>"
  let ?W = "\<lambda>f. if f = User_Fn (1::nat) then 2 else (1::nat)"
  have W: "work_bound sample_body ?W"
    by (simp add: work_bound_def sample_body_def map_filter_simps)
  have body: "list_all (local_cb 5) (sample_body f)" for f
    by (simp add: sample_body_def local_cb_def)
  have q: "queued_cbs 5 (m_tasks ?s)"
    by (simp add: queued_cbs_def caller_scheduler_def local_cb_def task_empty_def)
  have fns: "List.map_filter tk_cb (m_tasks ?s) = [User_Fn 1, User_Fn 3]"
    by (simp add: caller_scheduler_def map_filter_simps)
  have "fifo_run sample_body 6 [User_Fn 1, User_Fn 3] = [User_Fn 1, User_Fn 3, User_Fn 2]"
    by (simp add: numeral_eq_Suc sample_body_def map_filter_simps)
  moreover have "t_exec sample_tc = Some 0" "fibers sample_looping 7 = None"
    "map_option m_state (fibers sample_looping 9) = Some READY"
    by (simp_all add: sample_tc_def sample_looping_def sample_pool_def)
  ultimately show ?thesis
    using run_executes_all_and_ends [OF sample_looping_reach, of ?l 7 4096 no_fail "\<lambda>_. False" ?s 5 sample_body ?W 6 0 True]
      W body q unfolding fns by (simp add: no_fail_def caller_scheduler_def) blast
qed

end
