(* ===== verification/Worker_Refinement.thy ===== *)
theory Worker_Refinement
  imports Worker_Loop Scheduler_Concurrent
begin

text \<open>
  Two models of \<open>Scheduler::run\<close> meet: the loop with real fibers, contexts and thread-local
  pointers on one thread (Worker_Loop) and the interleaved workers with fibers reduced to their state
  (Scheduler_Concurrent). What the first does is an execution of the second.
\<close>

section \<open>A pool of one worker\<close>

definition single_pool ::
  "nat \<Rightarrow> fiber_state \<Rightarrow> 'u worker_pc \<Rightarrow> 'u scheduler \<Rightarrow> (nat \<rightharpoonup> fiber_state) \<Rightarrow> 'u sched_task multiset
   \<Rightarrow> 'u sched_task multiset \<Rightarrow> 'u pool" where
  "single_pool me st pc s fs pushed started =
     \<lparr>pl_sched = s, pl_fibers = fs, pl_workers = [\<lparr>wk_id = me, wk_idle_state = st, wk_pc = pc\<rparr>],
      pl_pushed = pushed, pl_started = started\<rparr>"

lemma single_pool_simps [simp]:
  "pl_sched (single_pool me st pc s fs pu sd) = s" "pl_fibers (single_pool me st pc s fs pu sd) = fs"
  "pl_pushed (single_pool me st pc s fs pu sd) = pu" "pl_started (single_pool me st pc s fs pu sd) = sd"
  "(single_pool me st pc s fs pu sd)\<lparr>pl_sched := s'\<rparr> = single_pool me st pc s' fs pu sd"
  "(single_pool me st pc s fs pu sd)\<lparr>pl_fibers := fs'\<rparr> = single_pool me st pc s fs' pu sd"
  "(single_pool me st pc s fs pu sd)\<lparr>pl_pushed := pu'\<rparr> = single_pool me st pc s fs pu' sd"
  "(single_pool me st pc s fs pu sd)\<lparr>pl_started := sd'\<rparr> = single_pool me st pc s fs pu sd'"
  "set_pc 0 pc' (single_pool me st pc s fs pu sd) = single_pool me st pc' s fs pu sd"
  "set_idle 0 st' (single_pool me st pc s fs pu sd) = single_pool me st' pc s fs pu sd"
  "at_pc (single_pool me st pc s fs pu sd) 0 c \<longleftrightarrow> pc = c"
  "wk_id (pl_workers (single_pool me st pc s fs pu sd) ! 0) = me"
  "wk_idle_state (pl_workers (single_pool me st pc s fs pu sd) ! 0) = st"
  by (simp_all add: single_pool_def set_pc_def set_idle_def at_pc_def)

text \<open>Everybody may schedule anything.\<close>

abbreviation any_task :: "'u pool \<Rightarrow> 'u sched_task \<Rightarrow> bool" where
  "any_task \<equiv> \<lambda>_ _. True"

abbreviation pool_reach :: "'u pool \<Rightarrow> bool" where
  "pool_reach \<equiv> reach pool_start (pool_step any_task)"

lemma pool_step_finite: "pool_step G s s' \<Longrightarrow> finite (dom (pl_fibers s)) \<Longrightarrow> finite (dom (pl_fibers s'))"
  by (induction rule: pool_step.induct) simp_all

interpretation pool_fin: safe_system pool_start "pool_step G" "\<lambda>s. finite (dom (pl_fibers s))" for G
  by unfold_locales (auto simp: pool_start_def intro: pool_step_finite)

lemma pool_fresh_fiber: "pool_reach s \<Longrightarrow> \<exists>f. pl_fibers s f = None"
proof -
  assume "pool_reach s"
  then have "finite (dom (pl_fibers s))" by (rule pool_fin.reach_inv)
  then obtain f where "f \<notin> dom (pl_fibers s)" using infinite_UNIV_nat ex_new_if_finite by blast
  then show ?thesis by (auto simp: dom_def)
qed

section \<open>The queue, seen by one thread\<close>

text \<open>What the worker may execute, in the order of the queue, and what waits for other threads.\<close>

definition for_me :: "nat \<Rightarrow> 'u sched_task \<Rightarrow> bool" where
  "for_me me t \<longleftrightarrow> tk_thread t = None \<or> tk_thread t = Some me"

definition mine :: "nat \<Rightarrow> 'u sched_task list \<Rightarrow> 'u sched_fn list" where
  "mine me ts = List.map_filter tk_cb (filter (for_me me) ts)"

definition elsewhere :: "nat \<Rightarrow> 'u sched_task list \<Rightarrow> 'u sched_task list" where
  "elsewhere me ts = filter (\<lambda>t. \<not> for_me me t \<and> \<not> task_empty t) ts"

definition callbacks_only :: "'u sched_task list \<Rightarrow> bool" where
  "callbacks_only ts \<longleftrightarrow> (\<forall>t\<in>set ts. tk_fiber t = None)"

definition queue_ok :: "'u scheduler \<Rightarrow> bool" where
  "queue_ok s \<longleftrightarrow> callbacks_only (m_tasks s) \<and> (\<forall>t\<in>set (m_tasks s). \<not> task_empty t)"

lemma mine_simps [simp]:
  "mine me [] = []" "mine me (ts @ us) = mine me ts @ mine me us"
  "mine me (t # ts) = (if for_me me t then (case tk_cb t of None \<Rightarrow> [] | Some f \<Rightarrow> [f]) else []) @ mine me ts"
  by (auto simp: mine_def map_filter_append map_filter_simps split: option.splits)

lemma elsewhere_simps [simp]:
  "elsewhere me [] = []" "elsewhere me (ts @ us) = elsewhere me ts @ elsewhere me us"
  "elsewhere me (t # ts) = (if \<not> for_me me t \<and> \<not> task_empty t then t # elsewhere me ts else elsewhere me ts)"
  by (simp_all add: elsewhere_def)

lemma mine_nonempty [simp]:
  "callbacks_only ts \<Longrightarrow> mine me (filter (\<lambda>t. \<not> task_empty t) ts) = mine me ts"
  by (induction ts) (auto simp: callbacks_only_def task_empty_def split: option.splits)

lemma elsewhere_nonempty [simp]: "elsewhere me (filter (\<lambda>t. \<not> task_empty t) ts) = elsewhere me ts"
  by (induction ts) auto

lemma scan_none: "\<forall>t\<in>set ts. \<not> for_me me t \<Longrightarrow> \<exists>b. run_scan running me ts = (None, b, ts)"
  by (induction ts) (auto simp: for_me_def split: prod.splits)

lemma scan_first:
  "\<forall>t\<in>set xs. \<not> for_me me t \<Longrightarrow> for_me me t \<Longrightarrow> tk_fiber t = None \<Longrightarrow>
   \<exists>b. run_scan running me (xs @ t # ys) = (Some t, b, xs @ ys)"
  by (induction xs) (auto simp: for_me_def split: prod.splits)

lemma lookup_cases:
  assumes "queue_ok s"
  obtains "mine me (m_tasks s) = []" and "\<And>running. \<exists>b. run_lookup running me s = (None, b, s)"
  | xs t f ys where "m_tasks s = xs @ t # ys" and "\<forall>x\<in>set xs. \<not> for_me me x" and "for_me me t" and "tk_fiber t = None"
      and "tk_cb t = Some f" and "\<And>running. \<exists>b. run_lookup running me s =
        (Some t, b, s\<lparr>m_tasks := xs @ ys, m_activeThreadCount := m_activeThreadCount s + 1\<rparr>)"
proof (cases "\<exists>t\<in>set (m_tasks s). for_me me t")
  case False
  then have "filter (for_me me) (m_tasks s) = []" by (simp add: filter_empty_conv)
  then have "mine me (m_tasks s) = []" by (simp add: mine_def map_filter_simps)
  moreover have "\<exists>b. run_lookup running me s = (None, b, s)" for running
    using scan_none [of "m_tasks s" me running] False by (auto simp: run_lookup_def)
  ultimately show thesis by (rule that(1))
next
  case True
  then obtain xs t ys where q: "m_tasks s = xs @ t # ys" "\<forall>x\<in>set xs. \<not> for_me me x" "for_me me t"
    using split_list_first_prop [OF True] by blast
  have f: "tk_fiber t = None" using assms q(1) by (simp add: queue_ok_def callbacks_only_def)
  moreover obtain g where "tk_cb t = Some g" using assms q(1) f by (auto simp: queue_ok_def task_empty_def)
  moreover have "\<exists>b. run_lookup running me s = (Some t, b, s\<lparr>m_tasks := xs @ ys, m_activeThreadCount := m_activeThreadCount s + 1\<rparr>)" for running
    using scan_first [OF q(2,3) f, of running ys] by (auto simp: run_lookup_def q(1))
  ultimately show thesis using that(2) [OF q] by blast
qed

lemma mine_elsewhere: "\<forall>x\<in>set xs. \<not> for_me me x \<Longrightarrow> mine me xs = []"
  by (induction xs) auto

lemma queue_ok_after:
  assumes "queue_ok s" and "m_tasks s = xs @ t # ys" and "callbacks_only (body f)"
  shows "queue_ok (after_cb body f (xs @ ys) s)"
  using assms by (auto simp: queue_ok_def callbacks_only_def)

section \<open>The turns as executions of the pool\<close>

lemma pool_body:
  assumes "callbacks_only ts"
  shows "pool_reach (single_pool me st pc s fs pu sd) \<Longrightarrow>
    pool_reach (single_pool me st pc (fold (\<lambda>t s. snd (schedule t s)) ts s) fs
      (pu + mset (filter (\<lambda>t. \<not> task_empty t) ts)) sd)"
  using assms
proof (induction ts arbitrary: s pu)
  case (Cons t ts)
  have "pool_reach (single_pool me st pc (snd (schedule t s)) fs (pu + (if task_empty t then {#} else {#t#})) sd)"
  proof (rule reach_step [OF Cons.prems(1)])
    show "pool_step any_task (single_pool me st pc s fs pu sd)
        (single_pool me st pc (snd (schedule t s)) fs (pu + (if task_empty t then {#} else {#t#})) sd)"
      using sc_schedule [of any_task "single_pool me st pc s fs pu sd" t] Cons.prems(2) by (simp add: callbacks_only_def)
  qed
  from Cons.IH [OF this] Cons.prems(2) show ?case by (cases "task_empty t") (simp_all add: ac_simps callbacks_only_def)
qed simp

lemma pool_callback_turn:
  assumes r: "pool_reach (single_pool me st Looking s fs pu sd)"
    and q: "\<And>running. \<exists>b. run_lookup running me s = (Some t, b, s\<lparr>m_tasks := ts, m_activeThreadCount := m_activeThreadCount s + 1\<rparr>)"
    and fiber: "tk_fiber t = None" and cb: "tk_cb t = Some f" and body: "callbacks_only (body f)"
  shows "\<exists>fs' pu'. pool_reach (single_pool me st Looking (after_cb body f ts s) fs' pu' (sd + {#t#}))"
proof -
  let ?s1 = "s\<lparr>m_tasks := ts, m_activeThreadCount := m_activeThreadCount s + 1\<rparr>"
  let ?s2 = "fold (\<lambda>t s. snd (schedule t s)) (body f) ?s1"
  let ?pu = "pu + mset (filter (\<lambda>t. \<not> task_empty t) (body f))"
  obtain p where p: "fs p = None" using pool_fresh_fiber [OF r] by auto
  obtain b where lookup: "run_lookup (pool_running (single_pool me st Looking s fs pu sd)) me s = (Some t, b, ?s1)"
    using q by blast
  have 1: "pool_reach (single_pool me st (Taken t) ?s1 fs pu sd)"
    by (rule reach_step [OF r])
       (use sc_find [of "single_pool me st Looking s fs pu sd" 0 t _ ?s1 any_task] lookup in simp)
  have 2: "pool_reach (single_pool me st (On_Task p) ?s1 (fs(p \<mapsto> RUNNING)) pu (sd + {#t#}))"
    by (rule reach_step [OF 1])
       (use sc_callback [of "single_pool me st (Taken t) ?s1 fs pu sd" 0 t p any_task] fiber cb p in simp)
  note 3 = pool_body [OF body 2]
  have 4: "pool_reach (single_pool me st (Leaving p) ?s2 (fs(p \<mapsto> TERMINATED)) ?pu (sd + {#t#}))"
    by (rule reach_step [OF 3])
       (use sc_end [of "single_pool me st (On_Task p) ?s2 (fs(p \<mapsto> RUNNING)) ?pu (sd + {#t#})" 0 p any_task] in simp)
  have 5: "pool_reach (single_pool me st Task_Returned ?s2 (fs(p \<mapsto> TERMINATED)) ?pu (sd + {#t#}))"
    by (rule reach_step [OF 4])
       (use sc_switch [of "single_pool me st (Leaving p) ?s2 (fs(p \<mapsto> TERMINATED)) ?pu (sd + {#t#})" 0 p any_task] in simp)
  have "pool_reach (single_pool me st Looking (after_cb body f ts s) (fs(p \<mapsto> TERMINATED)) ?pu (sd + {#t#}))"
    by (rule reach_step [OF 5])
       (use sc_done [of "single_pool me st Task_Returned ?s2 (fs(p \<mapsto> TERMINATED)) ?pu (sd + {#t#})" 0 any_task]
        in \<open>simp add: after_cb_def Let_def\<close>)
  then show ?thesis by blast
qed

lemma pool_no_task:
  assumes "pool_reach (single_pool me st Looking s fs pu sd)" and "\<And>running. \<exists>b. run_lookup running me s = (None, b, s)"
  shows "pool_reach (single_pool me st No_Task s fs pu sd)"
proof (rule reach_step [OF assms(1)])
  obtain b where "run_lookup (pool_running (single_pool me st Looking s fs pu sd)) me s = (None, b, s)" using assms(2) by blast
  then show "pool_step any_task (single_pool me st Looking s fs pu sd) (single_pool me st No_Task s fs pu sd)"
    using sc_none [of "single_pool me st Looking s fs pu sd" 0 b s any_task] by simp
qed

lemma stopping_idle [simp]: "scheduler_stopping (s\<lparr>m_idleThreadCount := n\<rparr>) = scheduler_stopping s"
  by (simp add: scheduler_stopping_def)

lemma pool_idle_turn:
  assumes r: "pool_reach (single_pool me READY Looking s fs pu sd)" and k: "\<And>running. \<exists>b. run_lookup running me s = (None, b, s)"
  shows "pool_reach (single_pool me (if scheduler_stopping s then TERMINATED else READY) Looking s fs pu sd)"
proof -
  let ?s1 = "s\<lparr>m_idleThreadCount := m_idleThreadCount s + 1\<rparr>"
  let ?st = "if scheduler_stopping s then TERMINATED else READY"
  have 2: "pool_reach (single_pool me RUNNING On_Idle ?s1 fs pu sd)"
    by (rule reach_step [OF pool_no_task [OF r k]])
       (use sc_idle [of "single_pool me READY No_Task s fs pu sd" 0 any_task] in simp)
  have 3: "pool_reach (single_pool me ?st Idle_Returned ?s1 fs pu sd)"
    by (rule reach_step [OF 2])
       (use sc_idle_end [of "single_pool me RUNNING On_Idle ?s1 fs pu sd" 0 any_task]
          sc_idle_yield [of "single_pool me RUNNING On_Idle ?s1 fs pu sd" 0 any_task] in simp)
  show ?thesis
    by (rule reach_step [OF 3])
       (use sc_idle_back [of "single_pool me ?st Idle_Returned ?s1 fs pu sd" 0 any_task] in simp)
qed

lemma pool_exit:
  assumes "pool_reach (single_pool me TERMINATED Looking s fs pu sd)" and "\<And>running. \<exists>b. run_lookup running me s = (None, b, s)"
  shows "pool_reach (single_pool me TERMINATED Exited s fs pu sd)"
  by (rule reach_step [OF pool_no_task [OF assms]])
     (use sc_exit [of "single_pool me TERMINATED No_Task s fs pu sd" 0 any_task] in simp)

section \<open>The turns of the loop with real fibers\<close>

text \<open>A turn without a task: the idle fiber yields, or ends.\<close>

lemma turn_idle:
  fixes w :: "'u sched_fn fiber_world"
  assumes ready: "turn_ready g np l w tc" and k: "run_lookup (fiber_running w) me s = (None, b, s)" and u: "\<not> uc_swap_fails u"
  shows "\<exists>w'. run_turn u js jf stack np owned body me l s w tc = Inr ([], False, l, s, w', tc) \<and>
     map_option m_state (fibers w' (idle_fiber l)) = Some (if scheduler_stopping s then TERMINATED else READY) \<and>
     (\<not> scheduler_stopping s \<longrightarrow> turn_ready g np l w' tc)"
proof -
  let ?i = "idle_fiber l"
  from ready have wf: "worker_wf g (w, tc)" and e: "t_exec tc = Some g" and l: "cb_fiber l = None" "?i \<noteq> g" and np: "fibers w np = None"
    by (simp_all add: turn_ready_def)
  from ready obtain fi where i: "fibers w ?i = Some fi" "m_state fi = READY" by (auto simp: turn_ready_def)
  obtain fg where g: "fibers w g = Some fg" using wf e by (auto simp: worker_wf_def)
  have tc: "t_scheduler_fiber tc = Some g" "t_thread_fiber tc = Some g" "t_fiber tc = Some g"
    using wf e by (auto simp: worker_wf_def)
  have flag: "m_runInScheduler fi" "m_stack fi \<noteq> 0" using wf i l(2) by (auto simp: worker_wf_def task_ok_def)
  let ?s1 = "s\<lparr>m_idleThreadCount := m_idleThreadCount s + 1\<rparr>"
  let ?w1 = "w\<lparr>fibers := (fibers w)(?i \<mapsto> fi\<lparr>m_state := RUNNING\<rparr>, g \<mapsto> fg\<lparr>m_ctx := Ctx_At g\<rparr>)\<rparr>"
  let ?tc1 = "tc\<lparr>t_fiber := Some ?i, t_exec := Some ?i\<rparr>"
  have r: "fiber_resume u ?i w tc = Inr (?w1, ?tc1)"
    by (rule worker_resume_eq [OF wf e l(2) i u g])
  have wf1: "worker_wf g (?w1, ?tc1)" by (rule worker_resume_wf [OF wf e l(2) r])
  have d: "run_dispatch u stack np task_reset l s w tc = Inr (Some After_Idle, l, ?s1, ?w1, ?tc1)"
    using i r by (simp add: run_dispatch_def task_reset_def)
  define f where "f = (if scheduler_stopping s then fi\<lparr>m_fcb := None, m_state := TERMINATED\<rparr> else fi\<lparr>m_state := RUNNING\<rparr>)"
  let ?w2 = "?w1\<lparr>fibers := (fibers ?w1)(?i \<mapsto> f)\<rparr>"
  let ?w3 = "?w2\<lparr>fibers := (fibers ?w2)(?i \<mapsto> f\<lparr>m_state := after_yield (m_state f), m_ctx := Ctx_At ?i\<rparr>)\<rparr>"
  have f: "m_state f = RUNNING \<or> m_state f = TERMINATED" "m_runInScheduler f" "m_stack f \<noteq> 0"
    using flag by (simp_all add: f_def)
  have y: "fiber_yield u ?i ?w2 ?tc1 = Inr (?w3, tc)"
    by (subst callback_leaves [where f = f and fg = "fg\<lparr>m_ctx := Ctx_At g\<rparr>" and g = g]) (use tc e l u f in simp_all)
  have wf3: "worker_wf g (?w3, tc)"
    by (rule worker_yield_wf(1) [OF wf1 _ l(2) _ f y]) simp_all
  have "scheduler_idle_turn u ?i ?s1 ?w1 ?tc1 = Inr (?w3, tc)"
  proof (cases "scheduler_stopping s")
    case True
    then show ?thesis
      using y l(2) by (simp add: scheduler_idle_turn_def fiber_main_end_def fiber_upd_def f_def fun_upd_twist)
  next
    case False
    have "?w2 = ?w1" using False l(2) by (simp add: f_def fun_upd_twist)
    with False y show ?thesis by (simp add: scheduler_idle_turn_def)
  qed
  then have "run_turn u js jf stack np owned body me l s w tc = Inr ([], False, l, s, ?w3, tc)"
    by (simp add: run_turn_def k d exec_resumed_def run_return_def)
  moreover have i3: "map_option m_state (fibers ?w3 ?i) = Some (if scheduler_stopping s then TERMINATED else READY)"
    by (simp add: f_def after_yield_def)
  moreover have "fibers ?w3 np = None" using np i g by auto
  then have "turn_ready g np l ?w3 tc" if "\<not> scheduler_stopping s"
    unfolding turn_ready_def using wf3 e l i3 that by presburger
  ultimately show ?thesis by blast
qed

lemma turn_exit_none:
  assumes "run_lookup (fiber_running w) me s = (None, b, s)" and "map_option m_state (fibers w (idle_fiber l)) = Some TERMINATED"
  shows "run_turn u js jf stack np owned body me l s w tc = Inr ([], True, l, s, w, tc)"
  using assms by (auto simp: run_turn_def run_dispatch_def task_reset_def)

text \<open>Any number of turns.\<close>

lemma loop_simulated:
  fixes w :: "'u sched_fn fiber_world"
  assumes st: "stack \<noteq> 0" and u: "\<not> uc_swap_fails u" "\<not> uc_get_fails u" and own: "\<not> owned np"
    and body: "\<And>f. callbacks_only (body f)"
  shows "turn_ready g np l w tc \<Longrightarrow> queue_ok s \<Longrightarrow> pool_reach (single_pool me READY Looking s fs pu sd) \<Longrightarrow>
    \<exists>fns ended s' w' st fs' pu' sd'. run_loop n u js jf stack np owned body me l s w tc = Inr (fns, ended, l, s', w', tc) \<and>
      fns = fifo_run (\<lambda>f. filter (for_me me) (body f)) n (mine me (m_tasks s)) \<and>
      fns @ mine me (m_tasks s') = mine me (m_tasks s) @ concat (map (\<lambda>f. mine me (body f)) fns) \<and>
      elsewhere me (m_tasks s') = elsewhere me (m_tasks s) @ concat (map (\<lambda>f. elsewhere me (body f)) fns) \<and>
      m_stopping s' = m_stopping s \<and> (fns = [] \<longrightarrow> s' = s) \<and>
      ended = (length fns + 2 \<le> n \<and> scheduler_stopping s') \<and>
      map_option m_state (fibers w' (idle_fiber l)) = Some st \<and>
      pool_reach (single_pool me st (if ended then Exited else Looking) s' fs' pu' sd') \<and>
      image_mset tk_cb sd' = image_mset tk_cb sd + mset (map Some fns)"
proof (induction n arbitrary: s w fs pu sd)
  case 0
  then show ?case by (fastforce simp: turn_ready_def)
next
  case (Suc n)
  note ready = Suc.prems(1) and r = Suc.prems(3)
  from Suc.prems(2) show ?case
  proof (cases rule: lookup_cases [where me = me])
    case 1
    then obtain b where k: "run_lookup (fiber_running w) me s = (None, b, s)" by blast
    from turn_idle [OF ready k u(1)] obtain w' where
      t: "run_turn u js jf stack np owned body me l s w tc = Inr ([], False, l, s, w', tc)"
      and i: "map_option m_state (fibers w' (idle_fiber l)) = Some (if scheduler_stopping s then TERMINATED else READY)"
      and ready': "\<not> scheduler_stopping s \<Longrightarrow> turn_ready g np l w' tc" by blast
    note p = pool_idle_turn [OF r 1(2)]
    show ?thesis
    proof (cases "scheduler_stopping s")
      case False
      with p have "pool_reach (single_pool me READY Looking s fs pu sd)" by simp
      from Suc.IH [OF ready' [OF False] Suc.prems(2) this] obtain fns ended s' w1 st fs' pu' sd' where
        IH: "run_loop n u js jf stack np owned body me l s w' tc = Inr (fns, ended, l, s', w1, tc)"
        "fns = fifo_run (\<lambda>f. filter (for_me me) (body f)) n (mine me (m_tasks s))" "fns = [] \<longrightarrow> s' = s"
        "ended = (length fns + 2 \<le> n \<and> scheduler_stopping s')"
        "map_option m_state (fibers w1 (idle_fiber l)) = Some st"
        "pool_reach (single_pool me st (if ended then Exited else Looking) s' fs' pu' sd')"
        "image_mset tk_cb sd' = image_mset tk_cb sd + mset (map Some fns)" by blast
      have "fns = []" using IH(2) 1(1) by (cases n) simp_all
      with IH False have "s' = s" "\<not> ended" by simp_all
      with IH t \<open>fns = []\<close> False 1(1) show ?thesis
        by (intro exI [of _ fns] exI [of _ False] exI [of _ s] exI [of _ w1] exI [of _ st] exI [of _ fs'] exI [of _ pu'] exI [of _ sd']) simp
    next
      case True
      with p have p: "pool_reach (single_pool me TERMINATED Looking s fs pu sd)" by simp
      show ?thesis
      proof (cases n)
        case 0
        with t i p True 1(1) show ?thesis by fastforce
      next
        case (Suc m)
        from 1(2) obtain b' where "run_lookup (fiber_running w') me s = (None, b', s)" by blast
        from turn_exit_none [OF this] i True
        have "run_turn u js jf stack np owned body me l s w' tc = Inr ([], True, l, s, w', tc)" by simp
        with t have "run_loop (Suc n) u js jf stack np owned body me l s w tc = Inr ([], True, l, s, w', tc)"
          by (simp add: Suc)
        with i True pool_exit [OF p 1(2)] 1(1) Suc show ?thesis
          by (intro exI [of _ "[]"] exI [of _ True] exI [of _ s] exI [of _ w'] exI [of _ TERMINATED] exI [of _ fs] exI [of _ pu] exI [of _ sd]) simp
      qed
    qed
  next
    case (2 xs t f ys)
    have wf: "worker_wf g (w, tc)" and e: "t_exec tc = Some g" and l: "cb_fiber l = None" and np: "fibers w np = None"
      using ready by (simp_all add: turn_ready_def)
    obtain fg where g: "fibers w g = Some fg" using wf e by (auto simp: worker_wf_def)
    from 2(6) obtain b where k: "run_lookup (fiber_running w) me s =
        (Some t, b, s\<lparr>m_tasks := xs @ ys, m_activeThreadCount := m_activeThreadCount s + 1\<rparr>)" by blast
    let ?s = "after_cb body f (xs @ ys) s"
    obtain w1 where turn: "run_turn u js jf stack np owned body me l s w tc = Inr ([f], False, l, ?s, w1, tc)"
      and w1: "fibers w1 = (fibers w)(g \<mapsto> fg\<lparr>m_ctx := Ctx_At g\<rparr>)"
      using turn_callback [OF wf e g k 2(4,5) l np st u, of owned js jf body] own by blast
    obtain fs1 pu1 where r1: "pool_reach (single_pool me READY Looking ?s fs1 pu1 (sd + {#t#}))"
      using pool_callback_turn [where body = body, OF r 2(6) 2(4,5) body] by blast
    have m: "mine me (m_tasks s) = f # mine me ys" "mine me (m_tasks ?s) = mine me ys @ mine me (body f)"
      using 2(2,3,5) body by (simp_all add: 2(1) mine_elsewhere)
    have els: "elsewhere me (m_tasks ?s) = elsewhere me (m_tasks s) @ elsewhere me (body f)"
      using 2(3) by (simp add: 2(1))
    from Suc.IH [OF turn_ready_parked [OF ready g w1] queue_ok_after [OF Suc.prems(2) 2(1) body] r1]
    obtain fns ended s' w' st fs' pu' sd' where
        IH: "run_loop n u js jf stack np owned body me l ?s w1 tc = Inr (fns, ended, l, s', w', tc)"
        "fns = fifo_run (\<lambda>f. filter (for_me me) (body f)) n (mine me (m_tasks ?s))"
        "fns @ mine me (m_tasks s') = mine me (m_tasks ?s) @ concat (map (\<lambda>f. mine me (body f)) fns)"
        "elsewhere me (m_tasks s') = elsewhere me (m_tasks ?s) @ concat (map (\<lambda>f. elsewhere me (body f)) fns)"
        "m_stopping s' = m_stopping ?s"
        "ended = (length fns + 2 \<le> n \<and> scheduler_stopping s')"
        "map_option m_state (fibers w' (idle_fiber l)) = Some st"
        "pool_reach (single_pool me st (if ended then Exited else Looking) s' fs' pu' sd')"
        "image_mset tk_cb sd' = image_mset tk_cb (sd + {#t#}) + mset (map Some fns)" by blast
    have "run_loop (Suc n) u js jf stack np owned body me l s w tc = Inr (f # fns, ended, l, s', w', tc)"
      by (simp add: turn IH(1))
    moreover have "f # fns = fifo_run (\<lambda>f. filter (for_me me) (body f)) (Suc n) (mine me (m_tasks s))"
      by (simp only: m IH(2) fifo_run.simps) (simp add: mine_def)
    moreover have "(f # fns) @ mine me (m_tasks s') = mine me (m_tasks s) @ concat (map (\<lambda>f. mine me (body f)) (f # fns))"
      using IH(3) by (simp only: m) simp
    moreover have "elsewhere me (m_tasks s') = elsewhere me (m_tasks s) @ concat (map (\<lambda>f. elsewhere me (body f)) (f # fns))"
      using IH(4) by (simp only: els) simp
    moreover have "image_mset tk_cb sd' = image_mset tk_cb sd + mset (map Some (f # fns))"
      using IH(9) 2(5) by simp
    moreover have "m_stopping s' = m_stopping s" using IH(5) by simp
    moreover have "ended = (length (f # fns) + 2 \<le> Suc n \<and> scheduler_stopping s')" using IH(6) by simp
    ultimately show ?thesis using IH(7,8) by blast
  qed
qed

section \<open>Properties\<close>

text \<open>C22: the loop of \<open>run\<close> on one thread, with real fibers, is simulated by the interleaved model in
  which it is the only worker, turn by turn. Scope: callback tasks that do not yield (round robin of
  fibers that do is proved of the coop loop), pinned to whatever thread, scheduling what they like;
  stopping or not. After any number \<open>n\<close> of turns the interleaved model can reach a state with the same
  scheduler and the same state of the idle fiber, the worker looking for a task, or gone if the loop has
  ended, having begun the same tasks. What the loop executed is told independently of the search and
  of \<open>schedule\<close>: the callbacks this thread may take, first in, first out, one per turn as long as there is
  one; what is left of them and of the other threads' tasks, in order; and the loop has ended exactly
  when \<open>stopping()\<close> holds and two more turns were made, for the end of the idle fiber and the exit.\<close>

theorem run_loop_refines_pool:
  fixes w :: "'u sched_fn fiber_world"
  assumes "reach (worker_start g) (worker_step g) (w, tc)" and "t_exec tc = Some g" and "cb_fiber l = None"
    and "fibers w np = None" and "idle_fiber l \<noteq> g" and "map_option m_state (fibers w (idle_fiber l)) = Some READY"
    and "stack \<noteq> 0" and "\<not> uc_swap_fails u" and "\<not> uc_get_fails u" and "\<not> owned np"
    and "queue_ok s" and "\<And>f. callbacks_only (body f)"
    and "pool_reach (single_pool me READY Looking s fs pu sd)"
  shows "\<exists>fns ended s' w' st fs' pu' sd'. run_loop n u js jf stack np owned body me l s w tc = Inr (fns, ended, l, s', w', tc) \<and>
     map_option m_state (fibers w' (idle_fiber l)) = Some st \<and>
     pool_reach (single_pool me st (if ended then Exited else Looking) s' fs' pu' sd') \<and>
     image_mset tk_cb sd' = image_mset tk_cb sd + mset (map Some fns) \<and>
     fns = fifo_run (\<lambda>f. filter (for_me me) (body f)) n (mine me (m_tasks s)) \<and>
     fns @ mine me (m_tasks s') = mine me (m_tasks s) @ concat (map (\<lambda>f. mine me (body f)) fns) \<and>
     elsewhere me (m_tasks s') = elsewhere me (m_tasks s) @ concat (map (\<lambda>f. elsewhere me (body f)) fns) \<and>
     m_stopping s' = m_stopping s \<and> ended = (length fns + 2 \<le> n \<and> scheduler_stopping s')"
proof -
  have "turn_ready g np l w tc"
    using worker_safe.reach_inv [OF assms(1)] assms(2-6) by (simp add: turn_ready_def)
  from loop_simulated [where owned = owned and body = body, OF assms(7-10,12) this assms(11,13), of n js jf] show ?thesis by blast
qed

text \<open>The sample: the two callbacks of the sample loop are scheduled and a stop is requested.\<close>

definition sample_queue :: "nat sched_task list" where
  "sample_queue = [task_of_cb (Some (User_Fn 1)) None, task_of_cb (Some (User_Fn 3)) None]"

definition sample_stopping :: "nat scheduler" where
  "sample_stopping = (fold (\<lambda>t s. snd (schedule t s)) sample_queue (sample_scheduler []))\<lparr>m_stopping := True\<rparr>"

lemma sample_pool_stopping: "pool_reach (single_pool 5 READY Looking sample_stopping Map.empty (mset sample_queue) {#})"
proof -
  have "pool_reach (single_pool 5 READY Looking (sample_scheduler []) Map.empty {#} {#})"
    by (rule reach_start) (simp add: pool_start_def caller_scheduler_def, simp add: single_pool_def)
  from pool_body [of sample_queue, OF _ this]
  have r: "pool_reach (single_pool 5 READY Looking (fold (\<lambda>t s. snd (schedule t s)) sample_queue (sample_scheduler []))
      Map.empty (mset sample_queue) {#})"
    by (simp add: sample_queue_def callbacks_only_def task_empty_def)
  show ?thesis
    by (rule reach_step [OF r])
       (use sc_stop [of any_task "single_pool 5 READY Looking (fold (\<lambda>t s. snd (schedule t s)) sample_queue (sample_scheduler []))
         Map.empty (mset sample_queue) {#}"] in \<open>simp add: sample_stopping_def\<close>)
qed

theorem run_loop_refines_pool_witness:
  "\<exists>s' w' st fs' pu' sd'. run_loop 2 no_fail 0 True 4096 7 (\<lambda>_. False) sample_body 5 \<lparr>idle_fiber = 9, cb_fiber = None\<rparr>
       sample_stopping sample_looping sample_tc =
     Inr ([User_Fn 1, User_Fn 3], False, \<lparr>idle_fiber = 9, cb_fiber = None\<rparr>, s', w', sample_tc) \<and>
     mine 5 (m_tasks s') = [User_Fn 2] \<and> elsewhere 5 (m_tasks s') = [] \<and>
     pool_reach (single_pool 5 st Looking s' fs' pu' sd') \<and> image_mset tk_cb sd' = {#Some (User_Fn 1), Some (User_Fn 3)#}"
proof -
  let ?l = "\<lparr>idle_fiber = 9, cb_fiber = None\<rparr>"
  have body: "callbacks_only (sample_body f)" for f
    by (simp add: sample_body_def callbacks_only_def)
  have tasks: "m_tasks sample_stopping = sample_queue"
    by (simp add: sample_stopping_def sample_queue_def caller_scheduler_def task_empty_def)
  have q: "queue_ok sample_stopping"
    by (simp add: queue_ok_def tasks sample_queue_def callbacks_only_def task_empty_def)
  have m: "mine 5 (m_tasks sample_stopping) = [User_Fn 1, User_Fn 3]" "elsewhere 5 (m_tasks sample_stopping) = []"
    by (simp_all add: tasks sample_queue_def for_me_def)
  have f: "fifo_run (\<lambda>f. filter (for_me 5) (sample_body f)) 2 [User_Fn 1, User_Fn 3] = [User_Fn 1, User_Fn 3]"
    by (simp add: numeral_2_eq_2)
  have b: "mine 5 (sample_body (User_Fn 1)) = [User_Fn 2]" "mine 5 (sample_body (User_Fn 3)) = []"
    "elsewhere 5 (sample_body (User_Fn 1)) = []" "elsewhere 5 (sample_body (User_Fn 3)) = []"
    by (simp_all add: sample_body_def for_me_def)
  have a: "t_exec sample_tc = Some 0" "fibers sample_looping 7 = None" "cb_fiber ?l = None" "idle_fiber ?l \<noteq> 0"
    "map_option m_state (fibers sample_looping (idle_fiber ?l)) = Some READY"
    "(4096 :: 64 word) \<noteq> 0" "\<not> uc_swap_fails no_fail" "\<not> uc_get_fails no_fail" "\<not> (\<lambda>_. False) (7 :: nat)"
    by (simp_all add: sample_tc_def sample_looping_def sample_pool_def no_fail_def)
  from run_loop_refines_pool [where body = sample_body and n = 2 and js = 0 and jf = True,
      OF sample_looping_reach a(1,3,2,4-9) q body sample_pool_stopping]
  show ?thesis unfolding m f by (elim exE conjE, simp add: b b [simplified One_nat_def]) blast
qed

end
