(* ===== verification/Coop_Loop.thy ===== *)
theory Coop_Loop
  imports Worker_Loop
begin

text \<open>
  Cooperative tasks: functions that give up control and are resumed later. A function is a list of
  segments; in each it schedules some tasks, and at the end of each but the last it does what
  \<open>test_fiber1\<close> in test.cpp shows: it schedules the fiber it runs on and yields. This theory
  composes the turns of \<open>Scheduler::run\<close> for such functions, on a worker, whose scheduling fiber
  is the thread's main fiber, as well as on the thread of a \<open>use_caller\<close> scheduler, where it is the
  root fiber.
\<close>

section \<open>Functions in segments\<close>

type_synonym 'u prog = "'u sched_fn \<Rightarrow> 'u sched_task list list"

text \<open>Where each suspended fiber continues: the function and the number of the segment.\<close>

type_synonym 'u conts = "nat \<rightharpoonup> 'u sched_fn \<times> nat"

text \<open>Segment \<open>k\<close> of \<open>f\<close> on the fiber \<open>cur\<close>, up to the switch that ends it.\<close>

definition coop_segment ::
  "uc_api \<Rightarrow> 64 word \<Rightarrow> bool \<Rightarrow> nat \<Rightarrow> 'u prog \<Rightarrow> 'u sched_fn \<Rightarrow> nat \<Rightarrow> nat \<Rightarrow> 'u conts \<Rightarrow> 'u scheduler
   \<Rightarrow> 'u sched_fn fiber_world \<Rightarrow> thread_ctx
   \<Rightarrow> ('u conts \<times> 'u scheduler \<times> 'u sched_fn fiber_world \<times> thread_ctx) outcome" where
  "coop_segment u js jf np body f k cur rest s w tc =
     (let s1 = fold (\<lambda>t s. snd (schedule t s)) (body f ! k) s
      in if Suc k < length (body f) then
           obind (Fiber_GetThis u js jf np w tc) (\<lambda>(p, w1, tc1).
             let s2 = snd (schedule (task_of_fiber (Some p) None) s1)
             in obind (fiber_yield u p w1 tc1) (\<lambda>(w2, tc2). Inr (rest(p \<mapsto> (f, Suc k)), s2, w2, tc2)))
         else obind (fiber_main_end u cur w tc) (\<lambda>(w1, tc1). Inr (rest(cur := None), s1, w1, tc1)))"

text \<open>From the switch to a fiber to the switch back, and which segment was executed.\<close>

definition exec_coop ::
  "uc_api \<Rightarrow> 64 word \<Rightarrow> bool \<Rightarrow> nat \<Rightarrow> 'u prog \<Rightarrow> run_after \<Rightarrow> run_locals \<Rightarrow> 'u conts \<Rightarrow> 'u scheduler
   \<Rightarrow> 'u sched_fn fiber_world \<Rightarrow> thread_ctx
   \<Rightarrow> (('u sched_fn \<times> nat) list \<times> 'u conts \<times> 'u scheduler \<times> 'u sched_fn fiber_world \<times> thread_ctx) outcome" where
  "exec_coop u js jf np body a l rest s w tc =
     (if a = After_Idle then
        obind (scheduler_idle_turn u (idle_fiber l) s w tc) (\<lambda>(w1, tc1). Inr ([], rest, s, w1, tc1))
      else
        (case t_exec tc of
           None \<Rightarrow> Inl Bad_Context
         | Some e \<Rightarrow>
             (case rest e of
                Some (f, k) \<Rightarrow> obind (coop_segment u js jf np body f k e rest s w tc) (\<lambda>r. Inr ([(f, k)], r))
              | None \<Rightarrow>
                  obind (fiber_main_begin u js jf np w tc) (\<lambda>(cur, fn, w1, tc1).
                    case fn of
                      None \<Rightarrow> Inl Null_Deref
                    | Some f \<Rightarrow> obind (coop_segment u js jf np body f 0 cur rest s w1 tc1) (\<lambda>r. Inr ([(f, 0)], r))))))"

text \<open>
  A turn of \<open>run\<close>. A queued task owns its fiber; \<open>ext\<close> are the fibers that somebody outside the
  scheduler owns. \<open>alloc\<close> gives the address of a new fiber.
\<close>

definition queued_fiber :: "nat \<Rightarrow> 'u scheduler \<Rightarrow> bool" where
  "queued_fiber p s \<longleftrightarrow> (\<exists>t\<in>set (m_tasks s). tk_fiber t = Some p)"

definition coop_turn ::
  "uc_api \<Rightarrow> 64 word \<Rightarrow> bool \<Rightarrow> 64 word \<Rightarrow> ('u sched_fn fiber_world \<Rightarrow> nat) \<Rightarrow> (nat \<Rightarrow> bool) \<Rightarrow> 'u prog \<Rightarrow> nat
   \<Rightarrow> run_locals \<Rightarrow> 'u conts \<Rightarrow> 'u scheduler \<Rightarrow> 'u sched_fn fiber_world \<Rightarrow> thread_ctx
   \<Rightarrow> (('u sched_fn \<times> nat) list \<times> bool \<times> run_locals \<times> 'u conts \<times> 'u scheduler \<times> 'u sched_fn fiber_world \<times> thread_ctx) outcome" where
  "coop_turn u js jf stack alloc ext body me l rest s w tc =
     (case run_lookup (fiber_running w) me s of (found, tickle_me, s1) \<Rightarrow>
        let task = (case found of Some t \<Rightarrow> t | None \<Rightarrow> task_reset)
        in obind (run_dispatch u stack (alloc w) task l s1 w tc) (\<lambda>(after, l1, s2, w1, tc1).
             case after of
               None \<Rightarrow> Inr ([], True, l1, rest, s2, w1, tc1)
             | Some a \<Rightarrow>
                 obind (exec_coop u js jf (alloc w) body a l1 rest s2 w1 tc1) (\<lambda>(fs, rest1, s3, w2, tc2).
                 obind (run_return (\<lambda>p. ext p \<or> queued_fiber p s3) a l1 s3 w2 tc2) (\<lambda>(l2, s4, w3, tc3).
                   Inr (fs, False, l2, rest1, s4, w3, tc3)))))"

fun coop_loop ::
  "nat \<Rightarrow> uc_api \<Rightarrow> 64 word \<Rightarrow> bool \<Rightarrow> 64 word \<Rightarrow> ('u sched_fn fiber_world \<Rightarrow> nat) \<Rightarrow> (nat \<Rightarrow> bool) \<Rightarrow> 'u prog \<Rightarrow> nat
   \<Rightarrow> run_locals \<Rightarrow> 'u conts \<Rightarrow> 'u scheduler \<Rightarrow> 'u sched_fn fiber_world \<Rightarrow> thread_ctx
   \<Rightarrow> (('u sched_fn \<times> nat) list \<times> bool \<times> run_locals \<times> 'u conts \<times> 'u scheduler \<times> 'u sched_fn fiber_world \<times> thread_ctx) outcome" where
  "coop_loop 0 u js jf stack alloc ext body me l rest s w tc = Inr ([], False, l, rest, s, w, tc)"
| "coop_loop (Suc n) u js jf stack alloc ext body me l rest s w tc =
     obind (coop_turn u js jf stack alloc ext body me l rest s w tc) (\<lambda>(fs, ended, l1, rest1, s1, w1, tc1).
       if ended then Inr (fs, True, l1, rest1, s1, w1, tc1)
       else obind (coop_loop n u js jf stack alloc ext body me l1 rest1 s1 w1 tc1) (\<lambda>(gs, r). Inr (fs @ gs, r)))"

section \<open>Round robin\<close>

text \<open>
  The specification knows no fibers: the queue holds functions with the segment they are at. The
  first one executes a segment, what it schedules goes to the end of the queue, and then itself, if
  it has not ended.
\<close>

definition spawned :: "'u prog \<Rightarrow> 'u sched_fn \<Rightarrow> nat \<Rightarrow> ('u sched_fn \<times> nat) list" where
  "spawned body f k = map (\<lambda>h. (h, 0)) (List.map_filter tk_cb (body f ! k))"

definition continued :: "'u prog \<Rightarrow> 'u sched_fn \<Rightarrow> nat \<Rightarrow> ('u sched_fn \<times> nat) list" where
  "continued body f k = (if Suc k < length (body f) then [(f, Suc k)] else [])"

fun round_robin :: "'u prog \<Rightarrow> nat \<Rightarrow> ('u sched_fn \<times> nat) list \<Rightarrow> ('u sched_fn \<times> nat) list" where
  "round_robin body 0 q = []"
| "round_robin body (Suc n) [] = []"
| "round_robin body (Suc n) ((f, k) # q) = (f, k) # round_robin body n (q @ spawned body f k @ continued body f k)"

text \<open>What functions may schedule, and a bound on the work behind a segment.\<close>

definition prog_ok :: "nat \<Rightarrow> 'u prog \<Rightarrow> bool" where
  "prog_ok me body \<longleftrightarrow> (\<forall>f. body f \<noteq> [] \<and> (\<forall>sg\<in>set (body f). list_all (local_cb me) sg))"

definition prog_bound :: "'u prog \<Rightarrow> ('u sched_fn \<times> nat \<Rightarrow> nat) \<Rightarrow> bool" where
  "prog_bound body W \<longleftrightarrow> (\<forall>f k. k < length (body f) \<longrightarrow>
     sum_list (map W (spawned body f k)) + sum_list (map W (continued body f k)) < W (f, k))"

section \<open>The state between two turns\<close>

text \<open>
  The thread is in its scheduling fiber \<open>g\<close>; \<open>m\<close> is its main fiber, the same one on a worker. A
  queued task stands for a function at a segment.
\<close>

definition coop_tc :: "nat \<Rightarrow> nat \<Rightarrow> thread_ctx \<Rightarrow> bool" where
  "coop_tc g m tc \<longleftrightarrow> t_scheduler_fiber tc = Some g \<and> t_thread_fiber tc = Some m \<and> t_exec tc = Some g"

definition fiber_at :: "'u sched_fn \<times> nat \<Rightarrow> nat \<Rightarrow> 'u conts \<Rightarrow> 'u sched_fn fiber \<Rightarrow> bool" where
  "fiber_at fk p rest h \<longleftrightarrow> m_state h = READY \<and> m_runInScheduler h \<and> m_stack h \<noteq> 0 \<and>
     (rest p = Some fk \<and> m_ctx h = Ctx_At p \<or>
      rest p = None \<and> snd fk = 0 \<and> m_ctx h = Ctx_Entry \<and> m_fcb h = Some (fst fk))"

definition task_is ::
  "nat \<Rightarrow> 'u prog \<Rightarrow> 'u conts \<Rightarrow> 'u sched_fn fiber_world \<Rightarrow> 'u sched_task \<Rightarrow> 'u sched_fn \<times> nat \<Rightarrow> bool" where
  "task_is me body rest w t fk \<longleftrightarrow> (tk_thread t = None \<or> tk_thread t = Some me) \<and> snd fk < length (body (fst fk)) \<and>
     (case tk_fiber t of
        None \<Rightarrow> tk_cb t = Some (fst fk) \<and> snd fk = 0
      | Some p \<Rightarrow> \<exists>h. fibers w p = Some h \<and> fiber_at fk p rest h)"

definition queue_fibers :: "'u scheduler \<Rightarrow> nat list" where
  "queue_fibers s = List.map_filter tk_fiber (m_tasks s)"

definition coop_ready ::
  "nat \<Rightarrow> nat \<Rightarrow> nat set \<Rightarrow> (nat \<Rightarrow> bool) \<Rightarrow> 'u prog \<Rightarrow> nat \<Rightarrow> run_locals \<Rightarrow> 'u conts \<Rightarrow> 'u scheduler
   \<Rightarrow> 'u sched_fn fiber_world \<Rightarrow> thread_ctx \<Rightarrow> ('u sched_fn \<times> nat) list \<Rightarrow> bool" where
  "coop_ready g m D ext body me l rest s w tc q \<longleftrightarrow>
     coop_tc g m tc \<and> fibers w g \<noteq> None \<and> fibers w m \<noteq> None \<and> cb_fiber l = None \<and> finite (dom (fibers w)) \<and>
     {g, m, idle_fiber l} \<subseteq> D \<and> idle_fiber l \<noteq> g \<and>
     (\<exists>fi. fibers w (idle_fiber l) = Some fi \<and> m_state fi = READY \<and> m_runInScheduler fi \<and> m_ctx fi = Ctx_Entry \<and> m_stack fi \<noteq> 0) \<and>
     dom (fibers w) \<subseteq> D \<union> set (queue_fibers s) \<and> Collect ext \<subseteq> D \<inter> dom (fibers w) \<and>
     list_all2 (task_is me body rest w) (m_tasks s) q \<and>
     distinct (queue_fibers s) \<and> {g, m, idle_fiber l} \<inter> set (queue_fibers s) = {} \<and> dom rest \<subseteq> set (queue_fibers s)"

lemma queue_fibers_iff: "p \<in> set (queue_fibers s) \<longleftrightarrow> queued_fiber p s"
  by (auto simp: queue_fibers_def queued_fiber_def List.map_filter_def image_iff)

section \<open>One turn\<close>

text \<open>Resuming a fiber that is ready, and what its segment does.\<close>

lemma coop_resume:
  assumes tc: "coop_tc g m tc" and p: "fibers w p = Some h" "p \<noteq> g" and h: "fiber_at fk p rest h"
    and g: "fibers w g = Some fg" and u: "\<not> uc_swap_fails u"
  shows "fiber_resume u p w tc =
     Inr (w\<lparr>fibers := (fibers w)(p \<mapsto> h\<lparr>m_state := RUNNING\<rparr>, g \<mapsto> fg\<lparr>m_ctx := Ctx_At g\<rparr>)\<rparr>,
          tc\<lparr>t_fiber := Some p, t_exec := Some p\<rparr>)"
  by (rule fiber_resume_ok) (use assms in \<open>auto simp: coop_tc_def fiber_at_def swap_partner_def ctx_target_def\<close>)

lemma coop_leave:
  assumes tc: "coop_tc g m tc" and p: "fibers w1 p = Some h" "p \<noteq> g" and u: "\<not> uc_swap_fails u"
    and h: "m_state h = RUNNING \<or> m_state h = TERMINATED" "m_runInScheduler h"
    and g: "fibers w1 g = Some fg" "m_ctx fg = Ctx_At g"
  shows "fiber_yield u p w1 (tc\<lparr>t_fiber := Some p, t_exec := Some p\<rparr>) =
     Inr (w1\<lparr>fibers := (fibers w1)(p \<mapsto> h\<lparr>m_state := after_yield (m_state h), m_ctx := Ctx_At p\<rparr>)\<rparr>,
          tc\<lparr>t_fiber := Some m\<rparr>)"
proof -
  have "tc\<lparr>t_fiber := Some m\<rparr> = (tc\<lparr>t_fiber := Some p, t_exec := Some p\<rparr>)\<lparr>t_fiber := t_thread_fiber tc, t_exec := Some g\<rparr>"
    using tc by (cases tc) (simp add: coop_tc_def)
  then show ?thesis
    by (subst fiber_yield_ok [where g = g and f = h and fg = fg and e = p and e' = g])
       (use assms in \<open>auto simp: coop_tc_def swap_partner_def ctx_target_def\<close>)
qed

text \<open>What a segment leaves behind: the scheduler, and the fiber.\<close>

definition seg_more :: "'u prog \<Rightarrow> 'u sched_fn \<Rightarrow> nat \<Rightarrow> bool" where
  "seg_more body f k \<longleftrightarrow> Suc k < length (body f)"

definition seg_sched :: "'u prog \<Rightarrow> 'u sched_fn \<Rightarrow> nat \<Rightarrow> nat \<Rightarrow> 'u scheduler \<Rightarrow> 'u scheduler" where
  "seg_sched body f k p s =
     (let s1 = fold (\<lambda>t s. snd (schedule t s)) (body f ! k) s
      in if seg_more body f k then snd (schedule (task_of_fiber (Some p) None) s1) else s1)"

definition seg_fiber :: "'u prog \<Rightarrow> 'u sched_fn \<Rightarrow> nat \<Rightarrow> nat \<Rightarrow> 'u sched_fn fiber \<Rightarrow> 'u sched_fn fiber" where
  "seg_fiber body f k p h =
     (if seg_more body f k then h\<lparr>m_state := READY, m_ctx := Ctx_At p\<rparr>
      else h\<lparr>m_fcb := None, m_state := TERMINATED, m_ctx := Ctx_At p\<rparr>)"

lemma schedule_threads [simp]: "m_threads (snd (schedule t s)) = m_threads s"
  by (simp add: schedule_def schedule_no_lock_def Let_def)

lemma fold_schedule_threads [simp]: "m_threads (fold (\<lambda>t s. snd (schedule t s)) ts s) = m_threads s"
  by (induction ts arbitrary: s) simp_all

lemma seg_sched_simps [simp]:
  "m_threads (seg_sched body f k p s) = m_threads s"
  "m_stopping (seg_sched body f k p s) = m_stopping s"
  "m_activeThreadCount (seg_sched body f k p s) = m_activeThreadCount s"
  "m_idleThreadCount (seg_sched body f k p s) = m_idleThreadCount s"
  "m_tasks (seg_sched body f k p s) = m_tasks s @ filter (\<lambda>t. \<not> task_empty t) (body f ! k) @
     (if seg_more body f k then [task_of_fiber (Some p) None] else [])"
  by (simp_all add: seg_sched_def Let_def)

lemma schedule_active:
  "snd (schedule t (s\<lparr>m_activeThreadCount := n\<rparr>)) = (snd (schedule t s))\<lparr>m_activeThreadCount := n\<rparr>"
  by (simp add: schedule_def schedule_no_lock_def Let_def)

lemma fold_schedule_active:
  "fold (\<lambda>t s. snd (schedule t s)) ts (s\<lparr>m_activeThreadCount := n\<rparr>) =
     (fold (\<lambda>t s. snd (schedule t s)) ts s)\<lparr>m_activeThreadCount := n\<rparr>"
  by (induction ts arbitrary: s) (simp_all add: schedule_active)

lemma seg_sched_active:
  "seg_sched body f k p (s\<lparr>m_activeThreadCount := n\<rparr>) = (seg_sched body f k p s)\<lparr>m_activeThreadCount := n\<rparr>"
  by (simp add: seg_sched_def Let_def fold_schedule_active schedule_active)

lemma seg_fiber_simps [simp]:
  "m_state (seg_fiber body f k p h) = (if seg_more body f k then READY else TERMINATED)"
  "m_stack (seg_fiber body f k p h) = m_stack h"
  by (simp_all add: seg_fiber_def)

lemma coop_segment_eq:
  assumes tc: "coop_tc g m tc" and p: "fibers w1 p = Some h" "p \<noteq> g" and u: "\<not> uc_swap_fails u"
    and h: "m_state h = RUNNING" "m_runInScheduler h" and g: "fibers w1 g = Some fg" "m_ctx fg = Ctx_At g"
  shows "coop_segment u js jf np body f k p rest s w1 (tc\<lparr>t_fiber := Some p, t_exec := Some p\<rparr>) =
     Inr (rest(p := if seg_more body f k then Some (f, Suc k) else None), seg_sched body f k p s,
          w1\<lparr>fibers := (fibers w1)(p \<mapsto> seg_fiber body f k p h)\<rparr>, tc\<lparr>t_fiber := Some m\<rparr>)"
proof (cases "seg_more body f k")
  case True
  have "fiber_yield u p w1 (tc\<lparr>t_fiber := Some p, t_exec := Some p\<rparr>) =
     Inr (w1\<lparr>fibers := (fibers w1)(p \<mapsto> seg_fiber body f k p h)\<rparr>, tc\<lparr>t_fiber := Some m\<rparr>)"
    by (subst coop_leave [OF tc p u _ h(2) g]) (simp_all add: h True seg_fiber_def after_yield_def)
  with True show ?thesis
    by (simp add: coop_segment_def seg_more_def seg_sched_def Fiber_GetThis_def)
next
  case False
  let ?h = "h\<lparr>m_fcb := None, m_state := TERMINATED\<rparr>"
  let ?w = "w1\<lparr>fibers := (fibers w1)(p \<mapsto> ?h)\<rparr>"
  have "fiber_yield u p ?w (tc\<lparr>t_fiber := Some p, t_exec := Some p\<rparr>) =
     Inr (w1\<lparr>fibers := (fibers w1)(p \<mapsto> seg_fiber body f k p h)\<rparr>, tc\<lparr>t_fiber := Some m\<rparr>)"
    by (subst coop_leave [OF tc _ p(2) u _ _ _ g(2), of _ ?h])
       (use p g h False in \<open>simp_all add: seg_fiber_def after_yield_def\<close>)
  with False p(1) show ?thesis
    by (simp add: coop_segment_def seg_more_def seg_sched_def fiber_main_end_def fiber_upd_Some)
qed

text \<open>Dropping the worker's pointer to the fiber: it lives on if its function has not returned or if it is
  owned outside.\<close>

lemma coop_release:
  assumes "fibers w2 p = Some (seg_fiber body f k p h)" and "m_stack h \<noteq> 0"
    and "queued_fiber p s \<longleftrightarrow> seg_more body f k"
  shows "\<exists>w3. fiber_release (\<lambda>p. ext p \<or> queued_fiber p s) p w2 tc = Inr (w3, tc) \<and>
     fibers w3 = (if seg_more body f k \<or> ext p then fibers w2 else (fibers w2)(p := None))"
  using assms by (auto simp: fiber_release_def main_func_holds_def fiber_delete_task)

lemma queued_seg:
  assumes "prog_ok me body" and "k < length (body f)"
  shows "queued_fiber q (seg_sched body f k p s) \<longleftrightarrow> queued_fiber q s \<or> (seg_more body f k \<and> q = p)"
    and "queue_fibers (seg_sched body f k p s) = queue_fibers s @ (if seg_more body f k then [p] else [])"
proof -
  have "list_all (local_cb me) (body f ! k)" using assms nth_mem by (auto simp: prog_ok_def)
  then have none: "\<forall>t\<in>set (body f ! k). tk_fiber t = None" by (auto simp: list_all_iff local_cb_def)
  then have "List.map_filter tk_fiber (filter (\<lambda>t. \<not> task_empty t) (body f ! k)) = []"
    by (induction "body f ! k" rule: list.induct) (auto simp: List.map_filter_def)
  then show "queue_fibers (seg_sched body f k p s) = queue_fibers s @ (if seg_more body f k then [p] else [])"
    by (simp add: queue_fibers_def map_filter_append map_filter_simps)
  then show "queued_fiber q (seg_sched body f k p s) \<longleftrightarrow> queued_fiber q s \<or> (seg_more body f k \<and> q = p)"
    by (auto simp: queue_fibers_iff [symmetric])
qed

text \<open>From the resumed fiber to the end of the turn.\<close>

lemma coop_finish:
  assumes tc: "coop_tc g m tc" and p: "fibers w p = Some h" "p \<noteq> g" and h: "fiber_at (f, k) p rest h"
    and g: "fibers w g = Some fg" and u: "\<not> uc_swap_fails u" and a: "a = After_Fiber p \<or> a = After_Cb \<and> cb_fiber l = Some p"
    and q: "\<not> queued_fiber p s1" and body: "prog_ok me body" "k < length (body f)"
  shows "\<exists>w1 w2 w3. fiber_resume u p w tc = Inr (w1, tc\<lparr>t_fiber := Some p, t_exec := Some p\<rparr>) \<and>
     exec_coop u js jf np body a l rest s1 w1 (tc\<lparr>t_fiber := Some p, t_exec := Some p\<rparr>) =
       Inr ([(f, k)], rest(p := if seg_more body f k then Some (f, Suc k) else None), seg_sched body f k p s1, w2, tc\<lparr>t_fiber := Some m\<rparr>) \<and>
     run_return (\<lambda>x. ext x \<or> queued_fiber x (seg_sched body f k p s1)) a l (seg_sched body f k p s1) w2 (tc\<lparr>t_fiber := Some m\<rparr>) =
       Inr (if a = After_Cb then l\<lparr>cb_fiber := None\<rparr> else l, (seg_sched body f k p s1)\<lparr>m_activeThreadCount := m_activeThreadCount s1 - 1\<rparr>,
            w3, tc\<lparr>t_fiber := Some m\<rparr>) \<and>
     fibers w3 = (fibers w)(g \<mapsto> fg\<lparr>m_ctx := Ctx_At g\<rparr>,
       p := if seg_more body f k \<or> ext p then Some (seg_fiber body f k p (h\<lparr>m_state := RUNNING\<rparr>)) else None)"
proof -
  let ?h = "h\<lparr>m_state := RUNNING\<rparr>" and ?fg = "fg\<lparr>m_ctx := Ctx_At g\<rparr>"
  let ?w1 = "w\<lparr>fibers := (fibers w)(p \<mapsto> ?h, g \<mapsto> ?fg)\<rparr>"
  let ?tc1 = "tc\<lparr>t_fiber := Some p, t_exec := Some p\<rparr>"
  let ?w2 = "?w1\<lparr>fibers := (fibers ?w1)(p \<mapsto> seg_fiber body f k p ?h)\<rparr>"
  let ?s2 = "seg_sched body f k p s1"
  note r = coop_resume [OF tc p h g u]
  have seg: "coop_segment u js jf np body f k p rest s1 ?w1 ?tc1 =
     Inr (rest(p := if seg_more body f k then Some (f, Suc k) else None), ?s2, ?w2, tc\<lparr>t_fiber := Some m\<rparr>)"
    by (rule coop_segment_eq [OF tc _ p(2) u, where fg = ?fg]) (use p h in \<open>simp_all add: fiber_at_def\<close>)
  have e: "exec_coop u js jf np body a l rest s1 ?w1 ?tc1 =
       Inr ([(f, k)], rest(p := if seg_more body f k then Some (f, Suc k) else None), ?s2, ?w2, tc\<lparr>t_fiber := Some m\<rparr>)"
  proof (cases "rest p")
    case None
    then have "k = 0" "m_fcb h = Some f" using h by (simp_all add: fiber_at_def)
    then have "fiber_main_begin u js jf np ?w1 ?tc1 = Inr (p, Some f, ?w1, ?tc1)"
      using p by (simp add: fiber_main_begin_def Fiber_GetThis_def)
    with None a seg \<open>k = 0\<close> show ?thesis by (auto simp: exec_coop_def)
  next
    case (Some fk)
    then have "fk = (f, k)" using h by (simp add: fiber_at_def)
    with Some a seg show ?thesis by (auto simp: exec_coop_def)
  qed
  have q2: "queued_fiber p ?s2 \<longleftrightarrow> seg_more body f k" using q by (simp add: queued_seg [OF body])
  obtain w3 where rel: "fiber_release (\<lambda>p. ext p \<or> queued_fiber p ?s2) p ?w2 (tc\<lparr>t_fiber := Some m\<rparr>) = Inr (w3, tc\<lparr>t_fiber := Some m\<rparr>)"
    and w3: "fibers w3 = (if seg_more body f k \<or> ext p then fibers ?w2 else (fibers ?w2)(p := None))"
    using coop_release [where h = ?h and ext = ext and s = ?s2, OF _ _ q2, of ?w2 "tc\<lparr>t_fiber := Some m\<rparr>"] h
    by (auto simp: fiber_at_def)
  have ret: "run_return (\<lambda>p. ext p \<or> queued_fiber p ?s2) a l ?s2 ?w2 (tc\<lparr>t_fiber := Some m\<rparr>) =
       Inr (if a = After_Cb then l\<lparr>cb_fiber := None\<rparr> else l, ?s2\<lparr>m_activeThreadCount := m_activeThreadCount s1 - 1\<rparr>,
            w3, tc\<lparr>t_fiber := Some m\<rparr>)"
    using a rel by (auto simp: run_return_def)
  have fin: "fibers w3 = (fibers w)(g \<mapsto> ?fg, p := if seg_more body f k \<or> ext p then Some (seg_fiber body f k p ?h) else None)"
    using p(2) by (auto simp: w3 fun_eq_iff)
  show ?thesis
    by (rule exI [of _ ?w1], rule exI [of _ ?w2], rule exI [of _ w3], intro conjI, rule r, rule e, rule ret, rule fin)
qed

lemma coop_lookup:
  assumes "m_tasks s = t # ts" and "task_is me body rest w t fk"
  shows "run_lookup (fiber_running w) me s =
     (Some t, ts \<noteq> [], s\<lparr>m_tasks := ts, m_activeThreadCount := m_activeThreadCount s + 1\<rparr>)"
  using assms by (auto simp: run_lookup_def task_is_def fiber_running_def fiber_at_def split: option.splits)

text \<open>The whole turn: \<open>p\<close> is the fiber it used, which is gone afterwards if the function has ended.\<close>

lemma coop_turn_eq:
  assumes tc: "coop_tc g m tc" and g: "fibers w g = Some fg" and l: "cb_fiber l = None"
    and q: "m_tasks s = t # ts" and t: "task_is me body rest w t (f, k)"
    and p: "p = (case tk_fiber t of Some p \<Rightarrow> p | None \<Rightarrow> alloc w)" "p \<noteq> g" "p \<notin> set (List.map_filter tk_fiber ts)"
    and new: "tk_fiber t = None \<Longrightarrow> fibers w (alloc w) = None \<and> rest (alloc w) = None"
    and st: "stack \<noteq> 0" and u: "\<not> uc_swap_fails u" "\<not> uc_get_fails u" and body: "prog_ok me body"
  shows "\<exists>h w'. coop_turn u js jf stack alloc ext body me l rest s w tc =
       Inr ([(f, k)], False, l, rest(p := if seg_more body f k then Some (f, Suc k) else None),
            (seg_sched body f k p (s\<lparr>m_tasks := ts\<rparr>))\<lparr>m_activeThreadCount := m_activeThreadCount s\<rparr>, w', tc\<lparr>t_fiber := Some m\<rparr>) \<and>
     fibers w' = (fibers w)(g \<mapsto> fg\<lparr>m_ctx := Ctx_At g\<rparr>, p := if seg_more body f k \<or> ext p then Some (seg_fiber body f k p h) else None) \<and>
     m_runInScheduler h \<and> m_stack h \<noteq> 0"
proof -
  let ?s1 = "s\<lparr>m_tasks := ts, m_activeThreadCount := m_activeThreadCount s + 1\<rparr>"
  have k: "k < length (body f)" using t by (simp add: task_is_def)
  have nq: "\<not> queued_fiber p ?s1"
    using p(3) by (simp add: queue_fibers_iff [symmetric] queue_fibers_def)
  show ?thesis
  proof (cases "tk_fiber t")
    case (Some p')
    then have p': "p' = p" using p(1) by simp
    obtain h where h: "fibers w p = Some h" "fiber_at (f, k) p rest h"
      using t Some p' by (auto simp: task_is_def)
    obtain w1 w2 w3 where
      r: "fiber_resume u p w tc = Inr (w1, tc\<lparr>t_fiber := Some p, t_exec := Some p\<rparr>)"
      and e: "exec_coop u js jf (alloc w) body (After_Fiber p) l rest ?s1 w1 (tc\<lparr>t_fiber := Some p, t_exec := Some p\<rparr>) =
       Inr ([(f, k)], rest(p := if seg_more body f k then Some (f, Suc k) else None), seg_sched body f k p ?s1, w2, tc\<lparr>t_fiber := Some m\<rparr>)"
      and x: "run_return (\<lambda>q. ext q \<or> queued_fiber q (seg_sched body f k p ?s1)) (After_Fiber p) l (seg_sched body f k p ?s1) w2 (tc\<lparr>t_fiber := Some m\<rparr>) =
       Inr (l, (seg_sched body f k p ?s1)\<lparr>m_activeThreadCount := m_activeThreadCount ?s1 - 1\<rparr>, w3, tc\<lparr>t_fiber := Some m\<rparr>)"
      and w3: "fibers w3 = (fibers w)(g \<mapsto> fg\<lparr>m_ctx := Ctx_At g\<rparr>,
       p := if seg_more body f k \<or> ext p then Some (seg_fiber body f k p (h\<lparr>m_state := RUNNING\<rparr>)) else None)"
      using coop_finish [where a = "After_Fiber p" and ext = ext, OF tc h(1) p(2) h(2) g u(1) _ nq body k, of l js jf "alloc w"]
      by auto
    have "run_dispatch u stack (alloc w) t l ?s1 w tc =
        Inr (Some (After_Fiber p), l, ?s1, w1, tc\<lparr>t_fiber := Some p, t_exec := Some p\<rparr>)"
      using Some p' r by (simp add: run_dispatch_def)
    then have "coop_turn u js jf stack alloc ext body me l rest s w tc =
       Inr ([(f, k)], False, l, rest(p := if seg_more body f k then Some (f, Suc k) else None),
            (seg_sched body f k p (s\<lparr>m_tasks := ts\<rparr>))\<lparr>m_activeThreadCount := m_activeThreadCount s\<rparr>, w3, tc\<lparr>t_fiber := Some m\<rparr>)"
      unfolding coop_turn_def by (simp add: coop_lookup [OF q t] e [unfolded seg_sched_active] x [unfolded seg_sched_active])
    with w3 h(2) show ?thesis by (intro exI [of _ "h\<lparr>m_state := RUNNING\<rparr>"] exI [of _ w3]) (simp add: fiber_at_def)
  next
    case None
    then have pa: "p = alloc w" using p(1) by simp
    have cb: "tk_cb t = Some f" "k = 0" using t None by (simp_all add: task_is_def)
    let ?h = "\<lparr>m_id = s_fiber_id w, m_stacksize = fiber_stacksize 0, m_state = READY,
                     m_ctx = Ctx_Entry, m_stack = stack, m_fcb = Some f, m_runInScheduler = True\<rparr>"
    let ?w0 = "w\<lparr>fibers := (fibers w)(p \<mapsto> ?h), s_fiber_id := s_fiber_id w + 1, s_fiber_count := s_fiber_count w + 1\<rparr>"
    have fn: "fiber_new u stack p (Some f) 0 True w = Inr ?w0" using u(2) by (simp add: fiber_new_def)
    have at: "fiber_at (f, k) p rest ?h" using new None st cb(2) pa by (simp add: fiber_at_def)
    let ?l = "l\<lparr>cb_fiber := Some p\<rparr>"
    have l_eq: "?l\<lparr>cb_fiber := None\<rparr> = l" using l by (cases l) simp
    obtain w1 w2 w3 where
      r: "fiber_resume u p ?w0 tc = Inr (w1, tc\<lparr>t_fiber := Some p, t_exec := Some p\<rparr>)"
      and e: "exec_coop u js jf (alloc w) body After_Cb ?l rest ?s1 w1 (tc\<lparr>t_fiber := Some p, t_exec := Some p\<rparr>) =
       Inr ([(f, k)], rest(p := if seg_more body f k then Some (f, Suc k) else None), seg_sched body f k p ?s1, w2, tc\<lparr>t_fiber := Some m\<rparr>)"
      and x: "run_return (\<lambda>q. ext q \<or> queued_fiber q (seg_sched body f k p ?s1)) After_Cb ?l (seg_sched body f k p ?s1) w2 (tc\<lparr>t_fiber := Some m\<rparr>) =
       Inr (l, (seg_sched body f k p ?s1)\<lparr>m_activeThreadCount := m_activeThreadCount ?s1 - 1\<rparr>, w3, tc\<lparr>t_fiber := Some m\<rparr>)"
      and w3: "fibers w3 = (fibers ?w0)(g \<mapsto> fg\<lparr>m_ctx := Ctx_At g\<rparr>,
       p := if seg_more body f k \<or> ext p then Some (seg_fiber body f k p (?h\<lparr>m_state := RUNNING\<rparr>)) else None)"
      using coop_finish [where a = After_Cb and ext = ext and w = ?w0 and h = ?h and l = ?l, OF tc _ p(2) at _ u(1) _ nq body k, of fg js jf "alloc w"]
        g p(2) l_eq by auto
    have "run_dispatch u stack (alloc w) t l ?s1 w tc =
        Inr (Some After_Cb, ?l, ?s1, w1, tc\<lparr>t_fiber := Some p, t_exec := Some p\<rparr>)"
      using None cb(1) l r fn by (simp add: run_dispatch_def pa)
    then have "coop_turn u js jf stack alloc ext body me l rest s w tc =
       Inr ([(f, k)], False, l, rest(p := if seg_more body f k then Some (f, Suc k) else None),
            (seg_sched body f k p (s\<lparr>m_tasks := ts\<rparr>))\<lparr>m_activeThreadCount := m_activeThreadCount s\<rparr>, w3, tc\<lparr>t_fiber := Some m\<rparr>)"
      unfolding coop_turn_def by (simp add: coop_lookup [OF q t] e [unfolded seg_sched_active] x [unfolded seg_sched_active])
    moreover have "fibers w3 = (fibers w)(g \<mapsto> fg\<lparr>m_ctx := Ctx_At g\<rparr>,
       p := if seg_more body f k \<or> ext p then Some (seg_fiber body f k p (?h\<lparr>m_state := RUNNING\<rparr>)) else None)"
      using w3 p(2) by (auto simp: fun_eq_iff)
    ultimately show ?thesis using st by (intro exI [of _ "?h\<lparr>m_state := RUNNING\<rparr>"] exI [of _ w3]) simp
  qed
qed

text \<open>The other queued tasks are where they were.\<close>

lemma task_is_frame:
  assumes "task_is me body rest w t fk" and "\<And>p. tk_fiber t = Some p \<Longrightarrow> fibers w' p = fibers w p \<and> rest' p = rest p"
  shows "task_is me body rest' w' t fk"
  using assms by (auto simp: task_is_def fiber_at_def split: option.splits)

lemma queue_fibers_live:
  "list_all2 (task_is me body rest w) ts q \<Longrightarrow> p \<in> set (List.map_filter tk_fiber ts) \<Longrightarrow> fibers w p \<noteq> None"
  by (induction rule: list_all2_induct) (auto simp: map_filter_simps task_is_def split: option.splits)

lemma fresh_tasks:
  assumes "prog_ok me body" and "k < length (body f)"
  shows "list_all2 (task_is me body rest w) (filter (\<lambda>t. \<not> task_empty t) (body f ! k)) (spawned body f k)"
proof -
  have "list_all2 (task_is me body rest w) (filter (\<lambda>t. \<not> task_empty t) ts) (map (\<lambda>h. (h, 0)) (List.map_filter tk_cb ts))"
    if "list_all (local_cb me) ts" for ts
    using that
  proof (induction ts)
    case (Cons t ts)
    have "body h \<noteq> []" for h using assms(1) by (simp add: prog_ok_def)
    with Cons show ?case
      by (cases "tk_cb t") (auto simp: map_filter_simps task_empty_def local_cb_def task_is_def)
  qed (simp add: map_filter_simps)
  moreover have "list_all (local_cb me) (body f ! k)" using assms nth_mem by (auto simp: prog_ok_def)
  ultimately show ?thesis by (simp add: spawned_def)
qed

lemma coop_turn_ready:
  assumes r: "coop_ready g m D ext body me l rest s w tc ((f, k) # q)"
    and al: "\<And>w'. finite (dom (fibers w')) \<Longrightarrow> fibers w' (alloc w') = None"
    and st: "stack \<noteq> 0" and u: "\<not> uc_swap_fails u" "\<not> uc_get_fails u" and body: "prog_ok me body"
  shows "\<exists>rest' s' w' tc'. coop_turn u js jf stack alloc ext body me l rest s w tc = Inr ([(f, k)], False, l, rest', s', w', tc') \<and>
     coop_ready g m D ext body me l rest' s' w' tc' (q @ spawned body f k @ continued body f k) \<and>
     m_stopping s' = m_stopping s \<and> m_activeThreadCount s' = m_activeThreadCount s \<and>
     m_idleThreadCount s' = m_idleThreadCount s \<and> m_threads s' = m_threads s \<and> (m \<noteq> g \<longrightarrow> fibers w' m = fibers w m) \<and>
     fibers w' g = map_option (\<lambda>fg. fg\<lparr>m_ctx := Ctx_At g\<rparr>) (fibers w g)"
proof -
  have "list_all2 (task_is me body rest w) (m_tasks s) ((f, k) # q)" using r by (simp add: coop_ready_def)
  then obtain t ts where q: "m_tasks s = t # ts" and t: "task_is me body rest w t (f, k)"
    and ts: "list_all2 (task_is me body rest w) ts q"
    by (auto simp: list_all2_Cons2)
  from r obtain fg where g: "fibers w g = Some fg" by (auto simp: coop_ready_def)
  have k: "k < length (body f)" using t by (simp add: task_is_def)
  define p where "p = (case tk_fiber t of Some p \<Rightarrow> p | None \<Rightarrow> alloc w)"
  have fs: "queue_fibers s = (case tk_fiber t of Some p \<Rightarrow> [p] | None \<Rightarrow> []) @ List.map_filter tk_fiber ts"
    by (simp add: queue_fibers_def q map_filter_simps split: option.split)
  have fin: "finite (dom (fibers w))" using r by (simp add: coop_ready_def)
  have al': "fibers w (alloc w) = None" using al [OF fin] by simp
  note live = queue_fibers_live [OF ts]
  have inv: "fibers w g \<noteq> None" "fibers w m \<noteq> None" "fibers w (idle_fiber l) \<noteq> None"
    "{g, m, idle_fiber l} \<inter> set (queue_fibers s) = {}" "distinct (queue_fibers s)" "dom rest \<subseteq> set (queue_fibers s)"
    using r by (auto simp: coop_ready_def)
  have pp: "p \<notin> {g, m, idle_fiber l} \<and> p \<notin> set (List.map_filter tk_fiber ts)"
  proof (cases "tk_fiber t")
    case None
    then have "p = alloc w" by (simp add: p_def)
    with inv(1-3) al' live [of p] show "p \<notin> {g, m, idle_fiber l} \<and> p \<notin> set (List.map_filter tk_fiber ts)" by auto
  next
    case (Some p')
    then have "queue_fibers s = p # List.map_filter tk_fiber ts" by (simp add: p_def fs)
    with inv(4,5) show "p \<notin> {g, m, idle_fiber l} \<and> p \<notin> set (List.map_filter tk_fiber ts)" by auto
  qed
  then have p: "p \<notin> {g, m, idle_fiber l}" "p \<notin> set (List.map_filter tk_fiber ts)" by simp_all
  have new: "fibers w (alloc w) = None \<and> rest (alloc w) = None" if "tk_fiber t = None"
  proof -
    have "queue_fibers s = List.map_filter tk_fiber ts" using that by (simp add: fs)
    with inv(6) live [of "alloc w"] al' show ?thesis by auto
  qed
  have tc: "coop_tc g m tc" and l: "cb_fiber l = None" using r by (simp_all add: coop_ready_def)
  let ?rest = "rest(p := if seg_more body f k then Some (f, Suc k) else None)"
  let ?s = "(seg_sched body f k p (s\<lparr>m_tasks := ts\<rparr>))\<lparr>m_activeThreadCount := m_activeThreadCount s\<rparr>"
  let ?tc = "tc\<lparr>t_fiber := Some m\<rparr>"
  obtain h w' where turn: "coop_turn u js jf stack alloc ext body me l rest s w tc = Inr ([(f, k)], False, l, ?rest, ?s, w', ?tc)"
    and w': "fibers w' = (fibers w)(g \<mapsto> fg\<lparr>m_ctx := Ctx_At g\<rparr>, p := if seg_more body f k \<or> ext p then Some (seg_fiber body f k p h) else None)"
    and h: "m_runInScheduler h" "m_stack h \<noteq> 0"
    using coop_turn_eq [where ext = ext and alloc = alloc, OF tc g l q t p_def _ p(2) new st u body, of js jf] p(1) by auto
  have nq: "queue_fibers ?s = List.map_filter tk_fiber ts @ (if seg_more body f k then [p] else [])"
    using queued_seg(2) [OF body k, of p "s\<lparr>m_tasks := ts\<rparr>"] by (simp add: queue_fibers_def)
  have more: "seg_more body f k \<longleftrightarrow> Suc k < length (body f)" by (simp add: seg_more_def)
  have other: "fibers w' x = fibers w x \<and> ?rest x = rest x" if "t' \<in> set ts" "tk_fiber t' = Some x" for t' x
  proof -
    have "x \<in> set (List.map_filter tk_fiber ts)" using that by (force simp: List.map_filter_def)
    moreover from this have "x \<noteq> g" using inv(4) by (auto simp: fs)
    ultimately show ?thesis using p(2) by (auto simp: w')
  qed
  have "list_all2 (task_is me body ?rest w') ts q"
  proof (rule list_all2_all_nthI [OF list_all2_lengthD [OF ts]])
    fix n assume n: "n < length ts"
    show "task_is me body ?rest w' (ts ! n) (q ! n)"
      by (rule task_is_frame [OF list_all2_nthD [OF ts n]]) (rule other [OF nth_mem [OF n]])
  qed
  moreover have "list_all2 (task_is me body ?rest w') (if seg_more body f k then [task_of_fiber (Some p) None] else []) (continued body f k)"
    using h w' by (cases "Suc k < length (body f)") (simp_all add: continued_def more task_is_def fiber_at_def seg_fiber_def)
  ultimately have tasks: "list_all2 (task_is me body ?rest w') (m_tasks ?s) (q @ spawned body f k @ continued body f k)"
    using fresh_tasks [OF body k, of ?rest w'] by (simp add: list_all2_appendI)
  have qs: "set (queue_fibers s) \<subseteq> insert p (set (List.map_filter tk_fiber ts))"
    by (auto simp: fs p_def split: option.splits)
  have D: "dom (fibers w) \<subseteq> D \<union> set (queue_fibers s)" "Collect ext \<subseteq> D \<inter> dom (fibers w)" "{g, m, idle_fiber l} \<subseteq> D" "idle_fiber l \<noteq> g"
    using r by (simp_all add: coop_ready_def)
  have "dom (fibers w') \<subseteq> D \<union> set (queue_fibers ?s)"
    using D(1,2) qs D(3) unfolding nq w' by (auto split: if_splits)
  moreover have "Collect ext \<subseteq> D \<inter> dom (fibers w')" using D(2) unfolding w' by auto
  moreover have "dom ?rest \<subseteq> set (queue_fibers ?s)" using inv(6) qs unfolding nq by (auto split: if_splits)
  moreover have "distinct (queue_fibers ?s)" "{g, m, idle_fiber l} \<inter> set (queue_fibers ?s) = {}"
    using inv(4,5) p unfolding nq fs by auto
  moreover have "finite (dom (fibers w'))" using fin unfolding w' by (simp add: dom_fun_upd)
  moreover have "fibers w' (idle_fiber l) = fibers w (idle_fiber l)" "fibers w' g = map_option (\<lambda>fg. fg\<lparr>m_ctx := Ctx_At g\<rparr>) (fibers w g)"
    "m \<noteq> g \<Longrightarrow> fibers w' m = fibers w m"
    using p(1) D(4) by (auto simp: w' g)
  moreover have "coop_tc g m ?tc" using tc by (simp add: coop_tc_def)
  moreover have "\<exists>fi. fibers w (idle_fiber l) = Some fi \<and> m_state fi = READY \<and> m_runInScheduler fi \<and> m_ctx fi = Ctx_Entry \<and> m_stack fi \<noteq> 0"
    using r by (simp add: coop_ready_def)
  ultimately have "coop_ready g m D ext body me l ?rest ?s w' ?tc (q @ spawned body f k @ continued body f k) \<and>
      (m \<noteq> g \<longrightarrow> fibers w' m = fibers w m) \<and> fibers w' g = map_option (\<lambda>fg. fg\<lparr>m_ctx := Ctx_At g\<rparr>) (fibers w g)"
    using tasks l D(3,4) inv(1,2) by (cases "m = g") (simp_all add: coop_ready_def)
  with turn show ?thesis by (intro exI [of _ ?rest] exI [of _ ?s] exI [of _ w'] exI [of _ ?tc]) simp
qed

section \<open>The end of the loop\<close>

lemma coop_idle_end:
  assumes tc: "coop_tc g m tc" and g: "fibers w g = Some fg" and i: "fibers w (idle_fiber l) = Some fi" "idle_fiber l \<noteq> g"
    and fi: "m_state fi = READY" "m_runInScheduler fi" "m_ctx fi = Ctx_Entry"
    and q: "m_tasks s = []" and stop: "m_stopping s" "m_activeThreadCount s = 0" and u: "\<not> uc_swap_fails u"
  shows "\<exists>w'. coop_turn u js jf stack alloc ext body me l rest s w tc = Inr ([], False, l, rest, s, w', tc\<lparr>t_fiber := Some m\<rparr>) \<and>
     fibers w' = (fibers w)(g \<mapsto> fg\<lparr>m_ctx := Ctx_At g\<rparr>,
       idle_fiber l \<mapsto> fi\<lparr>m_fcb := None, m_state := TERMINATED, m_ctx := Ctx_At (idle_fiber l)\<rparr>)"
proof -
  let ?p = "idle_fiber l" and ?fg = "fg\<lparr>m_ctx := Ctx_At g\<rparr>"
  let ?w1 = "w\<lparr>fibers := (fibers w)(?p \<mapsto> fi\<lparr>m_state := RUNNING\<rparr>, g \<mapsto> ?fg)\<rparr>"
  let ?tc1 = "tc\<lparr>t_fiber := Some ?p, t_exec := Some ?p\<rparr>"
  let ?f = "fi\<lparr>m_fcb := None, m_state := TERMINATED\<rparr>"
  let ?w2 = "?w1\<lparr>fibers := (fibers ?w1)(?p \<mapsto> ?f)\<rparr>"
  let ?w3 = "?w2\<lparr>fibers := (fibers ?w2)(?p \<mapsto> ?f\<lparr>m_state := after_yield TERMINATED, m_ctx := Ctx_At ?p\<rparr>)\<rparr>"
  have r: "fiber_resume u ?p w tc = Inr (?w1, ?tc1)"
    by (rule fiber_resume_ok) (use assms in \<open>auto simp: coop_tc_def swap_partner_def ctx_target_def\<close>)
  have "fiber_yield u ?p ?w2 ?tc1 = Inr (?w3, tc\<lparr>t_fiber := Some m\<rparr>)"
    by (subst coop_leave [OF tc _ i(2) u, of _ ?f ?fg]) (use i(2) fi in simp_all)
  then have e: "fiber_main_end u ?p ?w1 ?tc1 = Inr (?w3, tc\<lparr>t_fiber := Some m\<rparr>)"
    using i(2) by (simp add: fiber_main_end_def fiber_upd_def fun_upd_twist)
  have k: "run_lookup (fiber_running w) me s = (None, False, s)" by (simp add: run_lookup_def q)
  have d: "run_dispatch u stack (alloc w) task_reset l s w tc =
      Inr (Some After_Idle, l, s\<lparr>m_idleThreadCount := m_idleThreadCount s + 1\<rparr>, ?w1, ?tc1)"
    using i fi r by (simp add: run_dispatch_def task_reset_def)
  have "scheduler_stopping (s\<lparr>m_idleThreadCount := m_idleThreadCount s + 1\<rparr>)"
    using q stop by (simp add: scheduler_stopping_def)
  then have "coop_turn u js jf stack alloc ext body me l rest s w tc = Inr ([], False, l, rest, s, ?w3, tc\<lparr>t_fiber := Some m\<rparr>)"
    by (simp add: coop_turn_def k d e exec_coop_def scheduler_idle_turn_def run_return_def)
  moreover have "fibers ?w3 = (fibers w)(g \<mapsto> ?fg, ?p \<mapsto> fi\<lparr>m_fcb := None, m_state := TERMINATED, m_ctx := Ctx_At ?p\<rparr>)"
    using i(2) by (simp add: after_yield_def fun_upd_twist)
  ultimately show ?thesis by blast
qed

lemma coop_exit:
  assumes "m_tasks s = []" and "map_option m_state (fibers w (idle_fiber l)) = Some TERMINATED"
  shows "coop_turn u js jf stack alloc ext body me l rest s w tc = Inr ([], True, l, rest, s, w, tc)"
  using assms by (auto simp: coop_turn_def run_lookup_def run_dispatch_def task_reset_def)

text \<open>The state in which \<open>run\<close> leaves its loop.\<close>

definition coop_left ::
  "nat \<Rightarrow> nat \<Rightarrow> nat set \<Rightarrow> run_locals \<Rightarrow> 'u scheduler \<Rightarrow> 'u sched_fn fiber_world \<Rightarrow> thread_ctx
   \<Rightarrow> 'u scheduler \<Rightarrow> 'u sched_fn fiber_world \<Rightarrow> thread_ctx \<Rightarrow> bool" where
  "coop_left g m D l s w tc s' w' tc' \<longleftrightarrow>
     m_tasks s' = [] \<and> m_stopping s' \<and> m_activeThreadCount s' = 0 \<and> m_idleThreadCount s' = m_idleThreadCount s \<and>
     m_threads s' = m_threads s \<and> coop_tc g m tc' \<and> t_fiber tc' = Some m \<and> dom (fibers w') \<subseteq> D \<and>
     (\<exists>fi. fibers w' (idle_fiber l) = Some fi \<and> m_state fi = TERMINATED \<and> m_stack fi \<noteq> 0) \<and>
     fibers w' g = map_option (\<lambda>fg. fg\<lparr>m_ctx := Ctx_At g\<rparr>) (fibers w g) \<and> (m \<noteq> g \<longrightarrow> fibers w' m = fibers w m)"

lemma coop_loop_drains:
  assumes st: "stack \<noteq> 0" and u: "\<not> uc_swap_fails u" "\<not> uc_get_fails u" and body: "prog_ok me body"
    and al: "\<And>w'. finite (dom (fibers w')) \<Longrightarrow> fibers w' (alloc w') = None" and W: "prog_bound body W"
  shows "coop_ready g m D ext body me l rest s w tc q \<Longrightarrow> m_stopping s \<Longrightarrow> m_activeThreadCount s = 0 \<Longrightarrow>
    sum_list (map W q) + 2 \<le> n \<Longrightarrow> idle_fiber l \<noteq> m \<Longrightarrow>
    \<exists>rest' s' w' tc'. coop_loop n u js jf stack alloc ext body me l rest s w tc =
        Inr (round_robin body n q, True, l, rest', s', w', tc') \<and> coop_left g m D l s w tc s' w' tc'"
proof (induction n arbitrary: rest s w tc q)
  case (Suc n)
  have tc: "coop_tc g m tc" using Suc.prems(1) by (simp add: coop_ready_def)
  show ?case
  proof (cases q)
    case Nil
    from Suc.prems(1) obtain fg fi where g: "fibers w g = Some fg" and i: "fibers w (idle_fiber l) = Some fi" "idle_fiber l \<noteq> g"
      and fi: "m_state fi = READY" "m_runInScheduler fi" "m_ctx fi = Ctx_Entry" and t: "m_tasks s = []" and stk: "m_stack fi \<noteq> 0"
      by (auto simp: coop_ready_def Nil)
    obtain w' where t1: "coop_turn u js jf stack alloc ext body me l rest s w tc = Inr ([], False, l, rest, s, w', tc\<lparr>t_fiber := Some m\<rparr>)"
      and w': "fibers w' = (fibers w)(g \<mapsto> fg\<lparr>m_ctx := Ctx_At g\<rparr>,
       idle_fiber l \<mapsto> fi\<lparr>m_fcb := None, m_state := TERMINATED, m_ctx := Ctx_At (idle_fiber l)\<rparr>)"
      using coop_idle_end [OF tc g i fi t Suc.prems(2,3) u(1)] by blast
    obtain n' where n: "n = Suc n'" using Suc.prems(4) by (cases n) auto
    have "dom (fibers w) \<subseteq> D" "g \<in> D" "idle_fiber l \<in> D" using Suc.prems(1) t by (auto simp: coop_ready_def queue_fibers_def map_filter_simps)
    then have "coop_left g m D l s w tc s w' (tc\<lparr>t_fiber := Some m\<rparr>)"
      using w' g i t stk Suc.prems(2,3,5) tc by (auto simp: coop_left_def coop_tc_def)
    moreover have "coop_turn u js jf stack alloc ext body me l rest s w' (tc\<lparr>t_fiber := Some m\<rparr>) =
        Inr ([], True, l, rest, s, w', tc\<lparr>t_fiber := Some m\<rparr>)"
      by (rule coop_exit [OF t]) (simp add: w')
    ultimately show ?thesis using t1 by (simp add: Nil n)
  next
    case (Cons fk q')
    obtain f k where fk: "fk = (f, k)" by (cases fk)
    obtain rest1 s1 w1 tc1 where t1: "coop_turn u js jf stack alloc ext body me l rest s w tc = Inr ([(f, k)], False, l, rest1, s1, w1, tc1)"
      and r1: "coop_ready g m D ext body me l rest1 s1 w1 tc1 (q' @ spawned body f k @ continued body f k)"
      and s1: "m_stopping s1 = m_stopping s" "m_activeThreadCount s1 = m_activeThreadCount s" "m_idleThreadCount s1 = m_idleThreadCount s"
        "m_threads s1 = m_threads s"
      and w1: "m \<noteq> g \<longrightarrow> fibers w1 m = fibers w m" "fibers w1 g = map_option (\<lambda>fg. fg\<lparr>m_ctx := Ctx_At g\<rparr>) (fibers w g)"
      using coop_turn_ready [OF Suc.prems(1) [unfolded Cons fk] al st u body, of js jf] by blast
    have "k < length (body f)"
      using Suc.prems(1) by (auto simp: coop_ready_def Cons fk list_all2_Cons2 task_is_def)
    then have "sum_list (map W (spawned body f k)) + sum_list (map W (continued body f k)) < W (f, k)"
      using W by (simp add: prog_bound_def)
    with Suc.prems(4) have n: "sum_list (map W (q' @ spawned body f k @ continued body f k)) + 2 \<le> n"
      by (simp add: Cons fk)
    from Suc.IH [OF r1 _ _ n Suc.prems(5)] s1 Suc.prems(2,3) obtain rest' s' w' tc' where
      "coop_loop n u js jf stack alloc ext body me l rest1 s1 w1 tc1 =
        Inr (round_robin body n (q' @ spawned body f k @ continued body f k), True, l, rest', s', w', tc')"
      "coop_left g m D l s1 w1 tc1 s' w' tc'" by auto
    with t1 w1 s1 show ?thesis
      by (auto simp: Cons fk coop_left_def option.map_comp comp_def)
  qed
qed simp

section \<open>Rounds\<close>

text \<open>
  When no function schedules another one, round robin means rounds: in round \<open>k\<close> every function that
  has a segment \<open>k\<close> executes it, in the order of the queue.
\<close>

definition round_of :: "'u prog \<Rightarrow> 'u sched_fn list \<Rightarrow> nat \<Rightarrow> ('u sched_fn \<times> nat) list" where
  "round_of body fs k = map (\<lambda>f. (f, k)) (filter (\<lambda>f. k < length (body f)) fs)"

lemma round_robin_Nil [simp]: "round_robin body n [] = []"
  by (cases n) simp_all

lemma round_robin_pass:
  assumes "\<And>f k. spawned body f k = []"
  shows "round_robin body (length fs + n) (map (\<lambda>f. (f, k)) fs @ r) =
     map (\<lambda>f. (f, k)) fs @ round_robin body n (r @ round_of body fs (Suc k))"
proof (induction fs arbitrary: r)
  case (Cons f fs)
  have "round_robin body (length (f # fs) + n) (map (\<lambda>f. (f, k)) (f # fs) @ r) =
      (f, k) # round_robin body (length fs + n) (map (\<lambda>f. (f, k)) fs @ (r @ continued body f k))"
    by (simp add: assms)
  also have "\<dots> = map (\<lambda>f. (f, k)) (f # fs) @ round_robin body n ((r @ continued body f k) @ round_of body fs (Suc k))"
    by (simp add: Cons.IH)
  finally show ?case by (simp add: round_of_def continued_def)
qed (simp add: round_of_def)

lemma round_robin_rounds:
  assumes sp: "\<And>f k. spawned body f k = []"
  shows "(\<forall>f\<in>set fs. length (body f) \<le> k + d) \<Longrightarrow> sum_list (map (\<lambda>f. length (body f) - k) fs) \<le> n \<Longrightarrow>
    round_robin body n (round_of body fs k) = concat (map (round_of body fs) [k..<k + d])"
proof (induction d arbitrary: k n)
  case 0
  then have "round_of body fs k = []" by (auto simp: round_of_def filter_empty_conv not_less)
  then show ?case by simp
next
  case (Suc d)
  let ?gs = "filter (\<lambda>f. k < length (body f)) fs"
  have le: "length ?gs + sum_list (map (\<lambda>f. length (body f) - Suc k) fs) = sum_list (map (\<lambda>f. length (body f) - k) fs)"
    by (induction fs) auto
  then obtain n' where n: "n = length ?gs + n'" and n': "sum_list (map (\<lambda>f. length (body f) - Suc k) fs) \<le> n'"
    using Suc.prems(2) by (intro that [of "n - length ?gs"]) simp_all
  have "round_of body ?gs (Suc k) = round_of body fs (Suc k)"
    by (auto simp: round_of_def intro!: arg_cong [where f = "map _"] filter_cong)
  with round_robin_pass [OF sp, of ?gs n' k "[]"]
  have "round_robin body n (round_of body fs k) = round_of body fs k @ round_robin body n' (round_of body fs (Suc k))"
    by (simp add: n round_of_def)
  also have "round_robin body n' (round_of body fs (Suc k)) = concat (map (round_of body fs) [Suc k..<Suc k + d])"
    by (rule Suc.IH) (use Suc.prems(1) n' in auto)
  finally show ?case
    using upt_conv_Cons [of k "k + Suc d"] by (simp del: upt_Suc)
qed

lemma bound_length:
  assumes "prog_bound body W"
  shows "length (body f) - k \<le> W (f, k)"
proof (induction "length (body f) - k" arbitrary: k)
  case (Suc x)
  then have k: "k < length (body f)" by simp
  with assms have lt: "sum_list (map W (continued body f k)) < W (f, k)" by (fastforce simp: prog_bound_def)
  show ?case
  proof (cases "Suc k < length (body f)")
    case True
    have "length (body f) - Suc k \<le> W (f, Suc k)" using Suc by (intro Suc.hyps) simp
    with lt True show ?thesis by (simp add: continued_def)
  next
    case False
    with lt k show ?thesis by (simp add: continued_def)
  qed
qed simp

text \<open>Queued callbacks stand for functions at their first segment.\<close>

lemma queued_cbs_tasks:
  assumes "queued_cbs me ts" and "prog_ok me body"
  shows "list_all2 (task_is me body rest w) ts (map (\<lambda>f. (f, 0)) (List.map_filter tk_cb ts))"
    and "List.map_filter tk_fiber ts = []"
proof -
  have "body h \<noteq> []" for h using assms(2) by (simp add: prog_ok_def)
  with assms(1) show "list_all2 (task_is me body rest w) ts (map (\<lambda>f. (f, 0)) (List.map_filter tk_cb ts))"
    by (induction ts) (auto simp: map_filter_simps queued_cbs_Cons local_cb_def task_is_def)
  from assms(1) show "List.map_filter tk_fiber ts = []"
    by (induction ts) (auto simp: map_filter_simps queued_cbs_Cons local_cb_def)
qed

section \<open>The demonstration of test.cpp\<close>

text \<open>
  The functions \<open>testScheduler\<close> schedules. \<open>test_fiber1\<close> gives up control once;
  \<open>test_fiber4\<close> schedules three callbacks pinned to the thread it runs on, \<open>me\<close>; the others do
  nothing with the scheduler. \<open>demo_queue\<close> holds the first four as callbacks.
\<close>

datatype demo_fiber = Test_Fiber1 | Test_Fiber2 | Test_Fiber3 | Test_Fiber4 | Test_Fiber5

definition test_fibers :: "nat \<Rightarrow> demo_fiber prog" where
  "test_fibers me f =
     (if f = User_Fn Test_Fiber1 then [[], []]
      else if f = User_Fn Test_Fiber4 then [replicate 3 (task_of_cb (Some (User_Fn Test_Fiber5)) (Some me))]
      else [[]])"

definition demo_queue :: "demo_fiber sched_task list" where
  "demo_queue = map (\<lambda>f. task_of_cb (Some (User_Fn f)) None) [Test_Fiber1, Test_Fiber2, Test_Fiber3, Test_Fiber4]"

definition demo_bound :: "demo_fiber sched_fn \<times> nat \<Rightarrow> nat" where
  "demo_bound fk = (if fk = (User_Fn Test_Fiber1, 0) then 2 else if fst fk = User_Fn Test_Fiber4 then 4 else 1)"

lemma test_fibers_ok: "prog_ok me (test_fibers me)"
  by (auto simp: prog_ok_def test_fibers_def local_cb_def list_all_iff)

lemma test_fibers_bound: "prog_bound (test_fibers me) demo_bound"
  by (auto simp: prog_bound_def test_fibers_def demo_bound_def spawned_def continued_def map_filter_simps
      numeral_eq_Suc nth_Cons split: nat.splits)

lemma demo_queue_ok: "queued_cbs me demo_queue"
  by (simp add: demo_queue_def queued_cbs_def local_cb_def task_empty_def)

lemma demo_queue_fns: "List.map_filter tk_cb demo_queue = map User_Fn [Test_Fiber1, Test_Fiber2, Test_Fiber3, Test_Fiber4]"
  by (simp add: demo_queue_def map_filter_simps)

definition demo_order :: "(demo_fiber sched_fn \<times> nat) list" where
  "demo_order = [(User_Fn Test_Fiber1, 0), (User_Fn Test_Fiber2, 0), (User_Fn Test_Fiber3, 0), (User_Fn Test_Fiber4, 0),
     (User_Fn Test_Fiber1, 1), (User_Fn Test_Fiber5, 0), (User_Fn Test_Fiber5, 0), (User_Fn Test_Fiber5, 0)]"

lemma demo_round_robin:
  "round_robin (test_fibers me) 12 (map (\<lambda>f. (f, 0)) (map User_Fn [Test_Fiber1, Test_Fiber2, Test_Fiber3, Test_Fiber4])) = demo_order"
  by (simp add: numeral_eq_Suc demo_order_def test_fibers_def spawned_def continued_def map_filter_simps)

section \<open>Properties\<close>

text \<open>C10: cooperative tasks are executed round robin. A thread of a stopping scheduler, whose queue holds
  callbacks and suspended fibers it may execute, leaves the loop of \<open>run\<close> after finitely many
  turns; the segments it has executed are those of the round robin machine, which knows no fibers,
  in the same order; then the queue is empty, the idle fiber has ended, and every fiber created
  since is destroyed. When the functions schedule no others, they are executed in rounds: round \<open>k\<close> is
  segment \<open>k\<close> of every function that has one, in the order of the queue.\<close>

theorem coop_tasks_round_robin:
  fixes w :: "'u sched_fn fiber_world"
  assumes "coop_ready g m D ext body me l rest s w tc q" and "m_stopping s" and "m_activeThreadCount s = 0" and "idle_fiber l \<noteq> m"
    and "stack \<noteq> 0" and "\<not> uc_swap_fails u" and "\<not> uc_get_fails u" and "prog_ok me body" and "prog_bound body W"
    and "\<And>w'. finite (dom (fibers w')) \<Longrightarrow> fibers w' (alloc w') = None" and "sum_list (map W q) + 2 \<le> n"
  shows "\<exists>rest' s' w' tc'. coop_loop n u js jf stack alloc ext body me l rest s w tc =
       Inr (round_robin body n q, True, l, rest', s', w', tc') \<and> coop_left g m D l s w tc s' w' tc' \<and>
     (\<forall>fs K. (\<forall>f k. spawned body f k = []) \<and> q = map (\<lambda>f. (f, 0)) fs \<and> (\<forall>f\<in>set fs. length (body f) \<le> K) \<longrightarrow>
        round_robin body n q = concat (map (round_of body fs) [0..<K]))"
proof -
  have "round_robin body n q = concat (map (round_of body fs) [0..<K])"
    if "\<And>f k. spawned body f k = []" "q = map (\<lambda>f. (f, 0)) fs" "\<forall>f\<in>set fs. length (body f) \<le> K" for fs K
  proof -
    have "round_of body fs 0 = q" using assms(8) that(2) by (simp add: round_of_def prog_ok_def)
    moreover have "length (body f) \<le> W (f, 0)" for f
      using bound_length [OF assms(9), of f 0] by simp
    then have "sum_list (map (\<lambda>f. length (body f) - 0) fs) \<le> sum_list (map W q)"
      unfolding that(2) by (induction fs) (auto intro: add_mono)
    ultimately show ?thesis
      using round_robin_rounds [OF that(1), of fs 0 K n] that(3) assms(11) by simp
  qed
  then show ?thesis
    using coop_loop_drains [OF assms(5-8,10,9,1-3,11,4), of js jf] by blast
qed

text \<open>A worker with the four functions of the demonstration in its queue; addresses are handed out in order.\<close>

definition next_address :: "'cb fiber_world \<Rightarrow> nat" where
  "next_address w = Suc (Max (insert 0 (dom (fibers w))))"

lemma next_address_fresh: "finite (dom (fibers w)) \<Longrightarrow> fibers w (next_address w) = None"
proof -
  assume fin: "finite (dom (fibers w))"
  have "p < next_address w" if "p \<in> dom (fibers w)" for p
    unfolding next_address_def using fin that by (simp add: less_Suc_eq_le)
  then show ?thesis by fastforce
qed

definition sample_coop :: "demo_fiber sched_fn fiber_world" where
  "sample_coop = \<lparr>fibers =
     [0 \<mapsto> \<lparr>m_id = 0, m_stacksize = 0, m_state = RUNNING, m_ctx = Ctx_At 0, m_stack = 0, m_fcb = None, m_runInScheduler = True\<rparr>,
      9 \<mapsto> \<lparr>m_id = 1, m_stacksize = fiber_stacksize 0, m_state = READY, m_ctx = Ctx_Entry, m_stack = 4096,
            m_fcb = Some Idle_Loop, m_runInScheduler = True\<rparr>], s_fiber_id = 2, s_fiber_count = 2\<rparr>"

definition sample_coop_sched :: "demo_fiber scheduler" where
  "sample_coop_sched = (caller_scheduler demo_queue)\<lparr>m_stopping := True\<rparr>"

theorem coop_tasks_round_robin_witness:
  "\<exists>rest' s' w' tc'. coop_loop 12 no_fail 0 True 4096 next_address (\<lambda>_. False) (test_fibers 5) 5 \<lparr>idle_fiber = 9, cb_fiber = None\<rparr>
       Map.empty sample_coop_sched sample_coop sample_tc =
     Inr (demo_order, True, \<lparr>idle_fiber = 9, cb_fiber = None\<rparr>, rest', s', w', tc')"
proof -
  let ?l = "\<lparr>idle_fiber = 9, cb_fiber = None\<rparr>"
  let ?q = "map (\<lambda>f. (f, 0)) (map User_Fn [Test_Fiber1, Test_Fiber2, Test_Fiber3, Test_Fiber4])"
  have "list_all2 (task_is 5 (test_fibers 5) Map.empty sample_coop) demo_queue ?q"
    using queued_cbs_tasks(1) [OF demo_queue_ok test_fibers_ok, of 5 Map.empty sample_coop] by (simp add: demo_queue_fns)
  then have "coop_ready 0 0 {0, 9} (\<lambda>_. False) (test_fibers 5) 5 ?l Map.empty sample_coop_sched sample_coop sample_tc ?q"
    using queued_cbs_tasks(2) [OF demo_queue_ok [of 5] test_fibers_ok]
    by (simp add: coop_ready_def coop_tc_def sample_tc_def sample_coop_def sample_coop_sched_def caller_scheduler_def queue_fibers_def)
  from coop_tasks_round_robin [OF this, of 4096 no_fail demo_bound next_address 12] show ?thesis
    unfolding demo_round_robin
    by (simp add: sample_coop_sched_def caller_scheduler_def no_fail_def test_fibers_ok test_fibers_bound next_address_fresh demo_bound_def) blast
qed

end
