(* ===== verification/Caller_Scheduler.thy ===== *)
theory Caller_Scheduler
  imports Coop_Loop
begin

text \<open>
  A scheduler that uses its caller's thread (\<open>use_caller\<close>): the constructor makes the thread's main
  fiber and the root fiber, whose function is \<open>run\<close>; the root fiber is only resumed by \<open>stop\<close>.
  This theory composes the constructor, \<open>stop\<close>, the loop of \<open>run\<close> and the way back.
\<close>

section \<open>\<open>stop\<close> as a whole\<close>

text \<open>
  \<open>stop\<close> with everything that happens on the caller's thread until it returns: the root fiber
  executes \<open>run\<close>, whose local \<open>idle_fiber\<close> is destroyed at the end, and ends. The result is the
  segments executed and the threads joined; none if \<open>run\<close> has not left its loop after \<open>n\<close> turns.
\<close>

definition caller_stop ::
  "nat \<Rightarrow> uc_api \<Rightarrow> 64 word \<Rightarrow> bool \<Rightarrow> 64 word \<Rightarrow> ('u sched_fn fiber_world \<Rightarrow> nat) \<Rightarrow> (nat \<Rightarrow> bool) \<Rightarrow> 'u prog \<Rightarrow> nat \<Rightarrow> nat
   \<Rightarrow> nat option \<Rightarrow> 'u scheduler \<Rightarrow> 'u sched_fn fiber_world \<Rightarrow> thread_ctx
   \<Rightarrow> (('u sched_fn \<times> nat) list \<times> nat list \<times> 'u scheduler \<times> 'u sched_fn fiber_world \<times> thread_ctx) option outcome" where
  "caller_stop n u js jf stack alloc ext body this me cur s w tc =
     obind (scheduler_stop u this cur s w tc) (\<lambda>(returned, tickles, s1, w1, tc1).
       if returned then Inr (Some ([], [], s1, w1, tc1))
       else
         (case m_rootFiber s1 of
            None \<Rightarrow> (case scheduler_stop_join s1 of (ts, s2) \<Rightarrow> Inr (Some ([], ts, s2, w1, tc1)))
          | Some r \<Rightarrow>
              obind (fiber_main_begin u js jf (alloc w1) w1 tc1) (\<lambda>(f, fn, w2, tc2).
                if fn \<noteq> Some Run_Loop then Inl Null_Deref
                else
                  obind (run_begin u js jf stack (alloc w2) (alloc w2) this me s1 w2 tc2) (\<lambda>(sch, l, w3, tc3).
                  obind (coop_loop n u js jf stack alloc ext body me l Map.empty s1 w3 tc3) (\<lambda>(fs, ended, l1, rest, s2, w4, tc4).
                    if \<not> ended then Inr None
                    else
                      obind (fiber_release ext (idle_fiber l1) w4 tc4) (\<lambda>(w5, tc5).
                      obind (fiber_main_end u f w5 tc5) (\<lambda>(w6, tc6).
                        case scheduler_stop_join s2 of (ts, s3) \<Rightarrow> Inr (Some (fs, ts, s3, w6, tc6)))))))))"

section \<open>From the constructor to the end of \<open>stop\<close>\<close>

text \<open>What the constructor leaves: the main fiber \<open>gp\<close> executes, the root fiber \<open>rp\<close> waits.\<close>

lemma caller_new:
  fixes s :: "'u scheduler"
  assumes "scheduler_new u js jf stack gp rp 1 True name this me None fiber_world_new thread_ctx_new = Inr (s, cur, w, tc)"
  shows "s = \<lparr>m_name = name, m_threads = [], m_tasks = [], m_threadIds = [me], m_threadCount = 0,
      m_activeThreadCount = 0, m_idleThreadCount = 0, m_useCaller = True, m_rootFiber = Some rp, m_rootThread = Some me,
      m_stopping = False\<rparr>"
    and "cur = Some this" and "\<not> uc_get_fails u"
    and "tc = \<lparr>t_fiber = Some gp, t_thread_fiber = Some gp, t_scheduler_fiber = Some rp, t_exec = Some gp\<rparr>"
    and "fibers w = [gp \<mapsto> \<lparr>m_id = 0, m_stacksize = 0, m_state = RUNNING, m_ctx = Ctx_At gp, m_stack = js, m_fcb = None, m_runInScheduler = jf\<rparr>,
      rp \<mapsto> \<lparr>m_id = 1, m_stacksize = fiber_stacksize 0, m_state = READY, m_ctx = Ctx_Entry, m_stack = stack, m_fcb = Some Run_Loop,
             m_runInScheduler = False\<rparr>]"
proof -
  let ?main = "\<lparr>m_id = 0, m_stacksize = 0, m_state = RUNNING, m_ctx = Ctx_At gp, m_stack = js, m_fcb = None, m_runInScheduler = jf\<rparr> :: 'u sched_fn fiber"
  let ?root = "\<lparr>m_id = 1, m_stacksize = fiber_stacksize 0, m_state = READY, m_ctx = Ctx_Entry, m_stack = stack, m_fcb = Some Run_Loop,
             m_runInScheduler = False\<rparr> :: 'u sched_fn fiber"
  let ?w1 = "\<lparr>fibers = [gp \<mapsto> ?main], s_fiber_id = 1, s_fiber_count = 1\<rparr>"
  let ?tc1 = "\<lparr>t_fiber = Some gp, t_thread_fiber = Some gp, t_scheduler_fiber = None, t_exec = Some gp\<rparr>"
  have get: "Fiber_GetThis u js jf gp fiber_world_new thread_ctx_new =
      (if uc_get_fails u then Inl (Assert_Fail ''getcontext error'') else Inr (gp, ?w1, ?tc1))"
    by (simp add: Fiber_GetThis_def fiber_new_main_def thread_ctx_new_def fiber_world_new_def Fiber_SetThis_def Let_def
        cong del: obind_cong)
  from assms show ok: "\<not> uc_get_fails u" by (cases "uc_get_fails u") (simp_all add: scheduler_new_def get cong del: obind_cong)
  have "scheduler_new u js jf stack gp rp 1 True name this me None fiber_world_new thread_ctx_new =
      Inr (\<lparr>m_name = name, m_threads = [], m_tasks = [], m_threadIds = [me], m_threadCount = 0,
        m_activeThreadCount = 0, m_idleThreadCount = 0, m_useCaller = True, m_rootFiber = Some rp, m_rootThread = Some me,
        m_stopping = False\<rparr>, Some this,
        \<lparr>fibers = [gp \<mapsto> ?main, rp \<mapsto> ?root], s_fiber_id = 2, s_fiber_count = 2\<rparr>, ?tc1\<lparr>t_scheduler_fiber := Some rp\<rparr>)"
    by (simp add: scheduler_new_def get ok fiber_new_def cong del: obind_cong)
  with assms show "s = \<lparr>m_name = name, m_threads = [], m_tasks = [], m_threadIds = [me], m_threadCount = 0,
      m_activeThreadCount = 0, m_idleThreadCount = 0, m_useCaller = True, m_rootFiber = Some rp, m_rootThread = Some me,
      m_stopping = False\<rparr>" "cur = Some this"
    "tc = \<lparr>t_fiber = Some gp, t_thread_fiber = Some gp, t_scheduler_fiber = Some rp, t_exec = Some gp\<rparr>"
    "fibers w = [gp \<mapsto> ?main, rp \<mapsto> ?root]" by auto
qed

lemma fold_schedule_queued:
  assumes "queued_cbs me ts"
  shows "fold (\<lambda>t s. snd (schedule t s)) ts s = s\<lparr>m_tasks := m_tasks s @ ts\<rparr>"
proof -
  have "fold (\<lambda>t s. snd (schedule t s)) ts s = s\<lparr>m_tasks := m_tasks s @ ts\<rparr>" if "\<forall>t\<in>set ts. \<not> task_empty t" for ts
    using that by (induction ts arbitrary: s) (simp_all add: schedule_def schedule_no_lock_def Let_def)
  with assms show ?thesis by (simp add: queued_cbs_def)
qed

text \<open>The caller in the root fiber, about to enter the loop of \<open>run\<close>.\<close>

lemma caller_ready:
  assumes tc: "t_scheduler_fiber tc = Some rp" "t_thread_fiber tc = Some gp" "t_exec tc = Some rp"
    and w: "fibers w = [gp \<mapsto> fm, rp \<mapsto> fr, ip \<mapsto> \<lparr>m_id = i, m_stacksize = sz, m_state = READY, m_ctx = Ctx_Entry,
        m_stack = stack, m_fcb = Some Idle_Loop, m_runInScheduler = True\<rparr>]"
    and d: "distinct [gp, rp, ip]" and st: "stack \<noteq> 0" and q: "queued_cbs me (m_tasks s)" and body: "prog_ok me body"
  shows "coop_ready rp gp {gp, rp, ip} (\<lambda>_. False) body me \<lparr>idle_fiber = ip, cb_fiber = None\<rparr> Map.empty s w tc
     (map (\<lambda>f. (f, 0)) (List.map_filter tk_cb (m_tasks s)))"
  using queued_cbs_tasks(1) [OF q body, of Map.empty w] queued_cbs_tasks(2) [OF q body] d st
  by (simp add: coop_ready_def coop_tc_def tc w queue_fibers_def)

text \<open>The segments that \<open>stop\<close> executes for a queue of callbacks.\<close>

definition queue_order :: "'u prog \<Rightarrow> nat \<Rightarrow> 'u sched_task list \<Rightarrow> ('u sched_fn \<times> nat) list" where
  "queue_order body n ts = round_robin body n (map (\<lambda>f. (f, 0)) (List.map_filter tk_cb ts))"

lemma caller_stop_runs:
  fixes s :: "'u scheduler"
  assumes new: "scheduler_new u js jf stack gp rp 1 True name this me None fiber_world_new thread_ctx_new = Inr (s, cur, w, tc)"
    and ne: "gp \<noteq> rp" and st: "stack \<noteq> 0" and u: "\<not> uc_swap_fails u"
    and al: "\<And>w'. finite (dom (fibers w')) \<Longrightarrow> fibers w' (alloc w') = None"
    and q: "queued_cbs me ts" and body: "prog_ok me body" and W: "prog_bound body W"
    and n: "sum_list (map W (map (\<lambda>f. (f, 0)) (List.map_filter tk_cb ts))) + 2 \<le> n"
  shows "\<exists>s' w' tc'. caller_stop n u js jf stack alloc (\<lambda>_. False) body this me cur (fold (\<lambda>t s. snd (schedule t s)) ts s) w tc =
       Inr (Some (queue_order body n ts, [], s', w', tc')) \<and>
     m_tasks s' = [] \<and> m_stopping s' \<and> m_activeThreadCount s' = 0 \<and>
     t_exec tc' = Some gp \<and> t_fiber tc' = Some gp \<and> dom (fibers w') \<subseteq> {gp, rp} \<and>
     (\<exists>fr. fibers w' rp = Some fr \<and> m_state fr = TERMINATED \<and> m_stack fr \<noteq> 0)"
proof -
  note c = caller_new [OF new]
  let ?s1 = "s\<lparr>m_tasks := ts, m_stopping := True\<rparr>"
  have s0: "fold (\<lambda>t s. snd (schedule t s)) ts s = s\<lparr>m_tasks := ts\<rparr>"
    using fold_schedule_queued [OF q, of s] by (simp add: c(1))
  obtain fm fr where w: "fibers w = [gp \<mapsto> fm, rp \<mapsto> fr]" and fr: "m_state fr = READY" "m_ctx fr = Ctx_Entry"
      "m_stack fr = stack" "m_fcb fr = Some Run_Loop" "\<not> m_runInScheduler fr" and fm: "m_ctx fm = Ctx_At gp"
    using c(5) by fastforce
  let ?fr = "fr\<lparr>m_state := RUNNING\<rparr>" and ?fm = "fm\<lparr>m_ctx := Ctx_At gp\<rparr>"
  let ?w1 = "w\<lparr>fibers := (fibers w)(rp \<mapsto> ?fr, gp \<mapsto> ?fm)\<rparr>"
  let ?tc1 = "tc\<lparr>t_fiber := Some rp, t_exec := Some rp\<rparr>"
  have r: "fiber_resume u rp w tc = Inr (?w1, ?tc1)"
    by (rule fiber_resume_ok) (use w fr ne u c(4) in \<open>auto simp: swap_partner_def ctx_target_def\<close>)
  have stop: "scheduler_stop u this cur (s\<lparr>m_tasks := ts\<rparr>) w tc = Inr (False, 1, ?s1, ?w1, ?tc1)"
    by (simp add: scheduler_stop_def scheduler_stopping_def c(1,2) r)
  have mb: "fiber_main_begin u js jf (alloc ?w1) ?w1 ?tc1 = Inr (rp, Some Run_Loop, ?w1, ?tc1)"
    using fr ne by (simp add: fiber_main_begin_def Fiber_GetThis_def)
  let ?ip = "alloc ?w1" and ?l = "\<lparr>idle_fiber = alloc ?w1, cb_fiber = None\<rparr>"
  have ip: "fibers ?w1 ?ip = None" by (rule al) (simp add: w)
  then have d: "distinct [gp, rp, ?ip]" using ne by auto
  obtain w3 where rb: "run_begin u js jf stack ?ip ?ip this me ?s1 ?w1 ?tc1 = Inr (Some this, ?l, w3, ?tc1)"
    and w3: "fibers w3 = [gp \<mapsto> ?fm, rp \<mapsto> ?fr, ?ip \<mapsto> \<lparr>m_id = s_fiber_id ?w1, m_stacksize = fiber_stacksize 0, m_state = READY,
        m_ctx = Ctx_Entry, m_stack = stack, m_fcb = Some Idle_Loop, m_runInScheduler = True\<rparr>]"
    by (simp add: run_begin_def c(1,3) fiber_new_def w fun_upd_twist ne)
  have "coop_ready rp gp {gp, rp, ?ip} (\<lambda>_. False) body me ?l Map.empty ?s1 w3 ?tc1 (map (\<lambda>f. (f, 0)) (List.map_filter tk_cb (m_tasks ?s1)))"
    by (rule caller_ready [OF _ _ _ w3 d st _ body]) (use c(4) q in simp_all)
  from coop_loop_drains [OF st u c(3) body al W this, of n js jf] n d obtain rest s2 w4 tc4 where
    loop: "coop_loop n u js jf stack alloc (\<lambda>_. False) body me ?l Map.empty ?s1 w3 ?tc1 =
        Inr (queue_order body n ts, True, ?l, rest, s2, w4, tc4)"
    and left: "coop_left rp gp {gp, rp, ?ip} ?l ?s1 w3 ?tc1 s2 w4 tc4"
    by (auto simp: c(1) queue_order_def)
  obtain fi where fi: "fibers w4 ?ip = Some fi" "m_state fi = TERMINATED" "m_stack fi \<noteq> 0"
    and w4: "dom (fibers w4) \<subseteq> {gp, rp, ?ip}" "fibers w4 rp = Some (?fr\<lparr>m_ctx := Ctx_At rp\<rparr>)" "fibers w4 gp = Some ?fm"
    and tc4: "coop_tc rp gp tc4" and s2: "m_tasks s2 = []" "m_stopping s2" "m_activeThreadCount s2 = 0" "m_threads s2 = []"
    using left ne d by (auto simp: coop_left_def w3 c(1))
  obtain w5 where rel: "fiber_release (\<lambda>_. False) ?ip w4 tc4 = Inr (w5, tc4)" and w5: "fibers w5 = (fibers w4)(?ip := None)"
    using fi by (simp add: fiber_release_def main_func_holds_def fiber_delete_task)
  let ?fe = "?fr\<lparr>m_ctx := Ctx_At rp, m_fcb := None, m_state := TERMINATED\<rparr>"
  let ?w6 = "w5\<lparr>fibers := (fibers w5)(rp \<mapsto> ?fe)\<rparr>"
  let ?tc6 = "tc4\<lparr>t_fiber := Some gp, t_exec := Some gp\<rparr>"
  have y: "fiber_yield u rp ?w6 tc4 = Inr (?w6\<lparr>fibers := (fibers ?w6)(rp \<mapsto> ?fe\<lparr>m_state := after_yield TERMINATED, m_ctx := Ctx_At rp\<rparr>)\<rparr>,
      tc4\<lparr>t_fiber := t_thread_fiber tc4, t_exec := Some gp\<rparr>)"
    by (subst fiber_yield_ok [where g = gp and f = ?fe and fg = ?fm and e = rp and e' = gp])
       (use tc4 d u w4 fr in \<open>auto simp: coop_tc_def swap_partner_def ctx_target_def w5\<close>)
  have "fiber_upd rp (\<lambda>f. f\<lparr>m_fcb := None, m_state := TERMINATED\<rparr>) w5 = ?w6"
    by (rule fiber_upd_Some) (use w4 d in \<open>simp add: w5\<close>)
  with y have me: "fiber_main_end u rp w5 tc4 =
      Inr (?w6\<lparr>fibers := (fibers ?w6)(rp \<mapsto> ?fe\<lparr>m_state := after_yield TERMINATED, m_ctx := Ctx_At rp\<rparr>)\<rparr>, ?tc6)"
    using w4 d tc4 by (simp add: fiber_main_end_def w5 coop_tc_def)
  let ?w7 = "?w6\<lparr>fibers := (fibers ?w6)(rp \<mapsto> ?fe\<lparr>m_state := after_yield TERMINATED, m_ctx := Ctx_At rp\<rparr>)\<rparr>"
  have root: "m_rootFiber ?s1 = Some rp" by (simp add: c(1))
  have "caller_stop n u js jf stack alloc (\<lambda>_. False) body this me cur (fold (\<lambda>t s. snd (schedule t s)) ts s) w tc =
       Inr (Some (queue_order body n ts, [], s2\<lparr>m_threads := []\<rparr>, ?w7, ?tc6))"
    unfolding caller_stop_def s0
    by (simp only: stop mb rb loop rel me root obind_simps prod.case scheduler_stop_join_def s2(4) simp_thms if_False
        run_locals.select_convs option.case)
  moreover have "dom (fibers ?w7) \<subseteq> {gp, rp}" using w4(1) by (auto simp: w5)
  ultimately show ?thesis using s2 fr st by (intro exI [of _ "s2\<lparr>m_threads := []\<rparr>"] exI [of _ ?w7] exI [of _ ?tc6]) (simp add: after_yield_def)
qed

section \<open>Properties\<close>

text \<open>C11: a scheduler with one thread, its caller's. \<open>start\<close> creates no thread, so nothing that was
  scheduled is executed before \<open>stop\<close>. Then \<open>stop\<close> executes all of it on the caller's thread, round
  robin, joins nobody and returns in the caller's main fiber; the queue is empty, the root fiber has
  ended, and no other fiber is left. Calling \<open>stop\<close> again returns at once; the scheduler and its
  root fiber can be destroyed.\<close>

theorem use_caller_runs_on_stop:
  fixes s :: "'u scheduler"
  assumes "scheduler_new u js jf stack gp rp 1 True name this me None fiber_world_new thread_ctx_new = Inr (s, cur, w, tc)"
    and "gp \<noteq> rp" and "stack \<noteq> 0" and "\<not> uc_swap_fails u"
    and "\<And>w'. finite (dom (fibers w')) \<Longrightarrow> fibers w' (alloc w') = None"
    and "queued_cbs me ts" and "prog_ok me body" and "prog_bound body W"
    and "sum_list (map W (map (\<lambda>f. (f, 0)) (List.map_filter tk_cb ts))) + 2 \<le> n"
  shows "scheduler_start ids s = Inr s \<and>
     (\<exists>s' w' tc'. caller_stop n u js jf stack alloc (\<lambda>_. False) body this me cur (fold (\<lambda>t s. snd (schedule t s)) ts s) w tc =
         Inr (Some (round_robin body n (map (\<lambda>f. (f, 0)) (List.map_filter tk_cb ts)), [], s', w', tc')) \<and>
       m_tasks s' = [] \<and> t_exec tc' = Some gp \<and> t_fiber tc' = Some gp \<and> dom (fibers w') \<subseteq> {gp, rp} \<and>
       map_option m_state (fibers w' rp) = Some TERMINATED \<and>
       scheduler_stop u this cur s' w' tc' = Inr (True, 0, s', w', tc') \<and> scheduler_delete this cur s' = Inr None \<and>
       (\<exists>w''. fiber_delete rp w' tc' = Inr (w'', tc') \<and> dom (fibers w'') \<subseteq> {gp}))"
proof -
  note c = caller_new [OF assms(1)]
  have start: "scheduler_start ids s = Inr s" by (simp add: scheduler_start_def c(1))
  obtain s' w' tc' fr where run: "caller_stop n u js jf stack alloc (\<lambda>_. False) body this me cur (fold (\<lambda>t s. snd (schedule t s)) ts s) w tc =
         Inr (Some (queue_order body n ts, [], s', w', tc'))"
    and s': "m_tasks s' = []" "m_stopping s'" "m_activeThreadCount s' = 0"
    and t: "t_exec tc' = Some gp" "t_fiber tc' = Some gp" "dom (fibers w') \<subseteq> {gp, rp}"
    and fr: "fibers w' rp = Some fr" "m_state fr = TERMINATED" "m_stack fr \<noteq> 0"
    using caller_stop_runs [OF assms] by blast
  have "scheduler_stop u this cur s' w' tc' = Inr (True, 0, s', w', tc')"
    by (simp add: scheduler_stop_def scheduler_stopping_def s')
  moreover have "scheduler_delete this cur s' = Inr None" by (simp add: scheduler_delete_def s'(2) c(2))
  moreover have "\<exists>w''. fiber_delete rp w' tc' = Inr (w'', tc') \<and> dom (fibers w'') \<subseteq> {gp}"
    using t(3) fr by (auto simp: fiber_delete_task)
  ultimately show ?thesis using start run s' t fr by (auto simp: queue_order_def)
qed

theorem use_caller_runs_on_stop_witness:
  "\<exists>s cur w tc s' w' tc'. scheduler_new no_fail 0 True 4096 0 1 1 True ''scheduler'' 7 5 None fiber_world_new thread_ctx_new = Inr (s, cur, w, tc) \<and>
     caller_stop 12 no_fail 0 True 4096 next_address (\<lambda>_. False) (test_fibers 5) 7 5 cur (fold (\<lambda>t s. snd (schedule t s)) demo_queue s) w tc =
       Inr (Some (demo_order, [], s', w', tc'))"
proof -
  have "\<exists>s cur w tc. scheduler_new no_fail 0 True 4096 0 1 1 True ''scheduler'' 7 5 None
      (fiber_world_new :: demo_fiber sched_fn fiber_world) thread_ctx_new = Inr (s, cur, w, tc)"
    by (simp add: scheduler_new_def Fiber_GetThis_def fiber_new_main_def fiber_new_def thread_ctx_new_def fiber_world_new_def
        Fiber_SetThis_def Let_def no_fail_def cong del: obind_cong)
  then obtain s cur w tc where new: "scheduler_new no_fail 0 True 4096 0 1 1 True ''scheduler'' 7 5 None
      (fiber_world_new :: demo_fiber sched_fn fiber_world) thread_ctx_new = Inr (s, cur, w, tc)" by blast
  have n: "sum_list (map demo_bound (map (\<lambda>f. (f, 0)) (List.map_filter tk_cb demo_queue))) + 2 \<le> 12"
    by (simp add: demo_queue_fns demo_bound_def)
  have p: "(0::nat) \<noteq> 1" "(4096 :: 64 word) \<noteq> 0" "\<not> uc_swap_fails no_fail" by (simp_all add: no_fail_def)
  obtain s' w' tc' where "caller_stop 12 no_fail 0 True 4096 next_address (\<lambda>_. False) (test_fibers 5) 7 5 cur
      (fold (\<lambda>t s. snd (schedule t s)) demo_queue s) w tc =
    Inr (Some (round_robin (test_fibers 5) 12 (map (\<lambda>f. (f, 0)) (List.map_filter tk_cb demo_queue)), [], s', w', tc'))"
    using use_caller_runs_on_stop [where ids = "\<lambda>i. i", OF new p next_address_fresh demo_queue_ok test_fibers_ok
        test_fibers_bound n] by blast
  with new show ?thesis unfolding demo_queue_fns demo_round_robin by blast
qed

end
