(* ===== verification/IO_Manager.thy ===== *)
theory IO_Manager
  imports Scheduler Timer_Manager Fd_Manager
begin

text \<open>
  IOManager.h and IOManager.cpp: the event contexts of the file descriptors, the operations that
  register, remove, cancel and trigger events, \<open>tickle\<close>, \<open>stopping\<close> and one turn of
  the idle loop. The epoll instance is kernel code: what \<open>epoll_ctl\<close> answers is a parameter
  (\<open>'k epoll\<close>, a function of a kernel state \<open>'k\<close>), what \<open>epoll_wait\<close> reports
  is an argument of the turn. Schedulers are objects in a store, because an event context keeps a
  pointer to the scheduler of the thread that registered it; all but \<open>im_this\<close> are plain
  schedulers, whose \<open>tickle\<close> does nothing.
\<close>

section \<open>Events and the epoll interface\<close>

type_synonym event_bits = "32 word"

definition EV_NONE :: event_bits where "EV_NONE = 0"
definition READ :: event_bits where "READ = 1"
definition WRITE :: event_bits where "WRITE = 4"
definition EPOLLIN :: event_bits where "EPOLLIN = 1"
definition EPOLLOUT :: event_bits where "EPOLLOUT = 4"
definition EPOLLERR :: event_bits where "EPOLLERR = 8"
definition EPOLLHUP :: event_bits where "EPOLLHUP = 16"
definition EPOLLET :: event_bits where "EPOLLET = 0x80000000"

datatype epoll_op = EPOLL_CTL_ADD | EPOLL_CTL_DEL | EPOLL_CTL_MOD

record 'k epoll =
  ep_ctl :: "'k \<Rightarrow> epoll_op \<Rightarrow> int \<Rightarrow> event_bits \<Rightarrow> int \<times> 'k"
  ep_interest :: "'k \<Rightarrow> int \<Rightarrow> event_bits option"

text \<open>
  The documented behaviour of \<open>epoll_ctl\<close> on the interest list: a call that returns 0 sets or
  removes the entry of its descriptor, one that fails changes nothing; adding needs a descriptor
  that is not in the list, the others one that is.
\<close>

definition epoll_law :: "'k epoll \<Rightarrow> bool" where
  "epoll_law ep \<longleftrightarrow> (\<forall>k op fd ev.
     (fst (ep_ctl ep k op fd ev) \<noteq> 0 \<longrightarrow> ep_interest ep (snd (ep_ctl ep k op fd ev)) = ep_interest ep k) \<and>
     (fst (ep_ctl ep k op fd ev) = 0 \<longrightarrow>
        ep_interest ep (snd (ep_ctl ep k op fd ev)) =
          (ep_interest ep k)(fd := if op = EPOLL_CTL_DEL then None else Some ev) \<and>
        (op = EPOLL_CTL_ADD \<longleftrightarrow> ep_interest ep k fd = None)))"

section \<open>State\<close>

record 'u event_context =
  ec_scheduler :: "nat option"
  ec_fiber :: "nat option"
  ec_cb :: "'u sched_fn option"

record 'u fd_context =
  fc_read :: "'u event_context"
  fc_write :: "'u event_context"
  fc_fd :: int
  fc_events :: event_bits

record ('u, 'k) io_manager =
  im_this :: nat
  m_epfd :: int
  m_tickleFds :: "int \<times> int"
  m_pendingEventCount :: "64 word"
  m_fdContexts :: "'u fd_context list"
  im_timers :: "'u sched_fn timer_manager"
  im_schedulers :: "nat \<rightharpoonup> 'u scheduler"
  im_kernel :: 'k
  im_pipe_room :: nat
  im_pipe_size :: nat

definition event_context_new :: "'u event_context" where
  "event_context_new = \<lparr>ec_scheduler = None, ec_fiber = None, ec_cb = None\<rparr>"

definition fd_context_new :: "nat \<Rightarrow> 'u fd_context" where
  "fd_context_new i =
     \<lparr>fc_read = event_context_new, fc_write = event_context_new, fc_fd = int i, fc_events = EV_NONE\<rparr>"

text \<open>\<open>contextResize\<close>: the vector is cut or extended to the size, new slots get a context.\<close>

definition context_resize :: "nat \<Rightarrow> ('u, 'k) io_manager \<Rightarrow> ('u, 'k) io_manager" where
  "context_resize n io =
     io\<lparr>m_fdContexts := take n (m_fdContexts io) @ map fd_context_new [length (m_fdContexts io)..<n]\<rparr>"

section \<open>Scheduling and waking up\<close>

definition own_scheduler :: "('u, 'k) io_manager \<Rightarrow> 'u scheduler outcome" where
  "own_scheduler io = deref (im_schedulers io) (im_this io)"

text \<open>
  \<open>IOManager::tickle\<close>: one byte into the pipe if some thread is idle. The write end is a
  blocking descriptor, so the write of a byte into a full pipe does not return.
\<close>

definition io_tickle :: "('u, 'k) io_manager \<Rightarrow> ('u, 'k) io_manager outcome" where
  "io_tickle io =
     obind (own_scheduler io) (\<lambda>s.
       if \<not> hasIdleThreads s then Inr io
       else if im_pipe_room io = 0 then Inl Would_Block
       else Inr (io\<lparr>im_pipe_room := im_pipe_room io - 1\<rparr>))"

text \<open>\<open>p->schedule(task)\<close> for a scheduler pointer; \<open>tickle\<close> is virtual.\<close>

definition post :: "nat option \<Rightarrow> 'u sched_task \<Rightarrow> ('u, 'k) io_manager \<Rightarrow> ('u, 'k) io_manager outcome" where
  "post p task io =
     (case p of None \<Rightarrow> Inl Null_Deref
      | Some i \<Rightarrow>
          obind (deref (im_schedulers io) i) (\<lambda>s.
            let r = schedule task s;
                io1 = io\<lparr>im_schedulers := (im_schedulers io)(i \<mapsto> snd r)\<rparr>
            in if fst r then (if i = im_this io then io_tickle io1 else Inr io1) else Inr io1))"

text \<open>\<open>onTimerInsertedAtFront\<close>.\<close>

definition on_timer_inserted_at_front :: "('u, 'k) io_manager \<Rightarrow> ('u, 'k) io_manager outcome" where
  "on_timer_inserted_at_front io = io_tickle io"

section \<open>Event contexts\<close>

text \<open>\<open>getEventContext\<close>: which of the two contexts the event selects.\<close>

datatype event_slot = Read_Slot | Write_Slot

definition get_event_context :: "event_bits \<Rightarrow> event_slot outcome" where
  "get_event_context event =
     (if event = READ then Inr Read_Slot
      else if event = WRITE then Inr Write_Slot
      else Inl (Assert_Fail ''getContext''))"

fun slot_ctx :: "event_slot \<Rightarrow> 'u fd_context \<Rightarrow> 'u event_context" where
  "slot_ctx Read_Slot c = fc_read c"
| "slot_ctx Write_Slot c = fc_write c"

fun set_slot_ctx :: "event_slot \<Rightarrow> 'u event_context \<Rightarrow> 'u fd_context \<Rightarrow> 'u fd_context" where
  "set_slot_ctx Read_Slot x c = c\<lparr>fc_read := x\<rparr>"
| "set_slot_ctx Write_Slot x c = c\<lparr>fc_write := x\<rparr>"

definition reset_event_context :: "event_slot \<Rightarrow> 'u fd_context \<Rightarrow> 'u fd_context" where
  "reset_event_context sl c =
     set_slot_ctx sl ((slot_ctx sl c)\<lparr>ec_scheduler := None, ec_fiber := None, ec_cb := None\<rparr>) c"

text \<open>\<open>triggerEvent\<close> on the context in slot \<open>i\<close> of the table.\<close>

definition trigger_event :: "event_bits \<Rightarrow> nat \<Rightarrow> ('u, 'k) io_manager \<Rightarrow> ('u, 'k) io_manager outcome" where
  "trigger_event event i io =
     (let c = m_fdContexts io ! i
      in obind (MYASSERT (fc_events c AND event \<noteq> 0) ''events & event'') (\<lambda>_.
           let c1 = c\<lparr>fc_events := fc_events c AND NOT event\<rparr>
           in obind (get_event_context event) (\<lambda>sl.
                let ctx = slot_ctx sl c1;
                    task = (case ec_cb ctx of
                              Some cb \<Rightarrow> task_of_cb (Some cb) None
                            | None \<Rightarrow> task_of_fiber (ec_fiber ctx) None)
                in obind (post (ec_scheduler ctx) task io) (\<lambda>io1.
                     Inr (io1\<lparr>m_fdContexts := (m_fdContexts io1)[i := reset_event_context sl c1]\<rparr>)))))"

section \<open>The public operations\<close>

definition ctl :: "'k epoll \<Rightarrow> epoll_op \<Rightarrow> int \<Rightarrow> event_bits \<Rightarrow> ('u, 'k) io_manager \<Rightarrow> int \<times> ('u, 'k) io_manager" where
  "ctl ep op fd ev io =
     (let r = ep_ctl ep (im_kernel io) op fd ev in (fst r, io\<lparr>im_kernel := snd r\<rparr>))"

text \<open>
  \<open>addEvent(fd, event, cb)\<close>. \<open>cur\<close> is \<open>Scheduler::GetThis()\<close>, \<open>this_fiber\<close>
  what \<open>Fiber::GetThis()\<close> returns and \<open>fiber_st\<close> its state. The index of the context
  found is the descriptor.
\<close>

definition add_event_ctx :: "int \<Rightarrow> ('u, 'k) io_manager \<Rightarrow> ('u fd_context \<times> ('u, 'k) io_manager) outcome" where
  "add_event_ctx fd io =
     (if int (length (m_fdContexts io)) > fd then
        obind (vec_get (m_fdContexts io) fd) (\<lambda>c. Inr (c, io))
      else if fd + fd \<ge> 2 ^ 31 then Inl Signed_Overflow
      else
        (let io1 = context_resize (of_bool (fd + fd > 1)) io
         in obind (vec_get (m_fdContexts io1) fd) (\<lambda>c. Inr (c, io1))))"

definition add_event ::
  "'k epoll \<Rightarrow> nat option \<Rightarrow> nat \<Rightarrow> fiber_state \<Rightarrow> int \<Rightarrow> event_bits \<Rightarrow> 'u sched_fn option
   \<Rightarrow> ('u, 'k) io_manager \<Rightarrow> (int \<times> ('u, 'k) io_manager) outcome" where
  "add_event ep cur this_fiber fiber_st fd event cb io0 =
     obind (add_event_ctx fd io0) (\<lambda>(c, io).
     obind (MYASSERT (\<not> (fc_events c AND event \<noteq> 0)) ''can not add same event in the same fd'') (\<lambda>_.
       let op = (if fc_events c \<noteq> 0 then EPOLL_CTL_MOD else EPOLL_CTL_ADD);
           (rt, io1) = ctl ep op fd (EPOLLET OR fc_events c OR event) io
       in if rt \<noteq> 0 then Inr (-1, io1)
          else
            let io2 = io1\<lparr>m_pendingEventCount := m_pendingEventCount io1 + 1\<rparr>;
                c1 = c\<lparr>fc_events := fc_events c OR event\<rparr>
            in obind (get_event_context event) (\<lambda>sl.
                 let ctx = slot_ctx sl c1
                 in obind (MYASSERT (ec_scheduler ctx = None \<and> ec_fiber ctx = None \<and> ec_cb ctx = None)
                             ''!event_ctx.scheduler && !event_ctx.fiber && !event_ctx.cb'') (\<lambda>_.
                    let ctx1 = ctx\<lparr>ec_scheduler := cur\<rparr>
                    in obind (case cb of
                                Some f \<Rightarrow> Inr (ctx1\<lparr>ec_cb := Some f\<rparr>)
                              | None \<Rightarrow>
                                  obind (MYASSERT (fiber_st = RUNNING) ''getState() == Fiber::RUNNING'') (\<lambda>_.
                                    Inr (ctx1\<lparr>ec_fiber := Some this_fiber\<rparr>))) (\<lambda>ctx2.
                       Inr (0, io2\<lparr>m_fdContexts :=
                              (m_fdContexts io2)[nat fd := set_slot_ctx sl ctx2 c1]\<rparr>))))))"

text \<open>
  The comparison of the size with \<open>fd\<close> is unsigned: a negative descriptor is beyond the end.
\<close>

definition in_table :: "int \<Rightarrow> ('u, 'k) io_manager \<Rightarrow> bool" where
  "in_table fd io \<longleftrightarrow> 0 \<le> fd \<and> nat fd < length (m_fdContexts io)"

definition del_event ::
  "'k epoll \<Rightarrow> int \<Rightarrow> event_bits \<Rightarrow> ('u, 'k) io_manager \<Rightarrow> (bool \<times> ('u, 'k) io_manager) outcome" where
  "del_event ep fd event io =
     (if \<not> in_table fd io then Inr (False, io)
      else
        let c = m_fdContexts io ! nat fd
        in if fc_events c AND event = 0 then Inr (False, io)
           else
             let new_events = fc_events c AND NOT event;
                 op = (if new_events \<noteq> 0 then EPOLL_CTL_MOD else EPOLL_CTL_DEL);
                 (rt, io1) = ctl ep op fd (EPOLLET OR new_events) io
             in if rt \<noteq> 0 then Inr (False, io1)
                else
                  let io2 = io1\<lparr>m_pendingEventCount := m_pendingEventCount io1 - 1\<rparr>;
                      c1 = c\<lparr>fc_events := new_events\<rparr>
                  in obind (get_event_context event) (\<lambda>sl.
                       Inr (True, io2\<lparr>m_fdContexts :=
                              (m_fdContexts io2)[nat fd := reset_event_context sl c1]\<rparr>)))"

definition cancel_event ::
  "'k epoll \<Rightarrow> int \<Rightarrow> event_bits \<Rightarrow> ('u, 'k) io_manager \<Rightarrow> (bool \<times> ('u, 'k) io_manager) outcome" where
  "cancel_event ep fd event io =
     (if \<not> in_table fd io then Inr (False, io)
      else
        let c = m_fdContexts io ! nat fd
        in if fc_events c AND event = 0 then Inr (False, io)
           else
             let new_events = fc_events c AND NOT event;
                 op = (if new_events \<noteq> 0 then EPOLL_CTL_MOD else EPOLL_CTL_DEL);
                 (rt, io1) = ctl ep op fd (EPOLLET OR new_events) io
             in if rt \<noteq> 0 then Inr (False, io1)
                else
                  obind (trigger_event event (nat fd) io1) (\<lambda>io2.
                    Inr (True, io2\<lparr>m_pendingEventCount := m_pendingEventCount io2 - 1\<rparr>)))"

text \<open>The two conditional triggers that \<open>cancalAll\<close> and the idle loop share.\<close>

definition trigger_if :: "bool \<Rightarrow> event_bits \<Rightarrow> nat \<Rightarrow> ('u, 'k) io_manager \<Rightarrow> ('u, 'k) io_manager outcome" where
  "trigger_if b event i io =
     (if b then
        obind (trigger_event event i io) (\<lambda>io1.
          Inr (io1\<lparr>m_pendingEventCount := m_pendingEventCount io1 - 1\<rparr>))
      else Inr io)"

definition cancal_all ::
  "'k epoll \<Rightarrow> int \<Rightarrow> ('u, 'k) io_manager \<Rightarrow> (bool \<times> ('u, 'k) io_manager) outcome" where
  "cancal_all ep fd io =
     (if \<not> in_table fd io then Inr (False, io)
      else
        let c = m_fdContexts io ! nat fd
        in if fc_events c = 0 then Inr (False, io)
           else
             let (rt, io1) = ctl ep EPOLL_CTL_DEL fd 0 io
             in if rt \<noteq> 0 then Inr (False, io1)
                else
                  obind (trigger_if (fc_events (m_fdContexts io1 ! nat fd) AND READ \<noteq> 0) READ (nat fd) io1) (\<lambda>io2.
                  obind (trigger_if (fc_events (m_fdContexts io2 ! nat fd) AND WRITE \<noteq> 0) WRITE (nat fd) io2) (\<lambda>io3.
                  obind (MYASSERT (fc_events (m_fdContexts io3 ! nat fd) = 0) ''fd_ctx->events == 0'') (\<lambda>_.
                    Inr (True, io3)))))"

section \<open>Construction and destruction\<close>

text \<open>
  \<open>IOManager(threads, use_caller, name)\<close> after the \<open>Scheduler\<close> part \<open>s\<close> has been
  constructed at \<open>this\<close>. The results of the system calls are arguments: of
  \<open>epoll_create\<close>, of \<open>pipe\<close> with its two descriptors and its capacity, and of
  \<open>fcntl\<close>.
\<close>

definition io_manager_new ::
  "'k epoll \<Rightarrow> 'k \<Rightarrow> nat \<Rightarrow> 'u scheduler \<Rightarrow> (nat \<rightharpoonup> 'u scheduler) \<Rightarrow> int \<Rightarrow> int \<Rightarrow> int \<times> int \<Rightarrow> nat \<Rightarrow> int
   \<Rightarrow> millis \<Rightarrow> (nat \<Rightarrow> nat) \<Rightarrow> ('u, 'k) io_manager outcome" where
  "io_manager_new ep k this s others epfd pipe_rt fds room fcntl_rt now new_id =
     obind (MYASSERT (epfd > 0) ''m_epfd > 0'') (\<lambda>_.
     obind (MYASSERT (pipe_rt = 0) ''!rt'') (\<lambda>_.
     obind (MYASSERT (fcntl_rt = 0) ''!rt'') (\<lambda>_.
       let io0 = \<lparr>im_this = this, m_epfd = epfd, m_tickleFds = fds, m_pendingEventCount = 0,
                  m_fdContexts = [], im_timers = timer_manager_new now,
                  im_schedulers = others(this \<mapsto> s), im_kernel = k, im_pipe_room = room,
                  im_pipe_size = room\<rparr>;
           (rt, io1) = ctl ep EPOLL_CTL_ADD (fst fds) (EPOLLIN OR EPOLLET) io0
       in obind (MYASSERT (rt = 0) ''!rt'') (\<lambda>_.
          let io2 = context_resize 32 io1
          in obind (scheduler_start new_id s) (\<lambda>s1.
               Inr (io2\<lparr>im_schedulers := (im_schedulers io2)(this \<mapsto> s1)\<rparr>))))))"

text \<open>\<open>~IOManager\<close> after \<open>stop\<close> has returned: every context is deleted.\<close>

definition io_manager_delete :: "('u, 'k) io_manager \<Rightarrow> ('u, 'k) io_manager" where
  "io_manager_delete io = io\<lparr>m_fdContexts := []\<rparr>"

section \<open>Stopping and the idle loop\<close>

definition io_stopping :: "millis \<Rightarrow> ('u, 'k) io_manager \<Rightarrow> (bool \<times> millis \<times> ('u, 'k) io_manager) outcome" where
  "io_stopping now io =
     (let (timeout, tm) = get_next_timer now (im_timers io);
          io1 = io\<lparr>im_timers := tm\<rparr>
      in obind (own_scheduler io1) (\<lambda>s.
           Inr (timeout = ms_none \<and> m_pendingEventCount io1 = 0 \<and> scheduler_stopping s, timeout, io1)))"

definition MAX_TIMEOUT :: millis where "MAX_TIMEOUT = 5000"
definition MAX_EVENTS :: nat where "MAX_EVENTS = 256"

definition clamp_timeout :: "millis \<Rightarrow> millis" where
  "clamp_timeout next_timeout =
     (if next_timeout \<noteq> ms_none then min next_timeout MAX_TIMEOUT else MAX_TIMEOUT)"

text \<open>
  The loop around \<open>epoll_wait\<close>. An entry of the argument is what one call returns: its result
  and whether \<open>errno\<close> is \<open>EINTR\<close>. The result lists the timeouts passed and gives the
  value of the outer variable \<open>rt\<close>, which the loop's own \<open>int rt\<close> hides. \<open>None\<close>
  means that the calls listed were all interrupted.
\<close>

fun idle_wait :: "int \<Rightarrow> millis \<Rightarrow> (int \<times> bool) list \<Rightarrow> (int list \<times> int) option" where
  "idle_wait rt next_timeout [] = None"
| "idle_wait rt next_timeout ((inner_rt, eintr) # ws) =
     (let t = clamp_timeout next_timeout;
          passed = t div 1000
      in if inner_rt < 0 \<and> eintr then map_option (\<lambda>(ps, r). (passed # ps, r)) (idle_wait rt t ws)
         else Some ([passed], rt))"

text \<open>What a reported event points at: the read end of the pipe or the context in a slot.\<close>

datatype event_data = Tickle_Fd | Fd_Ctx nat

definition real_events_of :: "event_bits \<Rightarrow> event_bits" where
  "real_events_of ev =
     ((if ev AND EPOLLIN \<noteq> 0 then READ else 0) OR (if ev AND EPOLLOUT \<noteq> 0 then WRITE else 0))"

text \<open>The body of the loop over the reported events.\<close>

fun handle_event ::
  "'k epoll \<Rightarrow> event_data \<times> event_bits \<Rightarrow> ('u, 'k) io_manager \<Rightarrow> ('u, 'k) io_manager outcome" where
  "handle_event ep (Tickle_Fd, ev0) io = Inr (io\<lparr>im_pipe_room := im_pipe_size io\<rparr>)"
| "handle_event ep (Fd_Ctx i, ev0) io =
     obind (vec_get (m_fdContexts io) (int i)) (\<lambda>c.
       let ev = (if ev0 AND (EPOLLERR OR EPOLLHUP) \<noteq> 0 then ev0 OR ((EPOLLIN OR EPOLLOUT) AND fc_events c)
                 else ev0);
           real_events = real_events_of ev
       in if fc_events c AND real_events = 0 then Inr io
          else
            let left_events = fc_events c AND NOT real_events;
                op = (if left_events \<noteq> 0 then EPOLL_CTL_MOD else EPOLL_CTL_DEL);
                (rt, io1) = ctl ep op (fc_fd c) (EPOLLET OR left_events) io
            in if rt \<noteq> 0 then Inl (Assert_Fail ''epoll_ctl faild'')
               else
                 obind (trigger_if (real_events AND READ \<noteq> 0) READ i io1) (\<lambda>io2.
                   trigger_if (real_events AND WRITE \<noteq> 0) WRITE i io2))"

fun handle_events ::
  "'k epoll \<Rightarrow> (event_data \<times> event_bits) list \<Rightarrow> ('u, 'k) io_manager \<Rightarrow> ('u, 'k) io_manager outcome" where
  "handle_events ep [] io = Inr io"
| "handle_events ep (e # es) io = obind (handle_event ep e io) (handle_events ep es)"

text \<open>\<open>schedule(cb)\<close> for the collected callbacks.\<close>

fun post_callbacks :: "'u sched_fn option list \<Rightarrow> ('u, 'k) io_manager \<Rightarrow> ('u, 'k) io_manager outcome" where
  "post_callbacks [] io = Inr io"
| "post_callbacks (cb # cbs) io =
     obind (post (Some (im_this io)) (task_of_cb cb None) io) (post_callbacks cbs)"

text \<open>
  One turn of \<open>idle\<close>. \<open>now1\<close> and \<open>now2\<close> are the clock readings, \<open>a\<close> an
  address for the search probe, \<open>waits\<close> the results of \<open>epoll_wait\<close>, \<open>evs\<close> the
  contents of the event array. The turn ends the loop, yields, or never leaves the wait loop.
\<close>

datatype idle_result = Idle_Ends | Idle_Yields "int list" | Idle_Waits

definition io_idle_turn ::
  "'k epoll \<Rightarrow> millis \<Rightarrow> millis \<Rightarrow> nat \<Rightarrow> (int \<times> bool) list \<Rightarrow> (event_data \<times> event_bits) list
   \<Rightarrow> ('u, 'k) io_manager \<Rightarrow> (idle_result \<times> ('u, 'k) io_manager) outcome" where
  "io_idle_turn ep now1 now2 a waits evs io =
     obind (io_stopping now1 io) (\<lambda>(stop, next_timeout, io1).
       if stop then Inr (Idle_Ends, io1)
       else
         (case idle_wait 0 next_timeout waits of
            None \<Rightarrow> Inr (Idle_Waits, io1)
          | Some (passed, rt) \<Rightarrow>
              obind (list_expired_cb now2 a [] (im_timers io1)) (\<lambda>(cbs, tm).
              obind (post_callbacks cbs (io1\<lparr>im_timers := tm\<rparr>)) (\<lambda>io2.
              obind (handle_events ep (take (nat rt) evs) io2) (\<lambda>io3.
                Inr (Idle_Yields passed, io3))))))"


section \<open>Well-formed managers\<close>

text \<open>
  An event bit is set exactly when its context is filled, with a live scheduler and either a fiber or
  a callback.
\<close>

definition filled :: "(nat \<Rightarrow> bool) \<Rightarrow> 'u event_context \<Rightarrow> bool" where
  "filled S x \<longleftrightarrow> (\<exists>p. ec_scheduler x = Some p \<and> S p) \<and> (ec_fiber x = None \<longleftrightarrow> ec_cb x \<noteq> None)"

definition slot_fits :: "(nat \<Rightarrow> bool) \<Rightarrow> bool \<Rightarrow> 'u event_context \<Rightarrow> bool" where
  "slot_fits S b x \<longleftrightarrow> (b \<longrightarrow> filled S x) \<and> (\<not> b \<longrightarrow> x = event_context_new)"

definition ctx_ok :: "(nat \<Rightarrow> bool) \<Rightarrow> 'u fd_context \<Rightarrow> bool" where
  "ctx_ok S c \<longleftrightarrow> fc_events c \<in> {0, READ, WRITE, READ OR WRITE} \<and>
     slot_fits S (fc_events c AND READ \<noteq> 0) (fc_read c) \<and> slot_fits S (fc_events c AND WRITE \<noteq> 0) (fc_write c)"

definition ev_weight :: "event_bits \<Rightarrow> nat" where
  "ev_weight e = of_bool (e AND READ \<noteq> 0) + of_bool (e AND WRITE \<noteq> 0)"

definition interest_of :: "event_bits \<Rightarrow> event_bits option" where
  "interest_of e = (if e = 0 then None else Some (EPOLLET OR e))"

definition alive :: "('u, 'k) io_manager \<Rightarrow> nat \<Rightarrow> bool" where
  "alive io p \<longleftrightarrow> im_schedulers io p \<noteq> None"

definition io_core :: "('u, 'k) io_manager \<Rightarrow> bool" where
  "io_core io \<longleftrightarrow> length (m_fdContexts io) = 32 \<and> alive io (im_this io) \<and> tm_wf (im_timers io) \<and>
     (\<forall>i<length (m_fdContexts io). ctx_ok (alive io) (m_fdContexts io ! i) \<and> fc_fd (m_fdContexts io ! i) = int i) \<and>
     m_pendingEventCount io = of_nat (sum_list (map (ev_weight \<circ> fc_events) (m_fdContexts io)))"

text \<open>The kernel's interest list is what the contexts say, for every descriptor but the pipe's.\<close>

definition io_mirror :: "'k epoll \<Rightarrow> ('u, 'k) io_manager \<Rightarrow> bool" where
  "io_mirror ep io \<longleftrightarrow> (\<forall>i<length (m_fdContexts io). int i \<noteq> fst (m_tickleFds io) \<longrightarrow>
        ep_interest ep (im_kernel io) (int i) = interest_of (fc_events (m_fdContexts io ! i)))"

definition io_wf :: "'k epoll \<Rightarrow> ('u, 'k) io_manager \<Rightarrow> bool" where
  "io_wf ep io \<longleftrightarrow> io_core io \<and> io_mirror ep io"

text \<open>Everything but the task queues, the pipe and the timers.\<close>

definition io_same :: "('u, 'k) io_manager \<Rightarrow> ('u, 'k) io_manager \<Rightarrow> bool" where
  "io_same io io' \<longleftrightarrow> im_this io' = im_this io \<and> m_tickleFds io' = m_tickleFds io \<and>
     m_pendingEventCount io' = m_pendingEventCount io \<and> m_fdContexts io' = m_fdContexts io \<and>
     im_kernel io' = im_kernel io \<and> alive io' = alive io"

lemma io_same_refl [simp, intro]: "io_same io io"
  by (simp add: io_same_def)

lemma io_same_trans: "io_same a b \<Longrightarrow> io_same b c \<Longrightarrow> io_same a c"
  by (simp add: io_same_def)

lemma io_wf_timers: "io_wf ep io \<Longrightarrow> tm_wf (im_timers io)"
  by (simp add: io_wf_def io_core_def)

lemma io_same_core: "io_same io io' \<Longrightarrow> tm_wf (im_timers io') \<Longrightarrow> io_core io \<Longrightarrow> io_core io'"
  by (simp add: io_same_def io_core_def)

lemma io_same_wf: "io_same io io' \<Longrightarrow> tm_wf (im_timers io') \<Longrightarrow> io_wf ep io \<Longrightarrow> io_wf ep io'"
  using io_same_core [of io io'] by (simp add: io_same_def io_wf_def io_mirror_def)

lemma io_tickle_same: "io_tickle io = Inr io' \<Longrightarrow> io_same io io' \<and> im_timers io' = im_timers io"
  by (auto simp: io_tickle_def own_scheduler_def outcome_simps io_same_def alive_def fun_eq_iff split: if_splits)

lemma post_Inr:
  assumes "post p task io = Inr io'"
  obtains i s where "p = Some i" and "im_schedulers io i = Some s"
    and "im_schedulers io' = (im_schedulers io)(i \<mapsto> snd (schedule task s))"
    and "io_same io io'" and "im_timers io' = im_timers io"
proof -
  from assms obtain i s where p: "p = Some i" "im_schedulers io i = Some s"
    by (cases p) (auto simp: post_def outcome_simps)
  let ?io = "io\<lparr>im_schedulers := (im_schedulers io)(i \<mapsto> snd (schedule task s))\<rparr>"
  have same: "io_same io ?io" using p by (auto simp: io_same_def alive_def fun_eq_iff)
  from assms p have "io' = ?io \<or> io_tickle ?io = Inr io'"
    by (auto simp: post_def Let_def split: if_splits)
  moreover have "im_schedulers io' = im_schedulers ?io" if "io_tickle ?io = Inr io'"
    using that by (auto simp: io_tickle_def own_scheduler_def outcome_simps split: if_splits)
  ultimately show thesis
    using that [OF p] same io_tickle_same [of ?io io'] io_same_trans [OF same] by auto
qed

lemma post_wf: "post p task io = Inr io' \<Longrightarrow> io_wf ep io \<Longrightarrow> io_wf ep io'"
  by (erule post_Inr, erule io_same_wf) (auto dest: io_wf_timers)

lemma post_core: "post p task io = Inr io' \<Longrightarrow> io_core io \<Longrightarrow> io_core io'"
  by (erule post_Inr, erule io_same_core) (auto simp: io_core_def)

lemma sum_list_weight_update:
  "i < length cs \<Longrightarrow> sum_list (map f (cs[i := c])) + f (cs ! i) = sum_list (map f cs) + (f c :: nat)"
proof (induction cs arbitrary: i)
  case (Cons x cs)
  show ?case
  proof (cases i)
    case (Suc j)
    with Cons.IH [of j] Cons.prems show ?thesis by simp
  qed simp
qed simp

lemma io_core_update:
  fixes io :: "('u, 'k) io_manager" and io' :: "('u, 'k) io_manager"
  assumes wf: "io_core io" and i: "i < length (m_fdContexts io)"
    and cs: "m_fdContexts io' = (m_fdContexts io)[i := c]"
    and c: "ctx_ok (alive io) c" "fc_fd c = int i"
    and same: "im_this io' = im_this io" "alive io' = alive io" "tm_wf (im_timers io')"
    and p: "m_pendingEventCount io' + of_nat (ev_weight (fc_events (m_fdContexts io ! i))) =
      m_pendingEventCount io + of_nat (ev_weight (fc_events c))"
  shows "io_core io'"
proof -
  let ?w = "ev_weight \<circ> fc_events"
  have "(of_nat (sum_list (map ?w (m_fdContexts io')) + ?w (m_fdContexts io ! i)) :: 64 word) =
      of_nat (sum_list (map ?w (m_fdContexts io)) + ?w c)"
    using sum_list_weight_update [OF i, of ?w c] by (simp only: cs)
  moreover have "m_pendingEventCount io = of_nat (sum_list (map ?w (m_fdContexts io)))"
    using wf by (simp add: io_core_def)
  ultimately have "m_pendingEventCount io' = of_nat (sum_list (map ?w (m_fdContexts io')))"
    using p by (simp add: comp_def) (metis add_right_cancel)
  moreover have "ctx_ok (alive io') (m_fdContexts io' ! j) \<and> fc_fd (m_fdContexts io' ! j) = int j"
    if "j < length (m_fdContexts io')" for j
    using that wf c same i by (cases "j = i") (auto simp: cs io_core_def)
  ultimately show ?thesis
    using wf same by (simp add: io_core_def cs)
qed

lemma io_mirror_update:
  assumes "io_mirror ep io" and "i < length (m_fdContexts io)" and "m_fdContexts io' = (m_fdContexts io)[i := c]"
    and "m_tickleFds io' = m_tickleFds io"
    and "ep_interest ep (im_kernel io') = (ep_interest ep (im_kernel io))(int i := interest_of (fc_events c))"
  shows "io_mirror ep io'"
proof -
  have "ep_interest ep (im_kernel io') (int j) = interest_of (fc_events (m_fdContexts io' ! j))"
    if "j < length (m_fdContexts io')" "int j \<noteq> fst (m_tickleFds io')" for j
    using that assms by (cases "j = i") (auto simp: io_mirror_def)
  then show ?thesis by (simp add: io_mirror_def)
qed

section \<open>One event more, one event less\<close>

lemmas event_defs = READ_def WRITE_def EV_NONE_def

lemma get_event_context_Inr_iff:
  "get_event_context event = Inr sl \<longleftrightarrow> event = READ \<and> sl = Read_Slot \<or> event = WRITE \<and> sl = Write_Slot"
  by (auto simp: get_event_context_def event_defs)

definition event_cleared :: "event_slot \<Rightarrow> event_bits \<Rightarrow> 'u fd_context \<Rightarrow> 'u fd_context" where
  "event_cleared sl event c = reset_event_context sl (c\<lparr>fc_events := fc_events c AND NOT event\<rparr>)"

definition event_set :: "event_slot \<Rightarrow> event_bits \<Rightarrow> 'u event_context \<Rightarrow> 'u fd_context \<Rightarrow> 'u fd_context" where
  "event_set sl event x c = set_slot_ctx sl x (c\<lparr>fc_events := fc_events c OR event\<rparr>)"

lemma reset_event_context_eq: "reset_event_context sl c = set_slot_ctx sl event_context_new c"
  by (cases sl) (simp_all add: reset_event_context_def event_context_new_def)

lemma slot_ctx_events [simp]: "slot_ctx sl (c\<lparr>fc_events := e\<rparr>) = slot_ctx sl c"
  by (cases sl) simp_all

lemma set_slot_simps [simp]:
  "fc_events (set_slot_ctx sl x c) = fc_events c" "fc_fd (set_slot_ctx sl x c) = fc_fd c"
  "slot_ctx sl (set_slot_ctx sl x c) = x"
  by (cases sl; simp)+

lemma event_cleared_simps [simp]:
  "fc_events (event_cleared sl event c) = fc_events c AND NOT event" "fc_fd (event_cleared sl event c) = fc_fd c"
  by (simp_all add: event_cleared_def reset_event_context_eq)

lemma event_set_simps [simp]:
  "fc_events (event_set sl event x c) = fc_events c OR event" "fc_fd (event_set sl event x c) = fc_fd c"
  by (simp_all add: event_set_def)

lemma weight_add:
  assumes "e \<in> {0, READ, WRITE, READ OR WRITE}" and "event = READ \<or> event = WRITE" and "e AND event = 0"
  shows "ev_weight (e OR event) = ev_weight e + 1"
  using assms by (elim insertE disjE emptyE) (simp_all add: ev_weight_def event_defs)

lemma weight_clear:
  assumes "e \<in> {0, READ, WRITE, READ OR WRITE}" and "event = READ \<or> event = WRITE" and "e AND event \<noteq> 0"
  shows "ev_weight (e AND NOT event) + 1 = ev_weight e"
  using assms by (elim insertE disjE emptyE) (simp_all add: ev_weight_def event_defs)

lemma ctx_ok_set:
  assumes "ctx_ok S c" and "get_event_context event = Inr sl" and "filled S x"
  shows "ctx_ok S (event_set sl event x c)"
proof -
  have "fc_events c \<in> {0, READ, WRITE, READ OR WRITE}" using assms(1) by (simp add: ctx_ok_def)
  then show ?thesis
    using assms unfolding get_event_context_Inr_iff
    by (elim insertE disjE conjE emptyE)
       (simp_all add: ctx_ok_def event_set_def event_defs slot_fits_def)
qed

lemma ctx_ok_clear:
  assumes "ctx_ok S c" and "get_event_context event = Inr sl"
  shows "ctx_ok S (event_cleared sl event c)"
proof -
  have "fc_events c \<in> {0, READ, WRITE, READ OR WRITE}" using assms(1) by (simp add: ctx_ok_def)
  then show ?thesis
    using assms unfolding get_event_context_Inr_iff
    by (elim insertE disjE conjE emptyE)
       (simp_all add: ctx_ok_def event_cleared_def reset_event_context_eq event_defs slot_fits_def)
qed

lemma ctx_ok_slot:
  "ctx_ok S c \<Longrightarrow> get_event_context event = Inr sl \<Longrightarrow> slot_fits S (fc_events c AND event \<noteq> 0) (slot_ctx sl c)"
  by (auto simp: ctx_ok_def get_event_context_Inr_iff)

lemma ctx_ok_events: "ctx_ok S c \<Longrightarrow> fc_events c \<in> {0, READ, WRITE, READ OR WRITE}"
  by (simp add: ctx_ok_def)

text \<open>Setting an event and clearing it again is nothing.\<close>

lemma event_set_cleared:
  assumes "ctx_ok S c" and "get_event_context event = Inr sl" and "fc_events c AND event = 0"
  shows "event_cleared sl event (event_set sl event x c) = c"
proof -
  have e: "fc_events c \<in> {0, READ, WRITE, READ OR WRITE}" using assms(1) by (simp add: ctx_ok_def)
  have "(fc_events c OR event) AND NOT event = fc_events c"
    using e assms(2,3) unfolding get_event_context_Inr_iff
    by (elim insertE disjE conjE emptyE) (simp_all add: event_defs)
  moreover have "slot_ctx sl c = event_context_new"
    using ctx_ok_slot [OF assms(1,2)] assms(3) by (simp add: slot_fits_def)
  ultimately show ?thesis
    by (cases c; cases sl) (simp_all add: event_cleared_def event_set_def reset_event_context_eq)
qed

text \<open>The task that triggering a context schedules.\<close>

definition event_task :: "'u event_context \<Rightarrow> 'u sched_task" where
  "event_task x = (case ec_cb x of
     Some cb \<Rightarrow> task_of_cb (Some cb) None
   | None \<Rightarrow> task_of_fiber (ec_fiber x) None)"

lemma filled_task: "filled S x \<Longrightarrow> \<not> task_empty (event_task x)"
  by (auto simp: filled_def event_task_def split: option.splits)

lemma trigger_event_eq:
  assumes "get_event_context event = Inr sl" and "fc_events (m_fdContexts io ! i) AND event \<noteq> 0"
  shows "trigger_event event i io =
     obind (post (ec_scheduler (slot_ctx sl (m_fdContexts io ! i))) (event_task (slot_ctx sl (m_fdContexts io ! i))) io) (\<lambda>io1.
       Inr (io1\<lparr>m_fdContexts := (m_fdContexts io1)[i := event_cleared sl event (m_fdContexts io ! i)]\<rparr>))"
  using assms by (simp add: trigger_event_def Let_def event_task_def event_cleared_def split: option.splits)

lemma trigger_event_Inr:
  assumes "trigger_event event i io = Inr io'"
  obtains sl io1 where "get_event_context event = Inr sl" and "fc_events (m_fdContexts io ! i) AND event \<noteq> 0"
    and "post (ec_scheduler (slot_ctx sl (m_fdContexts io ! i))) (event_task (slot_ctx sl (m_fdContexts io ! i))) io = Inr io1"
    and "io' = io1\<lparr>m_fdContexts := (m_fdContexts io)[i := event_cleared sl event (m_fdContexts io ! i)]\<rparr>"
proof -
  from assms have b: "fc_events (m_fdContexts io ! i) AND event \<noteq> 0"
    by (auto simp: trigger_event_def Let_def outcome_simps)
  from assms obtain sl where sl: "get_event_context event = Inr sl"
    by (auto simp: trigger_event_def Let_def outcome_simps)
  from assms obtain io1 where p: "post (ec_scheduler (slot_ctx sl (m_fdContexts io ! i)))
      (event_task (slot_ctx sl (m_fdContexts io ! i))) io = Inr io1"
    and io': "io' = io1\<lparr>m_fdContexts := (m_fdContexts io1)[i := event_cleared sl event (m_fdContexts io ! i)]\<rparr>"
    unfolding trigger_event_eq [OF sl b] by auto
  from p have "m_fdContexts io1 = m_fdContexts io"
    by (rule post_Inr) (simp add: io_same_def)
  with that [OF sl b p] io' show thesis by simp
qed

section \<open>What the operations do\<close>

text \<open>The context \<open>addEvent\<close> fills in.\<close>

definition event_context_of :: "nat option \<Rightarrow> nat \<Rightarrow> 'u sched_fn option \<Rightarrow> 'u event_context" where
  "event_context_of cur this_fiber cb =
     \<lparr>ec_scheduler = cur, ec_fiber = (if cb = None then Some this_fiber else None), ec_cb = cb\<rparr>"

lemma event_context_of_filled: "cur = Some p \<Longrightarrow> S p \<Longrightarrow> filled S (event_context_of cur q cb)"
  by (cases cb) (auto simp: filled_def event_context_of_def)

definition add_op :: "event_bits \<Rightarrow> epoll_op" where
  "add_op e = (if e \<noteq> 0 then EPOLL_CTL_MOD else EPOLL_CTL_ADD)"

definition del_op :: "event_bits \<Rightarrow> epoll_op" where
  "del_op e = (if e \<noteq> 0 then EPOLL_CTL_MOD else EPOLL_CTL_DEL)"

lemma in_table_vec: "in_table fd io \<Longrightarrow> vec_get (m_fdContexts io) fd = Inr (m_fdContexts io ! nat fd)"
  by (simp add: in_table_def)

lemma add_event_ctx_in: "in_table fd io \<Longrightarrow> add_event_ctx fd io = Inr (m_fdContexts io ! nat fd, io)"
proof -
  assume "in_table fd io"
  then have "fd < int (length (m_fdContexts io))" "vec_get (m_fdContexts io) fd = Inr (m_fdContexts io ! nat fd)"
    by (auto simp: in_table_def)
  then show ?thesis by (simp add: add_event_ctx_def)
qed

lemma add_event_ctx_out:
  assumes "length (m_fdContexts io) = 32" and "\<not> in_table fd io"
  shows "add_event_ctx fd io = Inl (if fd < 2 ^ 30 then Out_Of_Bounds else Signed_Overflow)"
  using assms by (auto simp: add_event_ctx_def in_table_def vec_get_out context_resize_def Let_def)

lemma add_event_ok:
  assumes "in_table fd io" and "c = m_fdContexts io ! nat fd" and "get_event_context event = Inr sl"
    and "fc_events c AND event = 0" and "slot_ctx sl c = event_context_new"
    and "fst (ep_ctl ep (im_kernel io) (add_op (fc_events c)) fd (EPOLLET OR fc_events c OR event)) = 0"
    and "cb \<noteq> None \<or> fiber_st = RUNNING"
  shows "add_event ep cur q fiber_st fd event cb io =
     Inr (0, io\<lparr>im_kernel := snd (ep_ctl ep (im_kernel io) (add_op (fc_events c)) fd (EPOLLET OR fc_events c OR event)),
       m_pendingEventCount := m_pendingEventCount io + 1,
       m_fdContexts := (m_fdContexts io)[nat fd := event_set sl event (event_context_of cur q cb) c]\<rparr>)"
  using assms
  by (cases cb)
     (simp_all add: add_event_def add_event_ctx_in ctl_def add_op_def [symmetric] Let_def event_context_new_def
        event_context_of_def event_set_def split_beta cong del: obind_cong)

lemma add_event_fails:
  assumes "in_table fd io" and "c = m_fdContexts io ! nat fd" and "fc_events c AND event = 0"
    and "fst (ep_ctl ep (im_kernel io) (add_op (fc_events c)) fd (EPOLLET OR fc_events c OR event)) \<noteq> 0"
  shows "add_event ep cur q fiber_st fd event cb io =
     Inr (-1, io\<lparr>im_kernel := snd (ep_ctl ep (im_kernel io) (add_op (fc_events c)) fd (EPOLLET OR fc_events c OR event))\<rparr>)"
  using assms
  by (simp add: add_event_def add_event_ctx_in ctl_def add_op_def [symmetric] Let_def split_beta cong del: obind_cong)

lemma add_event_twice:
  assumes "in_table fd io" and "fc_events (m_fdContexts io ! nat fd) AND event \<noteq> 0"
  shows "add_event ep cur q fiber_st fd event cb io = Inl (Assert_Fail ''can not add same event in the same fd'')"
  using assms by (simp add: add_event_def add_event_ctx_in cong del: obind_cong)

lemma del_event_ok:
  assumes "in_table fd io" and "c = m_fdContexts io ! nat fd" and "get_event_context event = Inr sl"
    and "fc_events c AND event \<noteq> 0"
    and "fst (ep_ctl ep (im_kernel io) (del_op (fc_events c AND NOT event)) fd (EPOLLET OR fc_events c AND NOT event)) = 0"
  shows "del_event ep fd event io =
     Inr (True, io\<lparr>im_kernel := snd (ep_ctl ep (im_kernel io) (del_op (fc_events c AND NOT event)) fd (EPOLLET OR fc_events c AND NOT event)),
       m_pendingEventCount := m_pendingEventCount io - 1,
       m_fdContexts := (m_fdContexts io)[nat fd := event_cleared sl event c]\<rparr>)"
  using assms
  by (simp add: del_event_def ctl_def del_op_def [symmetric] Let_def event_cleared_def split_beta cong del: obind_cong)

lemma del_event_no:
  "\<not> in_table fd io \<or> fc_events (m_fdContexts io ! nat fd) AND event = 0 \<Longrightarrow>
   del_event ep fd event io = Inr (False, io) \<and> cancel_event ep fd event io = Inr (False, io)"
  by (auto simp: del_event_def cancel_event_def Let_def)

lemma del_event_fails:
  assumes "in_table fd io" and "c = m_fdContexts io ! nat fd" and "fc_events c AND event \<noteq> 0"
    and "fst (ep_ctl ep (im_kernel io) (del_op (fc_events c AND NOT event)) fd (EPOLLET OR fc_events c AND NOT event)) \<noteq> 0"
  shows "del_event ep fd event io = cancel_event ep fd event io" and "cancel_event ep fd event io =
     Inr (False, io\<lparr>im_kernel := snd (ep_ctl ep (im_kernel io) (del_op (fc_events c AND NOT event)) fd (EPOLLET OR fc_events c AND NOT event))\<rparr>)"
  using assms
  by (simp_all add: del_event_def cancel_event_def ctl_def del_op_def [symmetric] Let_def split_beta cong del: obind_cong)

lemma cancel_event_eq:
  assumes "in_table fd io" and "c = m_fdContexts io ! nat fd" and "fc_events c AND event \<noteq> 0"
    and "fst (ep_ctl ep (im_kernel io) (del_op (fc_events c AND NOT event)) fd (EPOLLET OR fc_events c AND NOT event)) = 0"
  shows "cancel_event ep fd event io =
     obind (trigger_if True event (nat fd)
       (io\<lparr>im_kernel := snd (ep_ctl ep (im_kernel io) (del_op (fc_events c AND NOT event)) fd (EPOLLET OR fc_events c AND NOT event))\<rparr>)) (\<lambda>io1.
       Inr (True, io1))"
proof -
  have ob: "obind (obind m (\<lambda>x. Inr (f x))) g = obind m (\<lambda>x. g (f x))" for m f and g :: "_ \<Rightarrow> _ outcome"
    by (cases m) simp_all
  show ?thesis
    using assms
    by (simp add: cancel_event_def ctl_def del_op_def [symmetric] Let_def split_beta trigger_if_def ob cong del: obind_cong)
qed

section \<open>The operations keep the manager well-formed\<close>

lemma io_core_ctx:
  assumes "io_core io" and "in_table fd io"
  shows "ctx_ok (alive io) (m_fdContexts io ! nat fd)" and "fc_fd (m_fdContexts io ! nat fd) = fd"
  using assms by (auto simp: io_core_def in_table_def)

text \<open>A successful change of the interest list.\<close>

lemma epoll_law_add:
  "epoll_law ep \<Longrightarrow> fst (ep_ctl ep k (add_op e) fd ev) = 0 \<Longrightarrow>
   ep_interest ep (snd (ep_ctl ep k (add_op e) fd ev)) = (ep_interest ep k)(fd \<mapsto> ev)"
  by (auto simp: epoll_law_def add_op_def split: if_splits)

lemma epoll_law_del:
  "epoll_law ep \<Longrightarrow> fst (ep_ctl ep k (del_op e) fd (EPOLLET OR e)) = 0 \<Longrightarrow>
   ep_interest ep (snd (ep_ctl ep k (del_op e) fd (EPOLLET OR e))) = (ep_interest ep k)(fd := interest_of e)"
  by (auto simp: epoll_law_def del_op_def interest_of_def split: if_splits)

lemma epoll_law_DEL:
  "epoll_law ep \<Longrightarrow> fst (ep_ctl ep k EPOLL_CTL_DEL fd ev) = 0 \<Longrightarrow>
   ep_interest ep (snd (ep_ctl ep k EPOLL_CTL_DEL fd ev)) = (ep_interest ep k)(fd := None)"
  by (auto simp: epoll_law_def)

lemma epoll_law_fail:
  "epoll_law ep \<Longrightarrow> fst (ep_ctl ep k op fd ev) \<noteq> 0 \<Longrightarrow> ep_interest ep (snd (ep_ctl ep k op fd ev)) = ep_interest ep k"
  by (auto simp: epoll_law_def)

lemma alive_simps [simp]:
  "alive (io\<lparr>im_kernel := k\<rparr>) = alive io" "alive (io\<lparr>m_pendingEventCount := n\<rparr>) = alive io"
  "alive (io\<lparr>m_fdContexts := cs\<rparr>) = alive io" "alive (io\<lparr>im_timers := tm\<rparr>) = alive io"
  "alive (io\<lparr>im_pipe_room := r\<rparr>) = alive io"
  by (simp_all add: alive_def fun_eq_iff)

lemma interest_same_wf:
  "io_wf ep io \<Longrightarrow> ep_interest ep k = ep_interest ep (im_kernel io) \<Longrightarrow> io_wf ep (io\<lparr>im_kernel := k\<rparr>)"
  by (simp add: io_wf_def io_mirror_def io_core_def)

text \<open>A successful \<open>addEvent\<close> was in the table, and either the kernel refused or the context is filled.\<close>

lemma add_event_Inr:
  assumes core: "io_core io" and run: "add_event ep cur q fiber_st fd event cb io = Inr (r, io')"
  obtains "in_table fd io" and "r = -1"
      and "fst (ep_ctl ep (im_kernel io) (add_op (fc_events (m_fdContexts io ! nat fd))) fd
             (EPOLLET OR fc_events (m_fdContexts io ! nat fd) OR event)) \<noteq> 0"
      and "io' = io\<lparr>im_kernel := snd (ep_ctl ep (im_kernel io) (add_op (fc_events (m_fdContexts io ! nat fd))) fd
             (EPOLLET OR fc_events (m_fdContexts io ! nat fd) OR event))\<rparr>"
  | sl where "in_table fd io" and "r = 0" and "get_event_context event = Inr sl"
      and "fc_events (m_fdContexts io ! nat fd) AND event = 0"
      and "fst (ep_ctl ep (im_kernel io) (add_op (fc_events (m_fdContexts io ! nat fd))) fd
             (EPOLLET OR fc_events (m_fdContexts io ! nat fd) OR event)) = 0"
      and "io' = io\<lparr>im_kernel := snd (ep_ctl ep (im_kernel io) (add_op (fc_events (m_fdContexts io ! nat fd))) fd
               (EPOLLET OR fc_events (m_fdContexts io ! nat fd) OR event)),
             m_pendingEventCount := m_pendingEventCount io + 1,
             m_fdContexts := (m_fdContexts io)[nat fd := event_set sl event (event_context_of cur q cb)
               (m_fdContexts io ! nat fd)]\<rparr>"
proof -
  have t: "in_table fd io"
  proof (rule ccontr)
    assume "\<not> in_table fd io"
    then have "add_event_ctx fd io = Inl (if fd < 2 ^ 30 then Out_Of_Bounds else Signed_Overflow)"
      using core by (intro add_event_ctx_out) (simp_all add: io_core_def)
    with run show False by (simp add: add_event_def)
  qed
  define c where "c = m_fdContexts io ! nat fd"
  note c = io_core_ctx [OF core t, folded c_def]
  have n: "fc_events c AND event = 0"
    using add_event_twice [OF t] run unfolding c_def by fastforce
  let ?r = "ep_ctl ep (im_kernel io) (add_op (fc_events c)) fd (EPOLLET OR fc_events c OR event)"
  show thesis
  proof (cases "fst ?r = 0")
    case False
    with add_event_fails [OF t c_def n False] run that(1) [OF t] show thesis by (simp add: c_def)
  next
    case True
    from run t n obtain sl where sl: "get_event_context event = Inr sl"
      by (auto simp: add_event_def add_event_ctx_in outcome_simps Let_def ctl_def True c_def [symmetric]
          add_op_def [symmetric])
    have empty: "slot_ctx sl c = event_context_new"
      using ctx_ok_slot [OF c(1) sl] n by (simp add: slot_fits_def)
    have "cb \<noteq> None \<or> fiber_st = RUNNING"
      using run t n by (cases cb) (auto simp: add_event_def add_event_ctx_in outcome_simps Let_def ctl_def True
          c_def [symmetric] add_op_def [symmetric])
    from add_event_ok [OF t c_def sl n empty True this] run that(2) [OF t _ sl] n True show thesis
      by (simp add: c_def)
  qed
qed

lemma add_event_wf:
  fixes io :: "('u, 'k) io_manager"
  assumes law: "epoll_law ep" and wf: "io_wf ep io" and cur: "cur = Some p" "alive io p"
    and run: "add_event ep cur q fiber_st fd event cb io = Inr (r, io')"
  shows "io_wf ep io'"
proof -
  from wf have core: "io_core io" and mir: "io_mirror ep io" by (simp_all add: io_wf_def)
  from core run show ?thesis
  proof (cases rule: add_event_Inr)
    case 1
    with law show ?thesis by (auto intro!: interest_same_wf [OF wf] simp: epoll_law_fail)
  next
    case (2 sl)
    let ?c = "m_fdContexts io ! nat fd"
    let ?x = "event_context_of cur q cb"
    note c = io_core_ctx [OF core 2(1)]
    have ev: "event = READ \<or> event = WRITE" using 2(3) by (auto simp: get_event_context_Inr_iff)
    note wt = weight_add [OF ctx_ok_events [OF c(1)] ev 2(4)]
    have "filled (alive io) ?x" using cur by (rule event_context_of_filled)
    with c 2 have ok: "ctx_ok (alive io) (event_set sl event ?x ?c)" by (intro ctx_ok_set)
    have fd: "0 \<le> fd" "nat fd < length (m_fdContexts io)" using 2(1) by (auto simp: in_table_def)
    have "fc_events ?c OR event \<noteq> 0" using wt by (auto simp: ev_weight_def)
    then have "interest_of (fc_events ?c OR event) = Some (EPOLLET OR fc_events ?c OR event)"
      by (simp add: interest_of_def)
    then have "io_mirror ep io'"
      by (intro io_mirror_update [OF mir fd(2), where c = "event_set sl event ?x ?c"])
         (simp_all add: 2(6) fd epoll_law_add [OF law 2(5)])
    moreover have "io_core io'"
      by (rule io_core_update [OF core fd(2) _ ok])
         (use c fd core wt in \<open>simp_all add: 2(6) io_core_def\<close>)
    ultimately show ?thesis by (simp add: io_wf_def)
  qed
qed

text \<open>Triggering an event and counting it down.\<close>

lemma trigger_if_Inr:
  fixes io :: "('u, 'k) io_manager"
  assumes core: "io_core io" and i: "i < length (m_fdContexts io)" and run: "trigger_if b event i io = Inr io'"
  obtains "\<not> b" and "io' = io"
  | sl p where "b" and "get_event_context event = Inr sl" and "fc_events (m_fdContexts io ! i) AND event \<noteq> 0"
      and "io_core io'" and "m_fdContexts io' = (m_fdContexts io)[i := event_cleared sl event (m_fdContexts io ! i)]"
      and "im_kernel io' = im_kernel io" and "m_tickleFds io' = m_tickleFds io" and "im_timers io' = im_timers io"
      and "im_this io' = im_this io" and "alive io' = alive io"
      and "ec_scheduler (slot_ctx sl (m_fdContexts io ! i)) = Some p" and "alive io p"
      and "m_pendingEventCount io' = m_pendingEventCount io - 1"
      and "im_schedulers io' = (im_schedulers io)(p := map_option
             (\<lambda>s. snd (schedule (event_task (slot_ctx sl (m_fdContexts io ! i))) s)) (im_schedulers io p))"
proof (cases b)
  case False
  with run that(1) show thesis by (simp add: trigger_if_def)
next
  case b: True
  let ?c = "m_fdContexts io ! i"
  from run b obtain io2 where t: "trigger_event event i io = Inr io2"
    and io': "io' = io2\<lparr>m_pendingEventCount := m_pendingEventCount io2 - 1\<rparr>"
    by (auto simp: trigger_if_def outcome_simps)
  from t obtain sl io1 where sl: "get_event_context event = Inr sl" "fc_events ?c AND event \<noteq> 0"
    and po: "post (ec_scheduler (slot_ctx sl ?c)) (event_task (slot_ctx sl ?c)) io = Inr io1"
    and io2: "io2 = io1\<lparr>m_fdContexts := (m_fdContexts io)[i := event_cleared sl event ?c]\<rparr>"
    by (rule trigger_event_Inr)
  from po obtain p s where p: "ec_scheduler (slot_ctx sl ?c) = Some p" "im_schedulers io p = Some s"
    "im_schedulers io1 = (im_schedulers io)(p \<mapsto> snd (schedule (event_task (slot_ctx sl ?c)) s))"
    and same: "io_same io io1" "im_timers io1 = im_timers io"
    by (rule post_Inr)
  have ok: "ctx_ok (alive io) ?c" "fc_fd ?c = int i" using core i by (auto simp: io_core_def)
  have ev: "event = READ \<or> event = WRITE" using sl(1) by (auto simp: get_event_context_Inr_iff)
  have "io_core io'"
    by (rule io_core_update [OF core i _ ctx_ok_clear [OF ok(1) sl(1)]])
       (use ok core same weight_clear [OF ctx_ok_events [OF ok(1)] ev sl(2), symmetric] in
         \<open>simp_all add: io' io2 io_core_def io_same_def\<close>)
  then show thesis
    using that(2) [OF b sl] p same by (simp add: io' io2 io_same_def alive_def)
qed

text \<open>The last step of cancelling or handling events: the contexts catch up with the kernel.\<close>

lemma io_mirror_catch_up:
  assumes "io_mirror ep io" and "i < length (m_fdContexts io)" and "m_fdContexts io' = (m_fdContexts io)[i := c]"
    and "m_tickleFds io' = m_tickleFds io" and "im_kernel io' = k"
    and "ep_interest ep k = (ep_interest ep (im_kernel io))(int i := interest_of (fc_events c))"
  shows "io_mirror ep io'"
  using io_mirror_update [OF assms(1-4)] assms(5,6) by simp

lemma cancel_event_wf:
  fixes io :: "('u, 'k) io_manager"
  assumes law: "epoll_law ep" and wf: "io_wf ep io" and run: "cancel_event ep fd event io = Inr (r, io')"
  shows "io_wf ep io'"
proof (cases "in_table fd io \<and> fc_events (m_fdContexts io ! nat fd) AND event \<noteq> 0")
  case False
  with del_event_no [of fd io event ep] run wf show ?thesis by auto
next
  case True
  from wf have core: "io_core io" and mir: "io_mirror ep io" by (simp_all add: io_wf_def)
  define c where "c = m_fdContexts io ! nat fd"
  have t: "in_table fd io" and b: "fc_events c AND event \<noteq> 0" using True by (simp_all add: c_def)
  have fd: "0 \<le> fd" "nat fd < length (m_fdContexts io)" using t by (auto simp: in_table_def)
  let ?r = "ep_ctl ep (im_kernel io) (del_op (fc_events c AND NOT event)) fd (EPOLLET OR fc_events c AND NOT event)"
  show ?thesis
  proof (cases "fst ?r = 0")
    case False
    with del_event_fails(2) [OF t c_def b False] run law show ?thesis
      by (auto intro!: interest_same_wf [OF wf] simp: epoll_law_fail)
  next
    case ok: True
    let ?io = "io\<lparr>im_kernel := snd ?r\<rparr>"
    from cancel_event_eq [OF t c_def b ok] run
    have "obind (trigger_if True event (nat fd) ?io) (\<lambda>io1. Inr (True, io1)) = Inr (r, io')" by simp
    then have tr: "trigger_if True event (nat fd) ?io = Inr io'"
      by (auto simp: outcome_simps)
    have core': "io_core ?io" using core by (simp add: io_core_def)
    have fd': "nat fd < length (m_fdContexts ?io)" using fd by simp
    from core' fd' tr show ?thesis
    proof (cases rule: trigger_if_Inr)
      case (2 sl p)
      then have "io_mirror ep io'"
        by (intro io_mirror_catch_up [OF mir fd(2), where c = "event_cleared sl event c"])
           (use fd epoll_law_del [OF law ok] in \<open>simp_all add: c_def [symmetric]\<close>)
      with 2 show ?thesis by (simp add: io_wf_def)
    qed simp
  qed
qed

lemma del_event_wf:
  fixes io :: "('u, 'k) io_manager"
  assumes law: "epoll_law ep" and wf: "io_wf ep io" and run: "del_event ep fd event io = Inr (r, io')"
  shows "io_wf ep io'"
proof (cases "in_table fd io \<and> fc_events (m_fdContexts io ! nat fd) AND event \<noteq> 0")
  case False
  with del_event_no [of fd io event ep] run wf show ?thesis by auto
next
  case True
  from wf have core: "io_core io" and mir: "io_mirror ep io" by (simp_all add: io_wf_def)
  define c where "c = m_fdContexts io ! nat fd"
  have t: "in_table fd io" and b: "fc_events c AND event \<noteq> 0" using True by (simp_all add: c_def)
  have fd: "0 \<le> fd" "nat fd < length (m_fdContexts io)" using t by (auto simp: in_table_def)
  let ?r = "ep_ctl ep (im_kernel io) (del_op (fc_events c AND NOT event)) fd (EPOLLET OR fc_events c AND NOT event)"
  show ?thesis
  proof (cases "fst ?r = 0")
    case False
    with del_event_fails [OF t c_def b False] run law show ?thesis
      by (auto intro!: interest_same_wf [OF wf] simp: epoll_law_fail)
  next
    case ok: True
    obtain sl where sl: "get_event_context event = Inr sl"
      using run t b ok by (auto simp: del_event_def ctl_def Let_def outcome_simps c_def [symmetric] del_op_def [symmetric])
    from del_event_ok [OF t c_def sl b ok] run
    have io': "io' = io\<lparr>im_kernel := snd ?r, m_pendingEventCount := m_pendingEventCount io - 1,
       m_fdContexts := (m_fdContexts io)[nat fd := event_cleared sl event c]\<rparr>" by simp
    note c = io_core_ctx [OF core t, folded c_def]
    have ev: "event = READ \<or> event = WRITE" using sl by (auto simp: get_event_context_Inr_iff)
    have "io_core io'"
      by (rule io_core_update [OF core fd(2) _ ctx_ok_clear [OF c(1) sl]])
         (use c fd core weight_clear [OF ctx_ok_events [OF c(1)] ev b, symmetric] in
           \<open>simp_all add: io' io_core_def c_def [symmetric]\<close>)
    moreover have "io_mirror ep io'"
      by (intro io_mirror_catch_up [OF mir fd(2), where c = "event_cleared sl event c"])
         (use fd epoll_law_del [OF law ok] in \<open>simp_all add: io'\<close>)
    ultimately show ?thesis by (simp add: io_wf_def)
  qed
qed

definition cleared_if :: "bool \<Rightarrow> event_bits \<Rightarrow> event_bits \<Rightarrow> event_bits" where
  "cleared_if b event e = (if b then e AND NOT event else e)"

lemma trigger_if_core:
  fixes io :: "('u, 'k) io_manager"
  assumes "io_core io" and "i < length (m_fdContexts io)" and "trigger_if b event i io = Inr io'"
  obtains c where "io_core io'" and "m_fdContexts io' = (m_fdContexts io)[i := c]"
    and "fc_events c = cleared_if b event (fc_events (m_fdContexts io ! i))"
    and "b \<Longrightarrow> fc_events (m_fdContexts io ! i) AND event \<noteq> 0"
    and "im_kernel io' = im_kernel io" and "m_tickleFds io' = m_tickleFds io" and "im_timers io' = im_timers io"
  using assms
proof (cases rule: trigger_if_Inr)
  case 1
  with that [of "m_fdContexts io ! i"] assms(1) show thesis by (simp add: cleared_if_def)
next
  case (2 sl p)
  with that [of "event_cleared sl event (m_fdContexts io ! i)"] show thesis by (simp add: cleared_if_def)
qed

lemma cancal_all_wf:
  fixes io :: "('u, 'k) io_manager"
  assumes law: "epoll_law ep" and wf: "io_wf ep io" and run: "cancal_all ep fd io = Inr (r, io')"
  shows "io_wf ep io'"
proof (cases "in_table fd io \<and> fc_events (m_fdContexts io ! nat fd) \<noteq> 0")
  case False
  with run wf show ?thesis by (auto simp: cancal_all_def Let_def split: if_splits)
next
  case True
  from wf have core: "io_core io" and mir: "io_mirror ep io" by (simp_all add: io_wf_def)
  let ?i = "nat fd"
  have fd: "0 \<le> fd" "?i < length (m_fdContexts io)" using True by (auto simp: in_table_def)
  let ?r = "ep_ctl ep (im_kernel io) EPOLL_CTL_DEL fd 0"
  show ?thesis
  proof (cases "fst ?r = 0")
    case False
    then have "io' = io\<lparr>im_kernel := snd ?r\<rparr>"
      using run True by (auto simp: cancal_all_def Let_def ctl_def)
    with False law show ?thesis by (auto intro!: interest_same_wf [OF wf] simp: epoll_law_fail)
  next
    case ok: True
    let ?io = "io\<lparr>im_kernel := snd ?r\<rparr>"
    from run True ok obtain io2 where
      t1: "trigger_if (fc_events (m_fdContexts ?io ! ?i) AND READ \<noteq> 0) READ ?i ?io = Inr io2"
      and t2: "trigger_if (fc_events (m_fdContexts io2 ! ?i) AND WRITE \<noteq> 0) WRITE ?i io2 = Inr io'"
      and z: "fc_events (m_fdContexts io' ! ?i) = 0"
      by (auto simp: cancal_all_def Let_def ctl_def outcome_simps)
    have core1: "io_core ?io" using core by (simp add: io_core_def)
    from fd have i1: "?i < length (m_fdContexts ?io)" by simp
    from core1 i1 t1 obtain c1 where 1: "io_core io2" "m_fdContexts io2 = (m_fdContexts io)[?i := c1]"
      "im_kernel io2 = snd ?r" "m_tickleFds io2 = m_tickleFds io"
      by (rule trigger_if_core) simp_all
    have i2: "?i < length (m_fdContexts io2)" using 1 fd by simp
    from 1(1) i2 t2 obtain c2 where 2: "io_core io'" "m_fdContexts io' = (m_fdContexts io2)[?i := c2]"
      "im_kernel io' = im_kernel io2" "m_tickleFds io' = m_tickleFds io2"
      by (rule trigger_if_core) simp_all
    have c2: "fc_events c2 = 0" using z 1 2 fd by simp
    have "io_mirror ep io'"
      by (rule io_mirror_catch_up [OF mir fd(2), where c = c2 and k = "snd ?r"])
         (use 1 2 c2 fd epoll_law_DEL [OF law ok] in \<open>simp_all add: interest_of_def\<close>)
    with 2(1) show ?thesis by (simp add: io_wf_def)
  qed
qed

lemma real_events_of_in: "real_events_of ev \<in> {0, READ, WRITE, READ OR WRITE}"
  by (simp add: real_events_of_def)

lemma cleared_both:
  assumes "r \<in> {0, READ, WRITE, READ OR WRITE}"
  shows "cleared_if (r AND WRITE \<noteq> 0) WRITE (cleared_if (r AND READ \<noteq> 0) READ e) = e AND NOT r"
  using assms by (elim insertE emptyE) (simp_all add: cleared_if_def event_defs and.assoc)

text \<open>The event bits a report stands for.\<close>

definition reported :: "event_bits \<Rightarrow> event_bits \<Rightarrow> event_bits" where
  "reported ev0 registered = real_events_of (if ev0 AND (EPOLLERR OR EPOLLHUP) \<noteq> 0
     then ev0 OR ((EPOLLIN OR EPOLLOUT) AND registered) else ev0)"

lemma handle_event_ignored:
  "i < length (m_fdContexts io) \<Longrightarrow> fc_events (m_fdContexts io ! i) AND reported ev0 (fc_events (m_fdContexts io ! i)) = 0 \<Longrightarrow>
   handle_event ep (Fd_Ctx i, ev0) io = Inr io"
  unfolding reported_def by (auto simp: Let_def cong del: obind_cong)

lemma handle_event_eq:
  assumes "i < length (m_fdContexts io)" and "c = m_fdContexts io ! i" and "fc_fd c = int i"
    and "r = reported ev0 (fc_events c)" and "fc_events c AND r \<noteq> 0"
    and "k = ep_ctl ep (im_kernel io) (del_op (fc_events c AND NOT r)) (int i) (EPOLLET OR fc_events c AND NOT r)"
  shows "handle_event ep (Fd_Ctx i, ev0) io =
     (if fst k \<noteq> 0 then Inl (Assert_Fail ''epoll_ctl faild'')
      else obind (trigger_if (r AND READ \<noteq> 0) READ i (io\<lparr>im_kernel := snd k\<rparr>)) (\<lambda>io2.
             trigger_if (r AND WRITE \<noteq> 0) WRITE i io2))"
proof -
  have v: "vec_get (m_fdContexts io) (int i) = Inr c" using assms(1,2) by simp
  have d: "(if fc_events c AND NOT r \<noteq> 0 then EPOLL_CTL_MOD else EPOLL_CTL_DEL) = del_op (fc_events c AND NOT r)"
    by (simp add: del_op_def)
  show ?thesis
    unfolding handle_event.simps v obind_simps Let_def reported_def [symmetric] assms(4) [symmetric] ctl_def
      assms(3) d assms(6) [symmetric]
    using assms(5) by simp
qed

lemma handle_event_wf:
  fixes io :: "('u, 'k) io_manager"
  assumes law: "epoll_law ep" and wf: "io_wf ep io" and run: "handle_event ep e io = Inr io'"
  shows "io_wf ep io'"
proof (cases e)
  case (Pair d ev0)
  show ?thesis
  proof (cases d)
    case Tickle_Fd
    with run Pair have "io' = io\<lparr>im_pipe_room := im_pipe_size io\<rparr>" by simp
    with wf show ?thesis by (simp add: io_wf_def io_core_def io_mirror_def)
  next
    case (Fd_Ctx i)
    from wf have core: "io_core io" and mir: "io_mirror ep io" by (simp_all add: io_wf_def)
    define c where "c = m_fdContexts io ! i"
    have i: "i < length (m_fdContexts io)"
      using run Pair Fd_Ctx by (auto simp: outcome_simps)
    have fd: "fc_fd c = int i" using core i by (simp add: io_core_def c_def)
    define r where "r = reported ev0 (fc_events c)"
    show ?thesis
    proof (cases "fc_events c AND r = 0")
      case True
      with run Pair Fd_Ctx i have "io' = io" by (simp add: handle_event_ignored r_def c_def del: handle_event.simps)
      with wf show ?thesis by simp
    next
      case False
      let ?left = "fc_events c AND NOT r"
      let ?r = "ep_ctl ep (im_kernel io) (del_op ?left) (int i) (EPOLLET OR ?left)"
      let ?io = "io\<lparr>im_kernel := snd ?r\<rparr>"
      have eq: "handle_event ep e io = (if fst ?r \<noteq> 0 then Inl (Assert_Fail ''epoll_ctl faild'')
          else obind (trigger_if (r AND READ \<noteq> 0) READ i ?io) (\<lambda>io2. trigger_if (r AND WRITE \<noteq> 0) WRITE i io2))"
        unfolding Pair Fd_Ctx by (rule handle_event_eq [OF i c_def fd r_def False refl])
      have ok: "fst ?r = 0" using run eq by (auto split: if_splits)
      with run eq obtain io2 where t1: "trigger_if (r AND READ \<noteq> 0) READ i ?io = Inr io2"
        and t2: "trigger_if (r AND WRITE \<noteq> 0) WRITE i io2 = Inr io'"
        by (auto simp: outcome_simps)
      have core1: "io_core ?io" using core by (simp add: io_core_def)
      from i have i1: "i < length (m_fdContexts ?io)" by simp
      from core1 i1 t1 obtain c1 where 1: "io_core io2" "m_fdContexts io2 = (m_fdContexts io)[i := c1]"
        "fc_events c1 = cleared_if (r AND READ \<noteq> 0) READ (fc_events c)"
        "im_kernel io2 = snd ?r" "m_tickleFds io2 = m_tickleFds io"
        by (rule trigger_if_core) (simp_all add: c_def)
      have i2: "i < length (m_fdContexts io2)" using 1 i by simp
      from 1(1) i2 t2 obtain c2 where 2: "io_core io'" "m_fdContexts io' = (m_fdContexts io2)[i := c2]"
        "fc_events c2 = cleared_if (r AND WRITE \<noteq> 0) WRITE (fc_events c1)"
        "im_kernel io' = im_kernel io2" "m_tickleFds io' = m_tickleFds io2"
        by (rule trigger_if_core) (use 1 i in simp_all)
      have c2: "fc_events c2 = ?left"
        using cleared_both [of r] 1(3) 2(3) real_events_of_in by (simp add: r_def reported_def)
      have "io_mirror ep io'"
        by (rule io_mirror_catch_up [OF mir i, where c = c2 and k = "snd ?r"])
           (use 1 2 c2 epoll_law_del [OF law ok] in simp_all)
      with 2(1) show ?thesis by (simp add: io_wf_def)
    qed
  qed
qed

section \<open>The idle loop\<close>

text \<open>The hidden variable: whatever the calls return, the outer \<open>rt\<close> keeps its value.\<close>

lemma idle_wait_rt: "idle_wait rt t ws = Some (ps, r) \<Longrightarrow> r = rt"
  by (induction rt t ws arbitrary: ps r rule: idle_wait.induct) (fastforce simp: Let_def split: if_splits)+

lemma clamp_bounds: "t = -1 \<or> 0 \<le> t \<Longrightarrow> 0 \<le> clamp_timeout t \<and> clamp_timeout t \<le> 5000"
  by (auto simp: clamp_timeout_def MAX_TIMEOUT_def)

lemma clamp_idem: "t = -1 \<or> 0 \<le> t \<Longrightarrow> clamp_timeout (clamp_timeout t) = clamp_timeout t"
  by (auto simp: clamp_timeout_def MAX_TIMEOUT_def)

lemma idle_wait_passed:
  "idle_wait rt t ws = Some (ps, r) \<Longrightarrow> t = -1 \<or> 0 \<le> t \<Longrightarrow> set ps = {clamp_timeout t div 1000}"
proof (induction rt t ws arbitrary: ps r rule: idle_wait.induct)
  case (2 rt t inner e ws)
  show ?case
  proof (cases "inner < 0 \<and> e")
    case True
    with 2 obtain ps' where p: "idle_wait rt (clamp_timeout t) ws = Some (ps', r)"
      "ps = clamp_timeout t div 1000 # ps'" by (auto simp: Let_def)
    have "set ps' = {clamp_timeout (clamp_timeout t) div 1000}"
      by (rule "2.IH" [OF refl refl True p(1)]) (use clamp_bounds [OF "2.prems"(2)] in simp)
    with p clamp_idem [OF "2.prems"(2)] show ?thesis by simp
  next
    case False
    with "2.prems"(1) show ?thesis by (auto simp: Let_def)
  qed
qed simp

context timer_source
begin

text \<open>The timeouts of a turn follow from the contract of the timers alone.\<close>

lemma turn_timeouts:
  assumes "ok m" and "idle_wait rt (fst (next_in now m)) ws = Some (ps, r)" and "t \<in> set ps"
  shows "0 \<le> t \<and> t \<le> 5 \<and> (\<not> no_timer m \<longrightarrow> 1000 * t \<le> fst (next_in now m))"
proof -
  let ?n = "fst (next_in now m)"
  have n: "?n = -1 \<or> 0 \<le> ?n"
    using next_cases [OF assms(1), of now] by blast
  have t: "t = clamp_timeout ?n div 1000"
    using idle_wait_passed [OF assms(2) n] assms(3) by simp
  have b: "0 \<le> clamp_timeout ?n \<and> clamp_timeout ?n \<le> 5000" by (rule clamp_bounds [OF n])
  have "clamp_timeout ?n \<le> ?n" if "\<not> no_timer m"
    using next_nonneg [OF assms(1) that] next_none [OF assms(1)] that by (simp add: clamp_timeout_def)
  with t b show ?thesis by auto
qed

end

lemma post_callbacks_Inr:
  fixes io :: "('u, 'k) io_manager"
  assumes "post_callbacks cbs io = Inr io'" and "im_schedulers io (im_this io) = Some s"
  shows "io_same io io' \<and> im_timers io' = im_timers io \<and>
     im_schedulers io' = (im_schedulers io)(im_this io \<mapsto>
       fold (\<lambda>t s. snd (schedule t s)) (map (\<lambda>cb. task_of_cb cb None) cbs) s)"
  using assms
proof (induction cbs arbitrary: io s)
  case Nil
  then show ?case by (simp add: fun_upd_idem)
next
  case (Cons cb cbs)
  then obtain io1 where p: "post (Some (im_this io)) (task_of_cb cb None) io = Inr io1"
    and r: "post_callbacks cbs io1 = Inr io'" by auto
  from p Cons.prems(2) have 1: "im_schedulers io1 = (im_schedulers io)(im_this io \<mapsto> snd (schedule (task_of_cb cb None) s))"
    "io_same io io1" "im_timers io1 = im_timers io"
    by (auto elim!: post_Inr)
  then have th: "im_this io1 = im_this io" by (simp add: io_same_def)
  have "io_same io1 io' \<and> im_timers io' = im_timers io1 \<and>
     im_schedulers io' = (im_schedulers io1)(im_this io1 \<mapsto>
       fold (\<lambda>t s. snd (schedule t s)) (map (\<lambda>cb. task_of_cb cb None) cbs) (snd (schedule (task_of_cb cb None) s)))"
    by (rule Cons.IH [OF r]) (simp add: 1 th)
  with 1 th show ?case by (auto intro: io_same_trans)
qed

text \<open>A turn that does not end the loop, taken apart.\<close>

lemma io_idle_turn_Inr:
  fixes io :: "('u, 'k) io_manager"
  assumes "io_idle_turn ep now1 now2 a ws evs io = Inr (res, io')"
  obtains s where "im_schedulers io (im_this io) = Some s"
      and "res = Idle_Ends \<or> res = Idle_Waits" and "io' = io\<lparr>im_timers := snd (get_next_timer now1 (im_timers io))\<rparr>"
      and "res = Idle_Ends \<longleftrightarrow> (fst (get_next_timer now1 (im_timers io)) = ms_none \<and> m_pendingEventCount io = 0 \<and> scheduler_stopping s)"
  | s ps cbs tm where "im_schedulers io (im_this io) = Some s"
      and "\<not> (fst (get_next_timer now1 (im_timers io)) = ms_none \<and> m_pendingEventCount io = 0 \<and> scheduler_stopping s)"
      and "res = Idle_Yields ps" and "idle_wait 0 (fst (get_next_timer now1 (im_timers io))) ws = Some (ps, 0)"
      and "list_expired_cb now2 a [] (snd (get_next_timer now1 (im_timers io))) = Inr (cbs, tm)"
      and "post_callbacks cbs (io\<lparr>im_timers := tm\<rparr>) = Inr io'"
proof -
  obtain d tm1 where g: "get_next_timer now1 (im_timers io) = (d, tm1)" by fastforce
  from assms obtain s where s: "im_schedulers io (im_this io) = Some s"
    by (auto simp: io_idle_turn_def io_stopping_def g own_scheduler_def outcome_simps)
  let ?stop = "d = ms_none \<and> m_pendingEventCount io = 0 \<and> scheduler_stopping s"
  have st: "io_stopping now1 io = Inr (?stop, d, io\<lparr>im_timers := tm1\<rparr>)"
    by (simp add: io_stopping_def g own_scheduler_def s)
  show thesis
  proof (cases ?stop)
    case True
    with assms that(1) [OF s] show thesis by (simp add: io_idle_turn_def st g)
  next
    case False
    show thesis
    proof (cases "idle_wait 0 d ws")
      case None
      with False assms that(1) [OF s] show thesis by (auto simp: io_idle_turn_def st g)
    next
      case (Some pr)
      then obtain ps where w: "idle_wait 0 d ws = Some (ps, 0)"
        using idle_wait_rt by (cases pr) fastforce
      from assms False obtain cbs tm where e: "list_expired_cb now2 a [] tm1 = Inr (cbs, tm)"
        and p: "post_callbacks cbs (io\<lparr>im_timers := tm\<rparr>) = Inr io'" and r: "res = Idle_Yields ps"
        by (auto simp: io_idle_turn_def st w outcome_simps)
      show thesis
        by (rule that(2) [OF s]) (use False w e p r g in simp_all)
    qed
  qed
qed

lemma io_idle_turn_same:
  fixes io :: "('u, 'k) io_manager"
  assumes "io_idle_turn ep now1 now2 a ws evs io = Inr (res, io')"
  shows "io_same io io'"
  using assms
proof (cases rule: io_idle_turn_Inr)
  case (1 s)
  then show ?thesis by (simp add: io_same_def)
next
  case (2 s ps cbs tm)
  have "io_same (io\<lparr>im_timers := tm\<rparr>) io'"
    using post_callbacks_Inr [OF 2(6)] 2(1) by simp
  then show ?thesis by (simp add: io_same_def)
qed

lemma io_idle_turn_wf:
  fixes io :: "('u, 'k) io_manager"
  assumes run: "io_idle_turn ep now1 now2 a ws evs io = Inr (res, io')" and wf: "io_wf ep io"
    and a: "a \<notin> dom (timer_store (im_timers io))"
  shows "io_wf ep io'"
proof (rule io_same_wf [OF io_idle_turn_same [OF run] _ wf])
  from run show "tm_wf (im_timers io')"
  proof (cases rule: io_idle_turn_Inr)
    case (1 s)
    with io_wf_timers [OF wf] show ?thesis by (simp add: get_next_timer_wf)
  next
    case (2 s ps cbs tm)
    have "tm_wf tm"
      by (rule tsrc.next_then_expire_ok [OF io_wf_timers [OF wf] a 2(5)])
    with post_callbacks_Inr [OF 2(6)] 2(1) show ?thesis by simp
  qed
qed

section \<open>All operations together\<close>

text \<open>
  The operations one at a time: \<open>addEvent\<close> takes no mutex of a context, so this is the manager of one
  thread, or of several that do not interfere; the theory Io_Concurrent has the steps of several
  threads and says when they amount to these. \<open>io_close\<close> is the system call \<open>close\<close> on a descriptor with
  no event registered: \<open>epoll\<close> forgets it. (Closing one that has events leaves the tables behind; the
  hooked \<open>close\<close> cancels them first.)
\<close>

inductive io_step :: "'k epoll \<Rightarrow> nat set \<Rightarrow> ('u, 'k) io_manager \<Rightarrow> ('u, 'k) io_manager \<Rightarrow> bool"
  for ep :: "'k epoll" and held :: "nat set" where
  io_add: "alive io p \<Longrightarrow> add_event ep (Some p) q st fd event cb io = Inr (r, io') \<Longrightarrow> io_step ep held io io'"
| io_del: "del_event ep fd event io = Inr (b, io') \<Longrightarrow> io_step ep held io io'"
| io_cancel: "cancel_event ep fd event io = Inr (b, io') \<Longrightarrow> io_step ep held io io'"
| io_cancel_all: "cancal_all ep fd io = Inr (b, io') \<Longrightarrow> io_step ep held io io'"
| io_handle: "handle_event ep e io = Inr io' \<Longrightarrow> io_step ep held io io'"
| io_turn: "a \<notin> dom (timer_store (im_timers io)) \<Longrightarrow>
    io_idle_turn ep now1 now2 a ws evs io = Inr (res, io') \<Longrightarrow> io_step ep held io io'"
| io_post: "post p task io = Inr io' \<Longrightarrow> io_step ep held io io'"
| io_front: "on_timer_inserted_at_front io = Inr io' \<Longrightarrow> io_step ep held io io'"
| io_timer: "tm_step held (im_timers io) tm \<Longrightarrow> io_step ep held io (io\<lparr>im_timers := tm\<rparr>)"
| io_worker: "im_schedulers io i = Some s \<Longrightarrow>
    io_step ep held io (io\<lparr>im_schedulers := (im_schedulers io)(i \<mapsto> s')\<rparr>)"
| io_close: "(\<forall>i<length (m_fdContexts io). fd = int i \<longrightarrow> fc_events (m_fdContexts io ! i) = 0) \<Longrightarrow>
    ep_interest ep k = (ep_interest ep (im_kernel io))(fd := None) \<Longrightarrow>
    io_step ep held io (io\<lparr>im_kernel := k\<rparr>)"

definition io_start :: "'k epoll \<Rightarrow> ('u, 'k) io_manager \<Rightarrow> bool" where
  "io_start ep io \<longleftrightarrow> (\<exists>k this s others epfd pipe_rt fds room fcntl_rt now new_id.
     ep_interest ep k = (\<lambda>_. None) \<and>
     io_manager_new ep k this s others epfd pipe_rt fds room fcntl_rt now new_id = Inr io)"

lemma io_step_wf: "io_step ep held io io' \<Longrightarrow> epoll_law ep \<Longrightarrow> io_wf ep io \<Longrightarrow> io_wf ep io'"
proof (induction rule: io_step.induct)
  case (io_add io p q st fd event cb r io')
  then show ?case by (intro add_event_wf [OF io_add.prems refl])
next
  case (io_front io io')
  then have "io_same io io' \<and> im_timers io' = im_timers io"
    by (intro io_tickle_same) (simp add: on_timer_inserted_at_front_def)
  with io_front.prems show ?case
    by (intro io_same_wf [OF _ _ io_front.prems(2)]) (simp_all add: io_wf_timers)
next
  case (io_timer io tm)
  have "tm_wf tm" using tm_step_wf [OF io_timer.hyps] io_wf_timers [OF io_timer.prems(2)] by simp
  with io_timer show ?case by (intro io_same_wf [OF _ _ io_timer.prems(2)]) (simp_all add: io_same_def)
next
  case (io_worker io i s s')
  then show ?case
    by (intro io_same_wf [OF _ _ io_worker.prems(2)]) (auto simp: io_same_def alive_def fun_eq_iff io_wf_timers)
next
  case (io_close io fd k)
  then have "io_core (io\<lparr>im_kernel := k\<rparr>)" by (simp add: io_wf_def io_core_def alive_def [abs_def])
  moreover have "io_mirror ep (io\<lparr>im_kernel := k\<rparr>)"
    using io_close by (auto simp: io_wf_def io_mirror_def interest_of_def)
  ultimately show ?case by (simp add: io_wf_def)
qed (blast intro: del_event_wf cancel_event_wf cancal_all_wf handle_event_wf io_idle_turn_wf post_wf)+

lemma new_contexts:
  "context_resize 32 (io\<lparr>m_fdContexts := []\<rparr>) = io\<lparr>m_fdContexts := map fd_context_new [0..<32]\<rparr>"
  by (simp add: context_resize_def)

lemma weight_new: "sum_list (map (ev_weight \<circ> fc_events) (map fd_context_new is)) = 0"
  by (induction "is") (simp_all add: fd_context_new_def ev_weight_def event_defs)

lemma ctx_ok_new: "ctx_ok S (fd_context_new i)"
  by (simp add: ctx_ok_def fd_context_new_def slot_fits_def event_defs)

lemma io_start_wf:
  assumes law: "epoll_law ep" and st: "io_start ep io"
  shows "io_wf ep io"
proof -
  from st obtain k this s others epfd pipe_rt fds room fcntl_rt now new_id where
    k: "ep_interest ep k = (\<lambda>_. None)"
    and new: "io_manager_new ep k this s others epfd pipe_rt fds room fcntl_rt now new_id = Inr io"
    unfolding io_start_def by blast
  let ?r = "ep_ctl ep k EPOLL_CTL_ADD (fst fds) (EPOLLIN OR EPOLLET)"
  from new obtain s1 where ok: "fst ?r = 0" and io: "io = \<lparr>im_this = this, m_epfd = epfd, m_tickleFds = fds,
      m_pendingEventCount = 0, m_fdContexts = map fd_context_new [0..<32], im_timers = timer_manager_new now,
      im_schedulers = others(this \<mapsto> s1), im_kernel = snd ?r, im_pipe_room = room, im_pipe_size = room\<rparr>"
    by (auto simp: io_manager_new_def outcome_simps Let_def ctl_def context_resize_def simp del: upt_conv_Cons upt_Suc)
  have "ep_interest ep (snd ?r) = (ep_interest ep k)(fst fds \<mapsto> EPOLLIN OR EPOLLET)"
    using law ok unfolding epoll_law_def by auto
  then have "io_mirror ep io"
    by (auto simp: io_mirror_def io k interest_of_def fd_context_new_def event_defs)
  moreover have "io_core io"
    unfolding io_core_def
  proof (intro conjI allI impI)
    have "m_fdContexts io = map fd_context_new [0..<32]" "m_pendingEventCount io = 0" by (simp_all add: io)
    then show "m_pendingEventCount io = word_of_nat (sum_list (map (ev_weight \<circ> fc_events) (m_fdContexts io)))"
      by (simp only: weight_new) simp
    show "tm_wf (im_timers io)"
      by (simp add: io tm_start_wf timer_manager_new_start)
  next
    fix i assume "i < length (m_fdContexts io)"
    then have i: "m_fdContexts io ! i = fd_context_new i" by (simp add: io)
    show "ctx_ok (alive io) (m_fdContexts io ! i)" unfolding i by (rule ctx_ok_new)
    show "fc_fd (m_fdContexts io ! i) = int i" unfolding i by (simp add: fd_context_new_def)
  qed (simp_all add: io alive_def)
  ultimately show ?thesis by (simp add: io_wf_def)
qed

interpretation io_safe: safe_system "io_start ep" "io_step ep held" "\<lambda>io. epoll_law ep \<longrightarrow> io_wf ep io" for ep held
  by unfold_locales (auto intro: io_start_wf io_step_wf)

section \<open>What triggering schedules\<close>

definition posted :: "bool \<Rightarrow> 'u event_context \<Rightarrow> nat \<Rightarrow> 'u sched_task list" where
  "posted b x p = (if b \<and> ec_scheduler x = Some p then [event_task x] else [])"

text \<open>The queue of every scheduler grows by what \<open>f\<close> says.\<close>

definition queues_grow :: "(nat \<Rightarrow> 'u sched_task list) \<Rightarrow> ('u, 'k) io_manager \<Rightarrow> ('u, 'k) io_manager \<Rightarrow> bool" where
  "queues_grow f io io' \<longleftrightarrow> (\<forall>p. map_option m_tasks (im_schedulers io' p) =
     map_option (\<lambda>s. m_tasks s @ f p) (im_schedulers io p))"

lemma queues_grow_trans:
  "queues_grow f io io1 \<Longrightarrow> queues_grow g io1 io2 \<Longrightarrow> queues_grow (\<lambda>p. f p @ g p) io io2"
  unfolding queues_grow_def
proof
  fix p
  assume a: "\<forall>p. map_option m_tasks (im_schedulers io1 p) = map_option (\<lambda>s. m_tasks s @ f p) (im_schedulers io p)"
    "\<forall>p. map_option m_tasks (im_schedulers io2 p) = map_option (\<lambda>s. m_tasks s @ g p) (im_schedulers io1 p)"
  have "map_option m_tasks (im_schedulers io2 p) = map_option (\<lambda>ts. ts @ g p) (map_option m_tasks (im_schedulers io1 p))"
    using a(2) by (simp add: option.map_comp comp_def)
  then show "map_option m_tasks (im_schedulers io2 p) = map_option (\<lambda>s. m_tasks s @ f p @ g p) (im_schedulers io p)"
    using a(1) by (simp add: option.map_comp comp_def)
qed

fun other_slot :: "event_slot \<Rightarrow> event_slot" where
  "other_slot Read_Slot = Write_Slot"
| "other_slot Write_Slot = Read_Slot"

lemma trigger_if_posts:
  fixes io :: "('u, 'k) io_manager"
  assumes core: "io_core io" and i: "i < length (m_fdContexts io)" and run: "trigger_if b event i io = Inr io'"
    and sl: "get_event_context event = Inr sl"
  shows "queues_grow (posted b (slot_ctx sl (m_fdContexts io ! i))) io io'"
    and "m_pendingEventCount io' = m_pendingEventCount io - of_bool b"
    and "slot_ctx (other_slot sl) (m_fdContexts io' ! i) = slot_ctx (other_slot sl) (m_fdContexts io ! i)"
    and "m_fdContexts io' = (m_fdContexts io)[i := m_fdContexts io' ! i]"
    and "fc_events (m_fdContexts io' ! i) = cleared_if b event (fc_events (m_fdContexts io ! i))"
    and "b \<Longrightarrow> fc_events (m_fdContexts io ! i) AND event \<noteq> 0" and "io_core io'"
proof -
  let ?c = "m_fdContexts io ! i"
  have "queues_grow (posted b (slot_ctx sl ?c)) io io' \<and>
    m_pendingEventCount io' = m_pendingEventCount io - of_bool b \<and>
    slot_ctx (other_slot sl) (m_fdContexts io' ! i) = slot_ctx (other_slot sl) ?c \<and>
    m_fdContexts io' = (m_fdContexts io)[i := m_fdContexts io' ! i] \<and>
    fc_events (m_fdContexts io' ! i) = cleared_if b event (fc_events ?c) \<and>
    (b \<longrightarrow> fc_events ?c AND event \<noteq> 0) \<and> io_core io'"
    using core i run
  proof (cases rule: trigger_if_Inr)
    case 1
    with core show ?thesis by (simp add: queues_grow_def posted_def cleared_if_def)
  next
    case (2 sl' p)
    have s: "sl' = sl" using 2(2) sl by simp
    have "slot_fits (alive io) True (slot_ctx sl ?c)"
      using ctx_ok_slot [of "alive io" ?c event sl] core i sl 2(3) by (simp add: io_core_def)
    then have ne: "\<not> task_empty (event_task (slot_ctx sl ?c))"
      by (intro filled_task [of "alive io"]) (simp add: slot_fits_def)
    have "queues_grow (posted b (slot_ctx sl ?c)) io io'"
      unfolding queues_grow_def
    proof
      fix p'
      show "map_option m_tasks (im_schedulers io' p') =
          map_option (\<lambda>s. m_tasks s @ posted b (slot_ctx sl ?c) p') (im_schedulers io p')"
        using 2 ne unfolding s by (cases "p' = p"; cases "im_schedulers io p'") (auto simp: posted_def)
    qed
    moreover have "slot_ctx (other_slot sl) (event_cleared sl event ?c) = slot_ctx (other_slot sl) ?c"
      by (cases sl) (simp_all add: event_cleared_def reset_event_context_eq)
    ultimately show ?thesis
      using 2 i unfolding s by (simp add: cleared_if_def)
  qed
  then show "queues_grow (posted b (slot_ctx sl ?c)) io io'"
    "m_pendingEventCount io' = m_pendingEventCount io - of_bool b"
    "slot_ctx (other_slot sl) (m_fdContexts io' ! i) = slot_ctx (other_slot sl) ?c"
    "m_fdContexts io' = (m_fdContexts io)[i := m_fdContexts io' ! i]"
    "fc_events (m_fdContexts io' ! i) = cleared_if b event (fc_events ?c)"
    "b \<Longrightarrow> fc_events ?c AND event \<noteq> 0" "io_core io'"
    by blast+
qed

lemma get_event_context_simps [simp]:
  "get_event_context READ = Inr Read_Slot" "get_event_context WRITE = Inr Write_Slot"
  by (simp_all add: get_event_context_def event_defs)

text \<open>The two triggers in a row.\<close>

lemma trigger_both_posts:
  fixes io :: "('u, 'k) io_manager"
  assumes core: "io_core io" and i: "i < length (m_fdContexts io)"
    and run1: "trigger_if b1 READ i io = Inr io1" and run2: "trigger_if b2 WRITE i io1 = Inr io2"
    and c: "c = m_fdContexts io ! i"
  shows "queues_grow (\<lambda>p. posted b1 (fc_read c) p @ posted b2 (fc_write c) p) io io2"
    and "m_pendingEventCount io2 = m_pendingEventCount io - of_bool b1 - of_bool b2"
    and "m_fdContexts io2 = (m_fdContexts io)[i := m_fdContexts io2 ! i]"
    and "fc_events (m_fdContexts io2 ! i) = cleared_if b2 WRITE (cleared_if b1 READ (fc_events c))"
    and "b1 \<Longrightarrow> fc_events c AND READ \<noteq> 0" and "b2 \<Longrightarrow> cleared_if b1 READ (fc_events c) AND WRITE \<noteq> 0"
    and "io_core io2"
proof -
  note t1 = trigger_if_posts [OF core i run1, of Read_Slot, simplified]
  have i1: "i < length (m_fdContexts io1)" using i by (subst t1(4)) simp
  note t2 = trigger_if_posts [OF t1(7) i1 run2, of Write_Slot, simplified]
  have w: "fc_write (m_fdContexts io1 ! i) = fc_write c" using t1(3) by (simp add: c)
  show "queues_grow (\<lambda>p. posted b1 (fc_read c) p @ posted b2 (fc_write c) p) io io2"
    using queues_grow_trans [OF t1(1) t2(1)] w by (simp add: c)
  show "m_pendingEventCount io2 = m_pendingEventCount io - of_bool b1 - of_bool b2"
    using t1(2) t2(2) by simp
  show "m_fdContexts io2 = (m_fdContexts io)[i := m_fdContexts io2 ! i]"
    by (subst t2(4), subst t1(4)) simp
  show "fc_events (m_fdContexts io2 ! i) = cleared_if b2 WRITE (cleared_if b1 READ (fc_events c))"
    using t1(5) t2(5) by (simp add: c)
  show "b1 \<Longrightarrow> fc_events c AND READ \<noteq> 0" using t1(6) by (simp add: c)
  show "b2 \<Longrightarrow> cleared_if b1 READ (fc_events c) AND WRITE \<noteq> 0" using t2(6) t1(5) by (simp add: c)
  show "io_core io2" by (rule t2(7))
qed

section \<open>Properties\<close>

text \<open>An interest list as the kernel state, and a manager with one plain thread just constructed.\<close>

definition sample_ctl :: "(int \<Rightarrow> event_bits option) \<Rightarrow> epoll_op \<Rightarrow> int \<Rightarrow> event_bits \<Rightarrow> int \<times> (int \<Rightarrow> event_bits option)" where
  "sample_ctl k op fd ev =
     (if (op = EPOLL_CTL_ADD) = (k fd = None)
      then (0, k(fd := if op = EPOLL_CTL_DEL then None else Some ev)) else (-1, k))"

definition sample_epoll :: "(int \<Rightarrow> event_bits option) epoll" where
  "sample_epoll = \<lparr>ep_ctl = sample_ctl, ep_interest = (\<lambda>k. k)\<rparr>"

lemma sample_epoll_law: "epoll_law sample_epoll"
  by (auto simp: epoll_law_def sample_epoll_def sample_ctl_def)

definition plain_scheduler :: "'u scheduler" where
  "plain_scheduler = (caller_scheduler [])\<lparr>m_threads := [], m_threadIds := [], m_useCaller := False,
     m_rootFiber := None, m_rootThread := None\<rparr>"

definition fresh_io :: "('u, int \<Rightarrow> event_bits option) io_manager" where
  "fresh_io = \<lparr>im_this = 0, m_epfd = 3, m_tickleFds = (4, 5), m_pendingEventCount = 0,
     m_fdContexts = map fd_context_new [0..<32], im_timers = timer_manager_new 1000,
     im_schedulers = [0 \<mapsto> plain_scheduler\<lparr>m_threads := [1], m_threadIds := [1]\<rparr>],
     im_kernel = [4 \<mapsto> EPOLLIN OR EPOLLET], im_pipe_room = 2, im_pipe_size = 2\<rparr>"

lemma sample_plain_start:
  "scheduler_start (\<lambda>i. i + 1) plain_scheduler = Inr (plain_scheduler\<lparr>m_threads := [1], m_threadIds := [1]\<rparr>)"
  by (simp add: scheduler_start_def plain_scheduler_def caller_scheduler_def Let_def)

lemma sample_io_new:
  "io_manager_new sample_epoll Map.empty 0 plain_scheduler Map.empty 3 0 (4, 5) 2 0 1000 (\<lambda>i. i + 1) = Inr fresh_io"
  unfolding io_manager_new_def sample_plain_start
  by (simp add: Let_def ctl_def sample_epoll_def sample_ctl_def context_resize_def
      fresh_io_def del: upt_conv_Cons upt_Suc upt_rec_numeral cong del: obind_cong)

lemma sample_io_start: "io_start sample_epoll fresh_io"
  unfolding io_start_def
  by (intro exI conjI, rule_tac [2] sample_io_new) (simp add: sample_epoll_def)

lemma sample_io_reach: "reach (io_start sample_epoll) (io_step sample_epoll {}) fresh_io"
  by (rule reach_start) (rule sample_io_start)

lemma sample_io_ctx: "i < 32 \<Longrightarrow> m_fdContexts fresh_io ! i = fd_context_new i"
  by (simp add: fresh_io_def)

lemma sample_io_len: "length (m_fdContexts fresh_io) = 32"
  by (simp add: fresh_io_def)

abbreviation sample_plain :: "nat scheduler" where "sample_plain \<equiv> plain_scheduler"

abbreviation sample_io :: "(nat, int \<Rightarrow> event_bits option) io_manager" where "sample_io \<equiv> fresh_io"

text \<open>The event tables of a manager whose operations are executed one at a time.\<close>

lemma io_tables:
  assumes "reach (io_start ep) (io_step ep held) io" and "epoll_law ep"
  shows "length (m_fdContexts io) = 32 \<and>
     m_pendingEventCount io = of_nat (\<Sum>i<32. ev_weight (fc_events (m_fdContexts io ! i))) \<and>
     (\<forall>i<length (m_fdContexts io).
        slot_fits (alive io) (fc_events (m_fdContexts io ! i) AND READ \<noteq> 0) (fc_read (m_fdContexts io ! i)) \<and>
        slot_fits (alive io) (fc_events (m_fdContexts io ! i) AND WRITE \<noteq> 0) (fc_write (m_fdContexts io ! i)) \<and>
        (int i \<noteq> fst (m_tickleFds io) \<longrightarrow>
           ep_interest ep (im_kernel io) (int i) =
             (if fc_events (m_fdContexts io ! i) = 0 then None
              else Some (EPOLLET OR fc_events (m_fdContexts io ! i)))))"
proof -
  have wf: "io_wf ep io" using io_safe.reach_inv [OF assms(1)] assms(2) by blast
  then have core: "io_core io" and mir: "io_mirror ep io" by (simp_all add: io_wf_def)
  have len: "length (m_fdContexts io) = 32" using core by (simp add: io_core_def)
  then have "sum_list (map (ev_weight \<circ> fc_events) (m_fdContexts io)) =
      (\<Sum>i<32. ev_weight (fc_events (m_fdContexts io ! i)))"
    by (simp add: sum_list_sum_nth atLeast0LessThan)
  then have "m_pendingEventCount io = of_nat (\<Sum>i<32. ev_weight (fc_events (m_fdContexts io ! i)))"
    using core by (metis io_core_def)
  moreover have "slot_fits (alive io) (fc_events (m_fdContexts io ! i) AND READ \<noteq> 0) (fc_read (m_fdContexts io ! i)) \<and>
        slot_fits (alive io) (fc_events (m_fdContexts io ! i) AND WRITE \<noteq> 0) (fc_write (m_fdContexts io ! i))"
    if "i < length (m_fdContexts io)" for i
    using core that by (simp add: io_core_def ctx_ok_def)
  ultimately show ?thesis
    using len mir unfolding io_mirror_def interest_of_def by blast
qed

text \<open>C39: only descriptors below 32. The table is never extended: the size the code computes for it is
  \<open>fd + fd > 1\<close>, that is 0 or 1, so that registering an event on a descriptor from 32 on (and
  on a negative one) always indexes the table out of bounds, or overflows on the way, while removing
  and cancelling events of such a descriptor answers false.\<close>

theorem add_event_outside_table:
  assumes "reach (io_start ep) (io_step ep held) io" and "epoll_law ep" and "fd < 0 \<or> 32 \<le> fd"
  shows "add_event ep cur q st fd event cb io = Inl (if fd < 2 ^ 30 then Out_Of_Bounds else Signed_Overflow) \<and>
     del_event ep fd event io = Inr (False, io) \<and> cancel_event ep fd event io = Inr (False, io) \<and>
     cancal_all ep fd io = Inr (False, io)"
proof -
  have "io_wf ep io" using io_safe.reach_inv [OF assms(1)] assms(2) by blast
  then have len: "length (m_fdContexts io) = 32" by (simp add: io_wf_def io_core_def)
  with assms(3) have out: "\<not> in_table fd io" by (auto simp: in_table_def)
  with add_event_ctx_out [OF len out] show ?thesis
    by (simp add: add_event_def del_event_def cancel_event_def cancal_all_def)
qed

theorem add_event_outside_table_witness:
  "add_event sample_epoll (Some 0) 9 RUNNING 32 READ None sample_io = Inl Out_Of_Bounds"
  using add_event_outside_table [OF sample_io_reach [where 'a = nat] sample_epoll_law, of 32] by simp

lemma del_event_True:
  assumes run: "del_event ep fd event io = Inr (True, io')" and sl: "get_event_context event = Inr sl"
  obtains k where "in_table fd io" and "fc_events (m_fdContexts io ! nat fd) AND event \<noteq> 0"
    and "io' = io\<lparr>im_kernel := k, m_pendingEventCount := m_pendingEventCount io - 1,
       m_fdContexts := (m_fdContexts io)[nat fd := event_cleared sl event (m_fdContexts io ! nat fd)]\<rparr>"
proof -
  have t: "in_table fd io" and b: "fc_events (m_fdContexts io ! nat fd) AND event \<noteq> 0"
    using run del_event_no [of fd io event ep] by auto
  define c where "c = m_fdContexts io ! nat fd"
  have ok: "fst (ep_ctl ep (im_kernel io) (del_op (fc_events c AND NOT event)) fd (EPOLLET OR fc_events c AND NOT event)) = 0"
    using run b t del_event_fails [OF t c_def, of event ep] by (auto simp: c_def)
  from del_event_ok [OF t c_def sl b [folded c_def] ok] run that [OF t b] show thesis
    by (simp add: c_def)
qed

lemma cancel_event_True:
  fixes io :: "('u, 'k) io_manager"
  assumes core: "io_core io" and run: "cancel_event ep fd event io = Inr (True, io')"
  obtains sl p where "in_table fd io" and "get_event_context event = Inr sl"
    and "m_fdContexts io' = (m_fdContexts io)[nat fd := event_cleared sl event (m_fdContexts io ! nat fd)]"
    and "m_pendingEventCount io' = m_pendingEventCount io - 1"
    and "ec_scheduler (slot_ctx sl (m_fdContexts io ! nat fd)) = Some p" and "alive io p"
    and "im_schedulers io' = (im_schedulers io)(p := map_option
           (\<lambda>s. snd (schedule (event_task (slot_ctx sl (m_fdContexts io ! nat fd))) s)) (im_schedulers io p))"
proof -
  have t: "in_table fd io" and b: "fc_events (m_fdContexts io ! nat fd) AND event \<noteq> 0"
    using run del_event_no [of fd io event ep] by auto
  define c where "c = m_fdContexts io ! nat fd"
  let ?r = "ep_ctl ep (im_kernel io) (del_op (fc_events c AND NOT event)) fd (EPOLLET OR fc_events c AND NOT event)"
  have ok: "fst ?r = 0"
    using run b t del_event_fails(2) [OF t c_def, of event ep] by (auto simp: c_def)
  let ?io = "io\<lparr>im_kernel := snd ?r\<rparr>"
  from cancel_event_eq [OF t c_def b [folded c_def] ok] run
  have "obind (trigger_if True event (nat fd) ?io) (\<lambda>io1. Inr (True, io1)) = Inr (True, io')" by simp
  then have tr: "trigger_if True event (nat fd) ?io = Inr io'"
    by (auto simp: outcome_simps)
  have core': "io_core ?io" using core by (simp add: io_core_def)
  have "nat fd < length (m_fdContexts ?io)" using t by (simp add: in_table_def)
  from core' this tr show thesis
  proof (cases rule: trigger_if_Inr)
    case (2 sl p)
    with that [OF t, of sl p] show thesis by (simp add: alive_def)
  qed simp
qed

lemma event_restored:
  fixes io :: "('u, 'k) io_manager"
  assumes wf: "io_wf ep io" and "epoll_law ep" and "alive io p"
    and "add_event ep (Some p) q st fd event cb io = Inr (0, io1)"
  shows "(\<forall>io2. del_event ep fd event io1 = Inr (True, io2) \<longrightarrow> io2\<lparr>im_kernel := im_kernel io\<rparr> = io) \<and>
     (\<forall>io2. cancel_event ep fd event io1 = Inr (True, io2) \<longrightarrow>
        m_fdContexts io2 = m_fdContexts io \<and> m_pendingEventCount io2 = m_pendingEventCount io \<and>
        im_schedulers io2 = (im_schedulers io)(p := map_option (\<lambda>s. snd (schedule
          (if cb \<noteq> None then task_of_cb cb None else task_of_fiber (Some q) None) s)) (im_schedulers io p)))"
proof -
  from wf have core: "io_core io" by (simp add: io_wf_def)
  have core1: "io_core io1" using add_event_wf [OF assms(2) wf refl assms(3,4)] by (simp add: io_wf_def)
  let ?c = "m_fdContexts io ! nat fd"
  let ?x = "event_context_of (Some p) q cb"
  from core assms(4) obtain sl k where t: "in_table fd io" and sl: "get_event_context event = Inr sl"
    and n: "fc_events ?c AND event = 0"
    and io1: "io1 = io\<lparr>im_kernel := k, m_pendingEventCount := m_pendingEventCount io + 1,
             m_fdContexts := (m_fdContexts io)[nat fd := event_set sl event ?x ?c]\<rparr>"
    by (rule add_event_Inr) auto
  have fd: "nat fd < length (m_fdContexts io)" using t by (auto simp: in_table_def)
  have restored: "event_cleared sl event (event_set sl event ?x ?c) = ?c"
    by (rule event_set_cleared [OF io_core_ctx(1) [OF core t] sl n])
  have ctxs: "(m_fdContexts io1)[nat fd := event_cleared sl event (m_fdContexts io1 ! nat fd)] = m_fdContexts io"
    using fd by (simp add: io1 restored)
  have task: "event_task ?x = (if cb \<noteq> None then task_of_cb cb None else task_of_fiber (Some q) None)"
    by (auto simp: event_task_def event_context_of_def)
  have slot: "slot_ctx sl (m_fdContexts io1 ! nat fd) = ?x"
    using fd by (simp add: io1 event_set_def)
  have "io2\<lparr>im_kernel := im_kernel io\<rparr> = io" if d: "del_event ep fd event io1 = Inr (True, io2)" for io2
  proof -
    from d sl obtain k2 where "io2 = io1\<lparr>im_kernel := k2, m_pendingEventCount := m_pendingEventCount io1 - 1,
       m_fdContexts := (m_fdContexts io1)[nat fd := event_cleared sl event (m_fdContexts io1 ! nat fd)]\<rparr>"
      by (rule del_event_True)
    then have "io2 = io\<lparr>im_kernel := k2\<rparr>" unfolding ctxs by (simp add: io1)
    then show ?thesis by simp
  qed
  moreover have "m_fdContexts io2 = m_fdContexts io \<and> m_pendingEventCount io2 = m_pendingEventCount io \<and>
        im_schedulers io2 = (im_schedulers io)(p := map_option (\<lambda>s. snd (schedule
          (if cb \<noteq> None then task_of_cb cb None else task_of_fiber (Some q) None) s)) (im_schedulers io p))"
    if c: "cancel_event ep fd event io1 = Inr (True, io2)" for io2
  proof -
    from core1 c show ?thesis
    proof (rule cancel_event_True)
      fix sl' p'
      assume a: "get_event_context event = Inr sl'"
        "m_fdContexts io2 = (m_fdContexts io1)[nat fd := event_cleared sl' event (m_fdContexts io1 ! nat fd)]"
        "m_pendingEventCount io2 = m_pendingEventCount io1 - 1"
        "ec_scheduler (slot_ctx sl' (m_fdContexts io1 ! nat fd)) = Some p'"
        "im_schedulers io2 = (im_schedulers io1)(p' := map_option
           (\<lambda>s. snd (schedule (event_task (slot_ctx sl' (m_fdContexts io1 ! nat fd))) s)) (im_schedulers io1 p'))"
      from a(1) sl have s: "sl' = sl" by simp
      have "p' = p" using a(4) unfolding s slot by (simp add: event_context_of_def)
      with a show ?thesis unfolding s slot task ctxs by (simp add: io1)
    qed
  qed
  ultimately show ?thesis by blast
qed

text \<open>C21: registering and taking back. Removing an event that was registered just before, with a
  callback or for the running fiber, gives back the manager there was, kernel state aside;
  cancelling it instead gives back the same tables and count and schedules, on the registering
  thread's scheduler, exactly that callback or fiber.\<close>

theorem event_roundtrip:
  fixes io :: "('u, 'k) io_manager"
  assumes "reach (io_start ep) (io_step ep held) io" and "epoll_law ep" and "alive io p"
    and "add_event ep (Some p) q st fd event cb io = Inr (0, io1)"
  shows "(\<forall>io2. del_event ep fd event io1 = Inr (True, io2) \<longrightarrow> io2\<lparr>im_kernel := im_kernel io\<rparr> = io) \<and>
     (\<forall>io2. cancel_event ep fd event io1 = Inr (True, io2) \<longrightarrow>
        m_fdContexts io2 = m_fdContexts io \<and> m_pendingEventCount io2 = m_pendingEventCount io \<and>
        im_schedulers io2 = (im_schedulers io)(p := map_option (\<lambda>s. snd (schedule
          (if cb \<noteq> None then task_of_cb cb None else task_of_fiber (Some q) None) s)) (im_schedulers io p)))"
proof -
  have "io_wf ep io" using io_safe.reach_inv [OF assms(1)] assms(2) by blast
  from event_restored [OF this assms(2-4)] show ?thesis .
qed

text \<open>The sample manager with an event registered by fiber 9 on descriptor 7.\<close>

definition sample_io7 :: "(nat, int \<Rightarrow> event_bits option) io_manager" where
  "sample_io7 = sample_io\<lparr>im_kernel := (im_kernel sample_io)(7 \<mapsto> EPOLLET OR READ), m_pendingEventCount := 1,
     m_fdContexts := (m_fdContexts sample_io)[7 := event_set Read_Slot READ (event_context_of (Some 0) 9 None) (fd_context_new 7)]\<rparr>"

lemma sample_add: "add_event sample_epoll (Some 0) 9 RUNNING 7 READ None sample_io = Inr (0, sample_io7)"
proof -
  have t: "in_table 7 sample_io" by (simp add: in_table_def sample_io_len)
  have c: "fd_context_new 7 = m_fdContexts sample_io ! nat 7" by (simp add: sample_io_ctx)
  have r: "ep_ctl sample_epoll (im_kernel sample_io) (add_op (fc_events (fd_context_new 7 :: nat fd_context))) 7
      (EPOLLET OR fc_events (fd_context_new 7 :: nat fd_context) OR READ) = (0, (im_kernel sample_io)(7 \<mapsto> EPOLLET OR READ))"
    by (simp add: sample_epoll_def sample_ctl_def add_op_def fd_context_new_def event_defs fresh_io_def)
  have "get_event_context READ = Inr Read_Slot" by (simp add: get_event_context_def)
  from add_event_ok [OF t c this, of sample_epoll None RUNNING "Some 0" 9] r show ?thesis
    by (simp add: fd_context_new_def event_defs sample_io7_def fresh_io_def del: upt_conv_Cons upt_Suc upt_rec_numeral)
qed

lemma sample_io7_ctx:
  "length (m_fdContexts sample_io7) = 32"
  "m_fdContexts sample_io7 ! 7 = event_set Read_Slot READ (event_context_of (Some 0) 9 None) (fd_context_new 7)"
  by (simp_all add: sample_io7_def sample_io_len)

lemma sample_io7_events: "fc_events (m_fdContexts sample_io7 ! 7) = READ"
  by (simp add: sample_io7_ctx fd_context_new_def event_defs)

lemma sample_trigger:
  obtains io2 where "trigger_if True READ 7 (sample_io7\<lparr>im_kernel := (im_kernel sample_io7)(7 := None)\<rparr>) = Inr io2"
    and "fc_events (m_fdContexts io2 ! 7) = 0"
proof -
  let ?io = "sample_io7\<lparr>im_kernel := (im_kernel sample_io7)(7 := None)\<rparr>"
  have s: "im_schedulers ?io 0 = Some (sample_plain\<lparr>m_threads := [1], m_threadIds := [1]\<rparr>)"
    by (simp add: sample_io7_def fresh_io_def)
  obtain io1 where p: "post (Some 0) (task_of_fiber (Some 9) None) ?io = Inr io1"
    by (simp add: post_def s Let_def io_tickle_def own_scheduler_def hasIdleThreads_def sample_io7_def fresh_io_def
        plain_scheduler_def caller_scheduler_def schedule_def schedule_no_lock_def)
  from p have ctx: "m_fdContexts io1 = m_fdContexts sample_io7"
    by (rule post_Inr) (simp add: io_same_def)
  have slot: "slot_ctx Read_Slot (m_fdContexts ?io ! 7) = event_context_of (Some 0) 9 None"
    by (simp add: sample_io7_ctx event_set_def)
  have task: "ec_scheduler (event_context_of (Some 0) 9 None) = Some 0"
    "event_task (event_context_of (Some 0) 9 None) = task_of_fiber (Some 9) None"
    by (simp_all add: event_context_of_def event_task_def)
  have b: "fc_events (m_fdContexts ?io ! 7) AND READ \<noteq> 0" using sample_io7_events by (simp add: event_defs)
  have "trigger_event READ 7 ?io = Inr (io1\<lparr>m_fdContexts := (m_fdContexts io1)[7 := event_cleared Read_Slot READ (m_fdContexts ?io ! 7)]\<rparr>)"
    unfolding trigger_event_eq [OF get_event_context_simps(1) b] slot task p by simp
  then show thesis
    using that sample_io7_events by (simp add: trigger_if_def ctx sample_io7_ctx(1) event_defs)
qed

lemma sample_cancel_read: "\<exists>io2. cancel_event sample_epoll 7 READ sample_io7 = Inr (True, io2)"
proof -
  define c where "c = m_fdContexts sample_io7 ! nat 7"
  have t: "in_table 7 sample_io7" by (simp add: in_table_def sample_io7_ctx(1))
  have e: "fc_events c = READ" using sample_io7_events by (simp add: c_def)
  then have b: "fc_events c AND READ \<noteq> 0" by (simp add: event_defs)
  have r: "ep_ctl sample_epoll (im_kernel sample_io7) (del_op (fc_events c AND NOT READ)) 7
      (EPOLLET OR fc_events c AND NOT READ) = (0, (im_kernel sample_io7)(7 := None))"
    by (simp add: e del_op_def event_defs sample_epoll_def sample_ctl_def sample_io7_def)
  obtain io2 where "trigger_if True READ 7 (sample_io7\<lparr>im_kernel := (im_kernel sample_io7)(7 := None)\<rparr>) = Inr io2"
    by (rule sample_trigger)
  with cancel_event_eq [OF t c_def b, of sample_epoll] show ?thesis
    unfolding r by simp
qed

theorem event_roundtrip_witness:
  "\<exists>io2. cancel_event sample_epoll 7 READ sample_io7 = Inr (True, io2) \<and>
     map_option m_tasks (im_schedulers io2 0) = Some [task_of_fiber (Some 9) None]"
proof -
  obtain io2 where c: "cancel_event sample_epoll 7 READ sample_io7 = Inr (True, io2)"
    using sample_cancel_read by blast
  have "alive sample_io 0" by (simp add: alive_def fresh_io_def)
  from event_roundtrip [OF sample_io_reach sample_epoll_law this sample_add] c
  have "map_option m_tasks (im_schedulers io2 0) = Some [task_of_fiber (Some 9) None]"
    by (simp add: fresh_io_def plain_scheduler_def caller_scheduler_def)
  with c show ?thesis by blast
qed

lemma sample_add_reach: "reach (io_start sample_epoll) (io_step sample_epoll {}) sample_io7"
proof -
  have "alive sample_io 0" by (simp add: alive_def fresh_io_def)
  then have "io_step sample_epoll {} sample_io sample_io7"
    by (rule io_add) (rule sample_add)
  then show ?thesis by (rule reach_step [OF sample_io_reach])
qed

lemma cleared_rw:
  "e \<in> {0, READ, WRITE, READ OR WRITE} \<Longrightarrow>
   cleared_if (cleared_if (e AND READ \<noteq> 0) READ e AND WRITE \<noteq> 0) WRITE (cleared_if (e AND READ \<noteq> 0) READ e) = 0"
  by (elim insertE emptyE) (simp_all add: cleared_if_def event_defs)

lemma cleared_read_write: "(cleared_if b READ e AND WRITE \<noteq> 0) = (e AND WRITE \<noteq> 0)"
  by (simp add: cleared_if_def event_defs and.assoc)

lemma ctx_ok_none:
  "ctx_ok S c \<Longrightarrow> fc_events c = 0 \<Longrightarrow> fc_fd c = int i \<Longrightarrow> c = fd_context_new i"
  by (cases c) (simp add: ctx_ok_def slot_fits_def fd_context_new_def EV_NONE_def)

lemma cancal_all_effect:
  fixes io :: "('u, 'k) io_manager"
  assumes wf: "io_wf ep io" and "epoll_law ep"
    and "cancal_all ep fd io = Inr (True, io')" and "c = m_fdContexts io ! nat fd"
  shows "fc_events c \<noteq> 0 \<and> m_fdContexts io' = (m_fdContexts io)[nat fd := fd_context_new (nat fd)] \<and>
     m_pendingEventCount io' = m_pendingEventCount io - of_nat (ev_weight (fc_events c)) \<and>
     queues_grow (\<lambda>p. posted (fc_events c AND READ \<noteq> 0) (fc_read c) p @
                      posted (fc_events c AND WRITE \<noteq> 0) (fc_write c) p) io io'"
proof -
  from wf have core: "io_core io" by (simp add: io_wf_def)
  from assms(3,4) have t: "in_table fd io" and b: "fc_events c \<noteq> 0"
    by (auto simp: cancal_all_def Let_def split: if_splits)
  have fd: "nat fd < length (m_fdContexts io)" using t by (simp add: in_table_def)
  let ?r = "ep_ctl ep (im_kernel io) EPOLL_CTL_DEL fd 0"
  let ?io = "io\<lparr>im_kernel := snd ?r\<rparr>"
  have ok: "fst ?r = 0"
    using assms(3) t b by (auto simp: cancal_all_def Let_def ctl_def assms(4) split: if_splits)
  from assms(3) t b ok obtain io2 where
    t1: "trigger_if (fc_events c AND READ \<noteq> 0) READ (nat fd) ?io = Inr io2"
    and t2: "trigger_if (fc_events (m_fdContexts io2 ! nat fd) AND WRITE \<noteq> 0) WRITE (nat fd) io2 = Inr io'"
    and z: "fc_events (m_fdContexts io' ! nat fd) = 0"
    by (auto simp: cancal_all_def Let_def ctl_def outcome_simps assms(4))
  have core1: "io_core ?io" using core by (simp add: io_core_def)
  have fd1: "nat fd < length (m_fdContexts ?io)" and c: "c = m_fdContexts ?io ! nat fd" using fd assms(4) by simp_all
  have "fc_events (m_fdContexts io2 ! nat fd) = cleared_if (fc_events c AND READ \<noteq> 0) READ (fc_events c)"
    using trigger_if_posts(5) [OF core1 fd1 t1] c by simp
  then have w: "(fc_events (m_fdContexts io2 ! nat fd) AND WRITE \<noteq> 0) = (fc_events c AND WRITE \<noteq> 0)"
    by (simp only: cleared_read_write)
  note p = trigger_both_posts [OF core1 fd1 t1 t2 [unfolded w] c]
  have fd2: "nat fd < length (m_fdContexts io')" using fd by (subst p(3)) simp
  have "m_fdContexts io' ! nat fd = fd_context_new (nat fd)"
    using p(7) fd2 by (intro ctx_ok_none [OF _ z, of "alive io'"]) (simp_all add: io_core_def)
  moreover have "queues_grow (\<lambda>p. posted (fc_events c AND READ \<noteq> 0) (fc_read c) p @
                      posted (fc_events c AND WRITE \<noteq> 0) (fc_write c) p) io io'"
    using p(1) by (simp add: queues_grow_def)
  ultimately show ?thesis
    using p(2,3) b by (simp add: ev_weight_def algebra_simps)
qed

text \<open>Cancelling everything. When \<open>cancalAll\<close> answers true the descriptor's context is a fresh
  one and no other context changed, the count went down by the number of its events, and every
  scheduler has got the tasks registered with it on that descriptor, the reader's before the
  writer's, and nothing else.\<close>

theorem cancal_all_triggers_all:
  fixes io :: "('u, 'k) io_manager"
  assumes "reach (io_start ep) (io_step ep held) io" and "epoll_law ep"
    and "cancal_all ep fd io = Inr (True, io')" and "c = m_fdContexts io ! nat fd"
  shows "fc_events c \<noteq> 0 \<and> m_fdContexts io' = (m_fdContexts io)[nat fd := fd_context_new (nat fd)] \<and>
     m_pendingEventCount io' = m_pendingEventCount io - of_nat (ev_weight (fc_events c)) \<and>
     queues_grow (\<lambda>p. posted (fc_events c AND READ \<noteq> 0) (fc_read c) p @
                      posted (fc_events c AND WRITE \<noteq> 0) (fc_write c) p) io io'"
proof -
  have "io_wf ep io" using io_safe.reach_inv [OF assms(1)] assms(2) by blast
  from cancal_all_effect [OF this assms(2-4)] show ?thesis .
qed

lemma sample_cancel:
  obtains io' where "cancal_all sample_epoll 7 sample_io7 = Inr (True, io')"
proof -
  let ?io = "sample_io7\<lparr>im_kernel := (im_kernel sample_io7)(7 := None)\<rparr>"
  have c: "ctl sample_epoll EPOLL_CTL_DEL 7 0 sample_io7 = (0, ?io)"
    by (simp add: ctl_def sample_epoll_def sample_ctl_def sample_io7_def)
  obtain io2 where t: "trigger_if True READ 7 ?io = Inr io2" and e2: "fc_events (m_fdContexts io2 ! 7) = 0"
    by (rule sample_trigger)
  have "in_table 7 sample_io7" by (simp add: in_table_def sample_io7_ctx(1))
  with c t e2 sample_io7_events have "cancal_all sample_epoll 7 sample_io7 = Inr (True, io2)"
    by (simp add: cancal_all_def event_defs trigger_if_def)
  then show thesis by (rule that)
qed

theorem cancal_all_triggers_all_witness:
  "\<exists>io'. cancal_all sample_epoll 7 sample_io7 = Inr (True, io') \<and> m_pendingEventCount io' = 0 \<and>
     map_option m_tasks (im_schedulers io' 0) = Some [task_of_fiber (Some 9) None]"
proof -
  obtain io' where c: "cancal_all sample_epoll 7 sample_io7 = Inr (True, io')" by (rule sample_cancel)
  from cancal_all_triggers_all [OF sample_add_reach sample_epoll_law c refl]
  show ?thesis
    using c by (intro exI [of _ io'])
       (simp add: sample_io7_ctx queues_grow_def posted_def event_set_def event_context_of_def event_task_def
          ev_weight_def fd_context_new_def event_defs sample_io7_def fresh_io_def plain_scheduler_def caller_scheduler_def
          event_context_new_def)
qed

lemma subset_trigger:
  assumes "e \<in> {0, READ, WRITE, READ OR WRITE}" and "r \<in> {0, READ, WRITE, READ OR WRITE}"
  shows "(r AND NOT e = 0) \<longleftrightarrow> (r AND READ \<noteq> 0 \<longrightarrow> e AND READ \<noteq> 0) \<and>
    (r AND WRITE \<noteq> 0 \<longrightarrow> cleared_if (r AND READ \<noteq> 0) READ e AND WRITE \<noteq> 0)"
  using assms by (elim insertE emptyE) (simp_all add: cleared_if_def event_defs)

text \<open>C27: handling a reported event. The report stands for the events \<open>r\<close>: reading and writing as
  reported, and all registered events when it says error or hang-up. If none of them is registered
  it is ignored. If all are, exactly their tasks are scheduled, their bits cleared, the count
  lowered and the others stay registered. If only some are registered the handler never returns
  normally: the assertion in \<open>triggerEvent\<close> ends the process.\<close>

theorem handle_event_reports:
  fixes io :: "('u, 'k) io_manager"
  assumes "reach (io_start ep) (io_step ep held) io" and "epoll_law ep" and "i < 32"
    and "c = m_fdContexts io ! i" and "r = reported ev0 (fc_events c)"
  shows "(fc_events c AND r = 0 \<longrightarrow> handle_event ep (Fd_Ctx i, ev0) io = Inr io) \<and>
     (fc_events c AND r \<noteq> 0 \<longrightarrow>
        (\<forall>io'. handle_event ep (Fd_Ctx i, ev0) io = Inr io' \<longrightarrow>
           r AND NOT (fc_events c) = 0 \<and> fc_events (m_fdContexts io' ! i) = fc_events c AND NOT r \<and>
           m_fdContexts io' = (m_fdContexts io)[i := m_fdContexts io' ! i] \<and>
           m_pendingEventCount io' = m_pendingEventCount io - of_nat (ev_weight r) \<and>
           queues_grow (\<lambda>p. posted (r AND READ \<noteq> 0) (fc_read c) p @ posted (r AND WRITE \<noteq> 0) (fc_write c) p) io io'))"
proof -
  have "io_wf ep io" using io_safe.reach_inv [OF assms(1)] assms(2) by blast
  then have core: "io_core io" by (simp add: io_wf_def)
  have i: "i < length (m_fdContexts io)" using core assms(3) by (simp add: io_core_def)
  have fd: "fc_fd c = int i" and ok: "ctx_ok (alive io) c" using core i assms(4) by (simp_all add: io_core_def)
  have "handle_event ep (Fd_Ctx i, ev0) io = Inr io" if "fc_events c AND r = 0"
    by (rule handle_event_ignored [OF i]) (use that assms(4,5) in simp)
  moreover have "r AND NOT (fc_events c) = 0 \<and> fc_events (m_fdContexts io' ! i) = fc_events c AND NOT r \<and>
           m_fdContexts io' = (m_fdContexts io)[i := m_fdContexts io' ! i] \<and>
           m_pendingEventCount io' = m_pendingEventCount io - of_nat (ev_weight r) \<and>
           queues_grow (\<lambda>p. posted (r AND READ \<noteq> 0) (fc_read c) p @ posted (r AND WRITE \<noteq> 0) (fc_write c) p) io io'"
    if b: "fc_events c AND r \<noteq> 0" and run: "handle_event ep (Fd_Ctx i, ev0) io = Inr io'" for io'
  proof -
    let ?k = "ep_ctl ep (im_kernel io) (del_op (fc_events c AND NOT r)) (int i) (EPOLLET OR fc_events c AND NOT r)"
    let ?io = "io\<lparr>im_kernel := snd ?k\<rparr>"
    from run [unfolded handle_event_eq [OF i assms(4) fd assms(5) b refl]] obtain io2 where
      t1: "trigger_if (r AND READ \<noteq> 0) READ i ?io = Inr io2" and t2: "trigger_if (r AND WRITE \<noteq> 0) WRITE i io2 = Inr io'"
      by (auto split: if_splits simp: outcome_simps)
    have core1: "io_core ?io" using core by (simp add: io_core_def)
    have i1: "i < length (m_fdContexts ?io)" and c1: "c = m_fdContexts ?io ! i" using i assms(4) by simp_all
    note p = trigger_both_posts [OF core1 i1 t1 t2 c1]
    have r: "r \<in> {0, READ, WRITE, READ OR WRITE}" using real_events_of_in by (simp add: assms(5) reported_def)
    have "fc_events (m_fdContexts io' ! i) = fc_events c AND NOT r"
      using p(4) cleared_both [OF r] by simp
    moreover have "r AND NOT (fc_events c) = 0"
      using subset_trigger [OF ctx_ok_events [OF ok] r] p(5,6) by blast
    moreover have "queues_grow (\<lambda>p. posted (r AND READ \<noteq> 0) (fc_read c) p @ posted (r AND WRITE \<noteq> 0) (fc_write c) p) io io'"
      using p(1) by (simp add: queues_grow_def)
    ultimately show ?thesis
      using p(2,3) by (simp add: ev_weight_def algebra_simps)
  qed
  ultimately show ?thesis by blast
qed

theorem handle_event_reports_witness:
  "handle_event sample_epoll (Fd_Ctx 7, EPOLLOUT) sample_io7 = Inr sample_io7 \<and>
   (\<forall>io'. handle_event sample_epoll (Fd_Ctx 7, EPOLLIN OR EPOLLOUT) sample_io7 \<noteq> Inr io')"
proof -
  have e: "fc_events (m_fdContexts sample_io7 ! 7) = READ"
    by (simp add: sample_io7_ctx fd_context_new_def event_defs)
  have r: "reported EPOLLOUT READ = WRITE" "reported (EPOLLIN OR EPOLLOUT) READ = READ OR WRITE"
    by (simp_all add: reported_def real_events_of_def event_defs EPOLLIN_def EPOLLOUT_def EPOLLERR_def EPOLLHUP_def)
  have b: "READ AND WRITE = 0" "READ AND (READ OR WRITE) \<noteq> 0" "(READ OR WRITE) AND NOT READ \<noteq> 0"
    by (simp_all add: event_defs)
  note h = handle_event_reports [OF sample_add_reach sample_epoll_law _ refl refl, of 7, unfolded e]
  from h [of EPOLLOUT] h [of "EPOLLIN OR EPOLLOUT"] show ?thesis
    unfolding r using b by (simp del: handle_event.simps)
qed

text \<open>C32: the idle loop never handles an event. The result of \<open>epoll_wait\<close> is stored in a variable of
  the wait loop that hides the one the event loop reads, which stays 0. So a turn does the same
  whatever events are reported, changes no context, no count and no interest, and while any event
  is registered the loop never ends.\<close>

theorem idle_handles_no_event:
  fixes io :: "('u, 'k) io_manager"
  assumes "io_idle_turn ep now1 now2 a ws evs io = Inr (res, io')"
  shows "io_idle_turn ep now1 now2 a ws evs' io = Inr (res, io') \<and>
     m_fdContexts io' = m_fdContexts io \<and> m_pendingEventCount io' = m_pendingEventCount io \<and>
     im_kernel io' = im_kernel io \<and> (m_pendingEventCount io \<noteq> 0 \<longrightarrow> res \<noteq> Idle_Ends)"
proof -
  have "io_idle_turn ep now1 now2 a ws evs' io = io_idle_turn ep now1 now2 a ws evs io"
    unfolding io_idle_turn_def by (auto intro!: obind_cong split: option.splits dest!: idle_wait_rt)
  moreover have "res \<noteq> Idle_Ends" if "m_pendingEventCount io \<noteq> 0"
    using assms by (cases rule: io_idle_turn_Inr) (use that in auto)
  ultimately show ?thesis
    using assms io_idle_turn_same [OF assms] by (simp add: io_same_def)
qed

lemma sample_turn:
  "io_idle_turn sample_epoll 1000 1000 0 [(1, False)] [(Fd_Ctx 7, EPOLLIN)] sample_io7 =
     Inr (Idle_Yields [5], sample_io7)"
proof -
  have "get_next_timer 1000 (im_timers sample_io7) = (-1, im_timers sample_io7)"
    by (simp add: get_next_timer_def sample_io7_def fresh_io_def timer_manager_new_def)
  then have "io_stopping 1000 sample_io7 = Inr (False, -1, sample_io7)"
    by (simp add: io_stopping_def own_scheduler_def sample_io7_def fresh_io_def)
  moreover have "list_expired_cb 1000 0 [] (im_timers sample_io7) = Inr ([], im_timers sample_io7)"
    by (simp add: list_expired_cb_def sample_io7_def fresh_io_def timer_manager_new_def)
  ultimately show ?thesis
    by (simp add: io_idle_turn_def clamp_timeout_def MAX_TIMEOUT_def del: handle_event.simps)
qed

theorem idle_handles_no_event_witness:
  "io_idle_turn sample_epoll 1000 1000 0 [(1, False)] [] sample_io7 = Inr (Idle_Yields [5], sample_io7)"
  using idle_handles_no_event [OF sample_turn, of "[]"] by blast

lemma next_timer_expired [simp]:
  "expired_timers now (snd (get_next_timer now' m)) = expired_timers now m"
  "callback_of (snd (get_next_timer now' m)) = callback_of m"
  by (auto simp: expired_timers_def rolled_back_def callback_of_def get_next_timer_def Let_def fun_eq_iff split: list.splits)

text \<open>C28: due timers reach the queue. A turn of the idle loop that does not end it appends to the manager's
  own task queue the callbacks of exactly the timers whose deadline has come, earliest first and
  without the null ones, for any thread, and touches no other scheduler's queue.\<close>

theorem idle_schedules_due_timers:
  fixes io :: "('u, 'k) io_manager"
  assumes "reach (io_start ep) (io_step ep held) io" and "epoll_law ep"
    and "a \<notin> dom (timer_store (im_timers io))"
    and "io_idle_turn ep now1 now2 a ws evs io = Inr (Idle_Yields ps, io')"
  shows "queues_grow (\<lambda>p. if p = im_this io then map (\<lambda>cb. task_of_cb cb None)
       (filter (\<lambda>cb. cb \<noteq> None) (map (callback_of (im_timers io)) (expired_timers now2 (im_timers io)))) else []) io io'"
proof -
  have "io_wf ep io" using io_safe.reach_inv [OF assms(1)] assms(2) by blast
  then have tm: "tm_wf (im_timers io)" by (rule io_wf_timers)
  from assms(4) show ?thesis
  proof (cases rule: io_idle_turn_Inr)
    case (2 s ps' cbs tm')
    let ?m = "snd (get_next_timer now1 (im_timers io))"
    have "tm_wf ?m" "a \<notin> dom (timer_store ?m)" using tm assms(3) by (simp_all add: get_next_timer_wf)
    from list_expired_Inr(1) [OF this 2(5)]
    have cbs: "cbs = map (callback_of (im_timers io)) (expired_timers now2 (im_timers io))" by simp
    have sch: "im_schedulers io' = (im_schedulers io)(im_this io \<mapsto>
        fold (\<lambda>t s. snd (schedule t s)) (map (\<lambda>cb. task_of_cb cb None) cbs) s)"
      using post_callbacks_Inr [OF 2(6)] 2(1) by simp
    have "m_tasks (fold (\<lambda>t s. snd (schedule t s)) (map (\<lambda>cb. task_of_cb cb None) cbs) s) =
        m_tasks s @ map (\<lambda>cb. task_of_cb cb None) (filter (\<lambda>cb. cb \<noteq> None) cbs)"
      by (simp only: sq.pending_fold) (simp add: filter_map comp_def)
    then show ?thesis
      unfolding queues_grow_def using sch 2(1) cbs by (auto simp: option.map_ident)
  qed auto
qed

text \<open>The manager's timers get the three timers of the sample, with numbered user callbacks.\<close>

definition sample_tm :: "nat sched_fn timer_manager" where
  "sample_tm = \<lparr>timer_store =
       [1 \<mapsto> \<lparr>m_recurring = False, m_ms = 10, m_next = 1010, m_cb = Some (User_Fn 1)\<rparr>,
        2 \<mapsto> \<lparr>m_recurring = False, m_ms = 30, m_next = 1030, m_cb = Some (User_Fn 2)\<rparr>],
     m_timers = [1, 2], m_tickled = True, m_previouseTime = 1000\<rparr>"

definition sample_io_tm :: "(nat, int \<Rightarrow> event_bits option) io_manager" where
  "sample_io_tm = sample_io\<lparr>im_timers := sample_tm\<rparr>"

lemma sample_tm_reach: "reach (io_start sample_epoll) (io_step sample_epoll {}) sample_io_tm"
proof -
  let ?tm0 = "timer_manager_new 1000 :: nat sched_fn timer_manager"
  let ?tm1 = "\<lparr>timer_store = [1 \<mapsto> \<lparr>m_recurring = False, m_ms = 10, m_next = 1010, m_cb = Some (User_Fn 1)\<rparr>],
     m_timers = [1], m_tickled = True, m_previouseTime = 1000\<rparr>"
  have "add_timer 1000 1 10 (Some (User_Fn 1)) False ?tm0 = Inr (True, ?tm1)"
    by (simp add: add_timer_def timer_new_def add_timer_locked_def timer_manager_new_def set_insert_def
        set_lower_bound_def ms_in_range_def Let_def)
  then have "tm_step {} ?tm0 ?tm1"
    by (rule tm_step.add [rotated]) (simp add: timer_manager_new_def)
  then have "io_step sample_epoll {} sample_io (sample_io\<lparr>im_timers := ?tm1\<rparr>)"
    by (intro io_timer) (simp add: fresh_io_def)
  then have r1: "reach (io_start sample_epoll) (io_step sample_epoll {}) (sample_io\<lparr>im_timers := ?tm1\<rparr>)"
    by (rule reach_step [OF sample_io_reach])
  have "add_timer 1000 2 30 (Some (User_Fn 2)) False ?tm1 = Inr (False, sample_tm)"
    by (simp add: add_timer_def timer_new_def add_timer_locked_def sample_tm_def set_insert_def
        set_lower_bound_def ms_in_range_def Let_def next_of_def timer_cmp_iff less_timer_key_def)
  then have "tm_step {} ?tm1 sample_tm"
    by (rule tm_step.add [rotated]) simp
  then have "io_step sample_epoll {} (sample_io\<lparr>im_timers := ?tm1\<rparr>) sample_io_tm"
    using io_timer [of "{}" "sample_io\<lparr>im_timers := ?tm1\<rparr>" sample_tm sample_epoll]
    by (simp add: sample_io_tm_def)
  then show ?thesis by (rule reach_step [OF r1])
qed

lemma sample_turn_tm:
  "\<exists>io'. io_idle_turn sample_epoll 1000 1020 0 [(0, False)] [] sample_io_tm = Inr (Idle_Yields [0], io')"
proof -
  let ?m = "sample_tm\<lparr>m_tickled := False\<rparr>"
  let ?io = "sample_io_tm\<lparr>im_timers := ?m\<rparr>"
  have "get_next_timer 1000 sample_tm = (10, ?m)"
    by (simp add: get_next_timer_def sample_tm_def next_of_def)
  then have st: "io_stopping 1000 sample_io_tm = Inr (False, 10, ?io)"
    by (simp add: io_stopping_def own_scheduler_def sample_io_tm_def fresh_io_def)
  have wf: "tm_wf ?m" by (simp add: tm_wf_def sample_tm_def timer_cmp_iff less_timer_key_def next_of_def)
  have a: "0 \<notin> dom (timer_store ?m)" by (simp add: sample_tm_def)
  have ex: "expired_timers 1020 ?m = [1]" "callback_of ?m 1 = Some (User_Fn 1)"
    by (simp_all add: expired_timers_def rolled_back_def sample_tm_def next_of_def callback_of_def)
  obtain cbs tm where e: "list_expired_cb 1020 0 [] ?m = Inr (cbs, tm)"
    using list_expired_total [OF wf a, of 1020 "[]"] ex by (auto simp: sample_tm_def)
  have cbs: "cbs = [Some (User_Fn 1)]"
    using list_expired_Inr(1) [OF wf a e] ex by simp
  have s: "im_schedulers sample_io_tm 0 = Some (sample_plain\<lparr>m_threads := [1], m_threadIds := [1]\<rparr>)"
    "im_this sample_io_tm = 0"
    by (simp_all add: sample_io_tm_def fresh_io_def)
  obtain io1 where "post (Some 0) (task_of_cb (Some (User_Fn 1)) None) (?io\<lparr>im_timers := tm\<rparr>) = Inr io1"
    by (simp add: post_def s Let_def io_tickle_def own_scheduler_def hasIdleThreads_def
        plain_scheduler_def caller_scheduler_def schedule_def schedule_no_lock_def)
  then have "post_callbacks [Some (User_Fn 1)] (?io\<lparr>im_timers := tm\<rparr>) = Inr io1"
    by (simp add: s(2))
  with e show ?thesis
    unfolding io_idle_turn_def st cbs by (simp add: clamp_timeout_def MAX_TIMEOUT_def)
qed

theorem idle_schedules_due_timers_witness:
  "\<exists>io'. io_idle_turn sample_epoll 1000 1020 0 [(0, False)] [] sample_io_tm = Inr (Idle_Yields [0], io') \<and>
     map_option m_tasks (im_schedulers io' 0) = Some [task_of_cb (Some (User_Fn 1)) None]"
proof -
  obtain io' where t: "io_idle_turn sample_epoll 1000 1020 0 [(0, False)] [] sample_io_tm = Inr (Idle_Yields [0], io')"
    using sample_turn_tm by blast
  have a: "0 \<notin> dom (timer_store (im_timers sample_io_tm))" by (simp add: sample_io_tm_def sample_tm_def)
  from idle_schedules_due_timers [OF sample_tm_reach sample_epoll_law a t]
  have "map_option m_tasks (im_schedulers io' 0) = Some [task_of_cb (Some (User_Fn 1)) None]"
    by (simp add: queues_grow_def sample_io_tm_def fresh_io_def plain_scheduler_def caller_scheduler_def sample_tm_def
        expired_timers_def rolled_back_def callback_of_def next_of_def)
  with t show ?thesis by blast
qed

text \<open>How long the idle loop sleeps. Every timeout a turn passes to \<open>epoll_wait\<close>, which
  takes milliseconds, is between 0 and 5 (the bound of 5 seconds is divided by 1000 first), also
  after interrupted calls, and with a timer pending at most a thousandth of the time left: no
  deadline is slept through, and a deadline less than a second away makes the loop poll.\<close>

theorem idle_timeouts_bounded:
  fixes io :: "('u, 'k) io_manager"
  assumes "reach (io_start ep) (io_step ep held) io" and "epoll_law ep"
    and "io_idle_turn ep now1 now2 a ws evs io = Inr (Idle_Yields ps, io')" and "t \<in> set ps"
  shows "0 \<le> t \<and> t \<le> 5 \<and> (m_timers (im_timers io) \<noteq> [] \<longrightarrow>
     (\<forall>p\<in>set (m_timers (im_timers io)). now1 + 1000 * t \<le> max now1 (next_of (timer_store (im_timers io)) p)))"
proof -
  have "io_wf ep io" using io_safe.reach_inv [OF assms(1)] assms(2) by blast
  then have tm: "tm_wf (im_timers io)" by (rule io_wf_timers)
  let ?m = "im_timers io"
  from assms(3) obtain w where w: "idle_wait 0 (fst (get_next_timer now1 ?m)) ws = Some (ps, 0)"
    by (cases rule: io_idle_turn_Inr) auto
  note b = tsrc.turn_timeouts [OF tm w assms(4)]
  have "now1 + 1000 * t \<le> max now1 (next_of (timer_store ?m) p)" if "p \<in> set (m_timers ?m)" for p
  proof (cases "m_timers ?m")
    case Nil
    with that show ?thesis by simp
  next
    case (Cons q qs)
    then have "next_of (timer_store ?m) q \<le> next_of (timer_store ?m) p"
      using that tm_wf_sorted [OF tm] sorted_next_le [of "timer_store ?m" q qs p] by auto
    moreover have "1000 * t \<le> fst (get_next_timer now1 ?m)" using b Cons by simp
    ultimately show ?thesis
      using Cons by (auto simp: get_next_timer_def Let_def split: if_splits)
  qed
  with b show ?thesis by blast
qed

theorem idle_timeouts_bounded_witness:
  "\<exists>io'. io_idle_turn sample_epoll 1000 1020 0 [(0, False)] [] sample_io_tm = Inr (Idle_Yields [0], io') \<and> (0 :: int) \<le> 5"
proof -
  obtain io' where t: "io_idle_turn sample_epoll 1000 1020 0 [(0, False)] [] sample_io_tm = Inr (Idle_Yields [0], io')"
    using sample_turn_tm by blast
  from idle_timeouts_bounded [OF sample_tm_reach sample_epoll_law t, of 0] t show ?thesis by auto
qed

text \<open>Every event bit is counted, so the count is zero exactly when no bit is set.\<close>

lemma ev_weight_zero: "e \<in> {0, READ, WRITE, READ OR WRITE} \<Longrightarrow> ev_weight e = 0 \<longleftrightarrow> e = 0"
  by (elim insertE emptyE) (simp_all add: ev_weight_def event_defs)

lemma ev_weight_le: "ev_weight e \<le> 2"
  by (simp add: ev_weight_def)

lemma io_core_no_events:
  assumes core: "io_core io"
  shows "m_pendingEventCount io = 0 \<longleftrightarrow> (\<forall>c\<in>set (m_fdContexts io). fc_events c = 0)"
proof -
  let ?w = "ev_weight \<circ> fc_events"
  have len: "length (m_fdContexts io) = 32" using core by (simp add: io_core_def)
  have "sum_list (map ?w cs) \<le> 2 * length cs" for cs :: "'a fd_context list"
  proof (induction cs)
    case (Cons c cs)
    with ev_weight_le [of "fc_events c"] show ?case by simp
  qed simp
  from this [of "m_fdContexts io"] len have "sum_list (map ?w (m_fdContexts io)) \<le> 64" by simp
  then have "unat (m_pendingEventCount io) = sum_list (map ?w (m_fdContexts io))"
    using core by (simp add: io_core_def unat_of_nat take_bit_nat_eq_self)
  then have "m_pendingEventCount io = 0 \<longleftrightarrow> sum_list (map ?w (m_fdContexts io)) = 0"
    by (metis unsigned_0 unat_eq_zero)
  also have "\<dots> \<longleftrightarrow> (\<forall>c\<in>set (m_fdContexts io). ?w c = 0)" by auto
  also have "\<dots> \<longleftrightarrow> (\<forall>c\<in>set (m_fdContexts io). fc_events c = 0)"
  proof -
    have "fc_events c \<in> {0, READ, WRITE, READ OR WRITE}" if "c \<in> set (m_fdContexts io)" for c
      using that core ctx_ok_events unfolding io_core_def in_set_conv_nth by blast
    then show ?thesis using ev_weight_zero by (metis comp_apply)
  qed
  finally show ?thesis .
qed

text \<open>C33: when the idle loop may end. In every state the manager reaches, the idle loop ends in a turn
  exactly if a stop was requested, its scheduler's queue is empty, no worker runs a task, no timer
  is armed and no descriptor has a registered event; and no turn, whatever \<open>epoll_wait\<close>
  reports, changes the event tables. So one registered event keeps the workers alive until some
  thread removes or cancels it, as its arrival does not.\<close>

theorem idle_ends_only_drained:
  fixes io :: "('u, 'k) io_manager"
  assumes "reach (io_start ep) (io_step ep held) io" and "epoll_law ep"
    and "io_idle_turn ep now1 now2 a ws evs io = Inr (res, io')" and "im_schedulers io (im_this io) = Some s"
  shows "(res = Idle_Ends \<longleftrightarrow> m_stopping s \<and> m_tasks s = [] \<and> m_activeThreadCount s = 0 \<and>
       m_timers (im_timers io) = [] \<and> (\<forall>c\<in>set (m_fdContexts io). fc_events c = 0)) \<and>
     m_fdContexts io' = m_fdContexts io"
proof -
  have wf: "io_wf ep io" using io_safe.reach_inv [OF assms(1)] assms(2) by blast
  then have core: "io_core io" by (simp add: io_wf_def)
  have none: "fst (get_next_timer now1 (im_timers io)) = ms_none \<longleftrightarrow> m_timers (im_timers io) = []"
    by (rule tsrc.next_none [OF io_wf_timers [OF wf]])
  have "res = Idle_Ends \<longleftrightarrow> m_timers (im_timers io) = [] \<and> m_pendingEventCount io = 0 \<and> scheduler_stopping s"
    using assms(3)
  proof (cases rule: io_idle_turn_Inr)
    case (1 s')
    with assms(4) none show ?thesis by simp
  next
    case (2 s' ps cbs tm)
    with assms(4) none show ?thesis by simp
  qed
  then show ?thesis
    using io_idle_turn_same [OF assms(3)] io_core_no_events [OF core]
    by (auto simp: scheduler_stopping_def io_same_def)
qed

text \<open>The sample manager after a stop was requested.\<close>

definition sample_io_stop :: "(nat, int \<Rightarrow> event_bits option) io_manager" where
  "sample_io_stop = sample_io\<lparr>im_schedulers := (im_schedulers sample_io)(0 \<mapsto> sample_plain\<lparr>m_stopping := True\<rparr>)\<rparr>"

lemma sample_io_stop_reach: "reach (io_start sample_epoll) (io_step sample_epoll {}) sample_io_stop"
  unfolding sample_io_stop_def
  by (rule reach_step [OF sample_io_reach], rule io_worker) (simp add: fresh_io_def)

theorem idle_ends_only_drained_witness:
  "\<exists>io'. io_idle_turn sample_epoll 1000 1020 0 [(0, False)] [] sample_io_stop = Inr (Idle_Ends, io')"
proof -
  have s: "im_schedulers sample_io_stop (im_this sample_io_stop) = Some (sample_plain\<lparr>m_stopping := True\<rparr>)"
    by (simp add: sample_io_stop_def fresh_io_def)
  have "\<exists>res io'. io_idle_turn sample_epoll 1000 1020 0 [(0, False)] [] sample_io_stop = Inr (res, io')"
    by (simp add: io_idle_turn_def io_stopping_def own_scheduler_def sample_io_stop_def fresh_io_def get_next_timer_def
        timer_manager_new_def scheduler_stopping_def plain_scheduler_def caller_scheduler_def Let_def)
  then obtain res io' where
    t: "io_idle_turn sample_epoll 1000 1020 0 [(0, False)] [] sample_io_stop = Inr (res, io')" by blast
  have "m_timers (im_timers sample_io_stop) = []"
    by (simp add: sample_io_stop_def fresh_io_def timer_manager_new_def)
  moreover have "\<forall>c\<in>set (m_fdContexts sample_io_stop). fc_events c = 0"
    by (auto simp: sample_io_stop_def fresh_io_def fd_context_new_def event_defs simp del: upt_conv_Cons upt_Suc upt_rec_numeral)
  ultimately have "res = Idle_Ends"
    using idle_ends_only_drained [OF sample_io_stop_reach sample_epoll_law t s]
    by (simp add: plain_scheduler_def caller_scheduler_def)
  with t show ?thesis by blast
qed

text \<open>\<open>n\<close> calls of \<open>tickle\<close> in a row.\<close>

fun tickles :: "nat \<Rightarrow> ('u, 'k) io_manager \<Rightarrow> ('u, 'k) io_manager outcome" where
  "tickles 0 io = Inr io"
| "tickles (Suc n) io = obind (io_tickle io) (tickles n)"

lemma tickles_idle:
  assumes "im_schedulers io (im_this io) = Some s" and "hasIdleThreads s"
  shows "tickles n io = (if n \<le> im_pipe_room io then Inr (io\<lparr>im_pipe_room := im_pipe_room io - n\<rparr>) else Inl Would_Block)"
  using assms
proof (induction n arbitrary: io)
  case (Suc n)
  then show ?case
    using Suc.IH [of "io\<lparr>im_pipe_room := im_pipe_room io - 1\<rparr>"]
    by (auto simp: io_tickle_def own_scheduler_def)
qed simp

lemma io_tickle_room: "io_tickle io = Inr io' \<Longrightarrow> im_pipe_room io' \<le> im_pipe_room io"
  by (auto simp: io_tickle_def own_scheduler_def outcome_simps split: if_splits)

lemma post_room: "post p task io = Inr io' \<Longrightarrow> im_pipe_room io' \<le> im_pipe_room io"
  by (auto simp: post_def Let_def outcome_simps split: option.splits if_splits dest!: io_tickle_room)

lemma post_callbacks_room: "post_callbacks cbs io = Inr io' \<Longrightarrow> im_pipe_room io' \<le> im_pipe_room io"
proof (induction cbs arbitrary: io)
  case (Cons cb cbs)
  then obtain io1 where "post (Some (im_this io)) (task_of_cb cb None) io = Inr io1" "post_callbacks cbs io1 = Inr io'"
    by auto
  with Cons.IH post_room show ?case by fastforce
qed simp

text \<open>Waking up runs out. While a thread is idle every \<open>tickle\<close> puts a byte into the pipe, and no
  turn of the idle loop takes one out; so exactly as many calls return as there is room left in the
  pipe, and the next one blocks the calling thread in \<open>write\<close>.\<close>

theorem tickle_exhausts_pipe:
  fixes io :: "('u, 'k) io_manager"
  assumes "im_schedulers io (im_this io) = Some s" and "hasIdleThreads s"
  shows "(\<forall>n. n \<le> im_pipe_room io \<longrightarrow> tickles n io = Inr (io\<lparr>im_pipe_room := im_pipe_room io - n\<rparr>)) \<and>
     (\<forall>n. im_pipe_room io < n \<longrightarrow> tickles n io = Inl Would_Block) \<and>
     (\<forall>ep now1 now2 a ws evs res io'. io_idle_turn ep now1 now2 a ws evs io = Inr (res, io') \<longrightarrow>
        im_pipe_room io' \<le> im_pipe_room io)"
proof -
  have "im_pipe_room io' \<le> im_pipe_room io" if "io_idle_turn ep now1 now2 a ws evs io = Inr (res, io')"
    for ep :: "'k epoll" and now1 now2 a ws evs res io'
    using that
  proof (cases rule: io_idle_turn_Inr)
    case (2 s ps cbs tm)
    from post_callbacks_room [OF 2(6)] show ?thesis by simp
  qed simp
  then show ?thesis
    using tickles_idle [OF assms] by auto
qed

theorem tickle_exhausts_pipe_witness:
  "tickles 3 (sample_io\<lparr>im_schedulers := [0 \<mapsto> sample_plain\<lparr>m_idleThreadCount := 1\<rparr>]\<rparr>) = Inl Would_Block"
proof -
  let ?io = "sample_io\<lparr>im_schedulers := [0 \<mapsto> sample_plain\<lparr>m_idleThreadCount := 1\<rparr>]\<rparr>"
  have "im_schedulers ?io (im_this ?io) = Some (sample_plain\<lparr>m_idleThreadCount := 1\<rparr>)"
    by (simp add: fresh_io_def)
  moreover have "hasIdleThreads (sample_plain\<lparr>m_idleThreadCount := 1\<rparr>)" by (simp add: hasIdleThreads_def)
  ultimately have "\<forall>n. im_pipe_room ?io < n \<longrightarrow> tickles n ?io = Inl Would_Block"
    using tickle_exhausts_pipe [of ?io] by blast
  moreover have "im_pipe_room ?io = 2" by (simp add: fresh_io_def)
  ultimately show ?thesis by simp
qed

end
