(* ===== verification/Io_Concurrent.thy ===== *)
theory Io_Concurrent
  imports IO_Manager
begin

text \<open>
  Several threads in \<open>addEvent\<close>, \<open>delEvent\<close> and \<open>cancelEvent\<close> at the same time. A step
  is what one thread does between two points at which another can interfere: the read of a
  context's bits, the call of \<open>epoll_ctl\<close>, the change of the atomic counter, the write of the
  context. \<open>delEvent\<close> and \<open>cancelEvent\<close> hold the mutex of the descriptor's context from the first
  of these to the last; \<open>addEvent\<close> never takes it. Only descriptors inside the table are
  considered, so the table itself does not change.
\<close>

section \<open>Threads\<close>

text \<open>What is asked for; an \<open>addEvent\<close> with the scheduler and the fiber of its thread and the callback.\<close>

datatype 'u event_op = Op_Add nat nat "'u sched_fn option" | Op_Del | Op_Cancel

record 'u request =
  rq_op :: "'u event_op"
  rq_fd :: int
  rq_event :: event_bits

text \<open>
  Where a thread is: outside, with the result of its last call; with the context found; with
  the bits read and the arguments of \<open>epoll_ctl\<close> computed; after \<open>epoll_ctl\<close>; after the first of the
  two remaining writes.
\<close>

datatype 'u io_pc =
    Outside bool
  | Aborted string
  | Entered "'u request"
  | Decided "'u request" epoll_op event_bits
  | Changed "'u request" event_bits
  | Counted "'u request" event_bits

record ('u, 'k) io_pool =
  ip_io :: "('u, 'k) io_manager"
  ip_locks :: "int set"
  ip_pcs :: "'u io_pc list"

definition is_add :: "'u request \<Rightarrow> bool" where
  "is_add rq \<longleftrightarrow> (case rq_op rq of Op_Add _ _ _ \<Rightarrow> True | _ \<Rightarrow> False)"

definition ipc_at :: "('u, 'k) io_pool \<Rightarrow> nat \<Rightarrow> 'u io_pc \<Rightarrow> bool" where
  "ipc_at s i x \<longleftrightarrow> i < length (ip_pcs s) \<and> ip_pcs s ! i = x"

definition rq_context :: "('u, 'k) io_manager \<Rightarrow> 'u request \<Rightarrow> 'u fd_context" where
  "rq_context io rq = m_fdContexts io ! nat (rq_fd rq)"

definition put_context :: "'u request \<Rightarrow> 'u fd_context \<Rightarrow> ('u, 'k) io_manager \<Rightarrow> ('u, 'k) io_manager" where
  "put_context rq c io = io\<lparr>m_fdContexts := (m_fdContexts io)[nat (rq_fd rq) := c]\<rparr>"

text \<open>Thread \<open>i\<close> goes on; the manager and the mutexes held afterwards are given.\<close>

definition ip_go :: "nat \<Rightarrow> 'u io_pc \<Rightarrow> ('u, 'k) io_manager \<Rightarrow> int set \<Rightarrow> ('u, 'k) io_pool \<Rightarrow> ('u, 'k) io_pool" where
  "ip_go i x io locks s = s\<lparr>ip_io := io, ip_locks := locks, ip_pcs := (ip_pcs s)[i := x]\<rparr>"

definition request_ok :: "('u, 'k) io_manager \<Rightarrow> 'u request \<Rightarrow> bool" where
  "request_ok io rq \<longleftrightarrow> in_table (rq_fd rq) io \<and> (rq_event rq = READ \<or> rq_event rq = WRITE) \<and>
     (case rq_op rq of Op_Add p _ _ \<Rightarrow> alive io p | _ \<Rightarrow> True)"

section \<open>Steps\<close>

text \<open>\<open>G\<close> says which calls a thread may begin in which state.\<close>

inductive io_pool_step ::
  "'k epoll \<Rightarrow> (('u, 'k) io_pool \<Rightarrow> nat \<Rightarrow> 'u request \<Rightarrow> bool) \<Rightarrow> ('u, 'k) io_pool \<Rightarrow> ('u, 'k) io_pool \<Rightarrow> bool"
  for ep :: "'k epoll" and G :: "('u, 'k) io_pool \<Rightarrow> nat \<Rightarrow> 'u request \<Rightarrow> bool" where
  ic_enter:
    "ipc_at s i (Outside b) \<Longrightarrow> request_ok (ip_io s) rq \<Longrightarrow> G s i rq \<Longrightarrow>
     io_pool_step ep G s (ip_go i (Entered rq) (ip_io s) (ip_locks s) s)"
| ic_add_read:
    "ipc_at s i (Entered rq) \<Longrightarrow> is_add rq \<Longrightarrow> e = fc_events (rq_context (ip_io s) rq) \<Longrightarrow> e AND rq_event rq = 0 \<Longrightarrow>
     io_pool_step ep G s (ip_go i (Decided rq (add_op e) (e OR rq_event rq)) (ip_io s) (ip_locks s) s)"
| ic_add_twice:
    "ipc_at s i (Entered rq) \<Longrightarrow> is_add rq \<Longrightarrow> fc_events (rq_context (ip_io s) rq) AND rq_event rq \<noteq> 0 \<Longrightarrow>
     io_pool_step ep G s (ip_go i (Aborted ''can not add same event in the same fd'') (ip_io s) (ip_locks s) s)"
| ic_lock:
    "ipc_at s i (Entered rq) \<Longrightarrow> \<not> is_add rq \<Longrightarrow> rq_fd rq \<notin> ip_locks s \<Longrightarrow>
     e = fc_events (rq_context (ip_io s) rq) \<Longrightarrow> e AND rq_event rq \<noteq> 0 \<Longrightarrow> new = e AND NOT (rq_event rq) \<Longrightarrow>
     io_pool_step ep G s (ip_go i (Decided rq (del_op new) new) (ip_io s) (insert (rq_fd rq) (ip_locks s)) s)"
| ic_none:
    "ipc_at s i (Entered rq) \<Longrightarrow> \<not> is_add rq \<Longrightarrow> rq_fd rq \<notin> ip_locks s \<Longrightarrow>
     fc_events (rq_context (ip_io s) rq) AND rq_event rq = 0 \<Longrightarrow>
     io_pool_step ep G s (ip_go i (Outside False) (ip_io s) (ip_locks s) s)"
| ic_ctl:
    "ipc_at s i (Decided rq op new) \<Longrightarrow> ep_ctl ep (im_kernel (ip_io s)) op (rq_fd rq) (EPOLLET OR new) = (0, k) \<Longrightarrow>
     io_pool_step ep G s (ip_go i (Changed rq new) ((ip_io s)\<lparr>im_kernel := k\<rparr>) (ip_locks s) s)"
| ic_ctl_fails:
    "ipc_at s i (Decided rq op new) \<Longrightarrow> ep_ctl ep (im_kernel (ip_io s)) op (rq_fd rq) (EPOLLET OR new) = (r, k) \<Longrightarrow> r \<noteq> 0 \<Longrightarrow>
     io_pool_step ep G s (ip_go i (Outside False) ((ip_io s)\<lparr>im_kernel := k\<rparr>)
       (if is_add rq then ip_locks s else ip_locks s - {rq_fd rq}) s)"
| ic_add_count:
    "ipc_at s i (Changed rq new) \<Longrightarrow> is_add rq \<Longrightarrow>
     io_pool_step ep G s (ip_go i (Counted rq new)
       ((ip_io s)\<lparr>m_pendingEventCount := m_pendingEventCount (ip_io s) + 1\<rparr>) (ip_locks s) s)"
| ic_add_set:
    "ipc_at s i (Counted rq new) \<Longrightarrow> rq_op rq = Op_Add p q cb \<Longrightarrow> get_event_context (rq_event rq) = Inr sl \<Longrightarrow>
     c = rq_context (ip_io s) rq \<Longrightarrow> slot_ctx sl c = event_context_new \<Longrightarrow>
     io_pool_step ep G s (ip_go i (Outside True)
       (put_context rq (event_set sl (rq_event rq) (event_context_of (Some p) q cb) c) (ip_io s)) (ip_locks s) s)"
| ic_add_used:
    "ipc_at s i (Counted rq new) \<Longrightarrow> is_add rq \<Longrightarrow> get_event_context (rq_event rq) = Inr sl \<Longrightarrow>
     slot_ctx sl (rq_context (ip_io s) rq) \<noteq> event_context_new \<Longrightarrow>
     io_pool_step ep G s (ip_go i (Aborted ''!event_ctx.scheduler && !event_ctx.fiber && !event_ctx.cb'') (ip_io s) (ip_locks s) s)"
| ic_del_count:
    "ipc_at s i (Changed rq new) \<Longrightarrow> rq_op rq = Op_Del \<Longrightarrow>
     io_pool_step ep G s (ip_go i (Counted rq new)
       ((ip_io s)\<lparr>m_pendingEventCount := m_pendingEventCount (ip_io s) - 1\<rparr>) (ip_locks s) s)"
| ic_del_set:
    "ipc_at s i (Counted rq new) \<Longrightarrow> rq_op rq = Op_Del \<Longrightarrow> get_event_context (rq_event rq) = Inr sl \<Longrightarrow>
     io_pool_step ep G s (ip_go i (Outside True)
       (put_context rq (reset_event_context sl ((rq_context (ip_io s) rq)\<lparr>fc_events := new\<rparr>)) (ip_io s))
       (ip_locks s - {rq_fd rq}) s)"
| ic_cancel_trigger:
    "ipc_at s i (Changed rq new) \<Longrightarrow> rq_op rq = Op_Cancel \<Longrightarrow>
     trigger_event (rq_event rq) (nat (rq_fd rq)) (ip_io s) = Inr io \<Longrightarrow>
     io_pool_step ep G s (ip_go i (Counted rq new) io (ip_locks s) s)"
| ic_cancel_abort:
    "ipc_at s i (Changed rq new) \<Longrightarrow> rq_op rq = Op_Cancel \<Longrightarrow>
     trigger_event (rq_event rq) (nat (rq_fd rq)) (ip_io s) = Inl e \<Longrightarrow> e \<noteq> Would_Block \<Longrightarrow>
     io_pool_step ep G s (ip_go i (Aborted ''events & event'') (ip_io s) (ip_locks s) s)"
| ic_cancel_count:
    "ipc_at s i (Counted rq new) \<Longrightarrow> rq_op rq = Op_Cancel \<Longrightarrow>
     io_pool_step ep G s (ip_go i (Outside True)
       ((ip_io s)\<lparr>m_pendingEventCount := m_pendingEventCount (ip_io s) - 1\<rparr>) (ip_locks s - {rq_fd rq}) s)"
| ic_schedule:
    "post p task (ip_io s) = Inr io \<Longrightarrow> io_pool_step ep G s (s\<lparr>ip_io := io\<rparr>)"

definition io_pool_start :: "'k epoll \<Rightarrow> nat set \<Rightarrow> ('u, 'k) io_pool \<Rightarrow> bool" where
  "io_pool_start ep held s \<longleftrightarrow> reach (io_start ep) (io_step ep held) (ip_io s) \<and> ip_locks s = {} \<and>
     (\<forall>x\<in>set (ip_pcs s). \<exists>b. x = Outside b)"

text \<open>The discipline: while a thread is in \<open>addEvent\<close> no other is in any operation on the same descriptor.\<close>

fun busy :: "'u io_pc \<Rightarrow> 'u request option" where
  "busy (Outside b) = None"
| "busy (Aborted e) = None"
| "busy (Entered rq) = Some rq"
| "busy (Decided rq op new) = Some rq"
| "busy (Changed rq new) = Some rq"
| "busy (Counted rq new) = Some rq"

definition adds_alone :: "('u, 'k) io_pool \<Rightarrow> nat \<Rightarrow> 'u request \<Rightarrow> bool" where
  "adds_alone s i rq \<longleftrightarrow> (\<forall>j<length (ip_pcs s). j \<noteq> i \<longrightarrow>
     (case busy (ip_pcs s ! j) of None \<Rightarrow> True | Some r \<Rightarrow> rq_fd r = rq_fd rq \<longrightarrow> \<not> is_add rq \<and> \<not> is_add r))"

section \<open>The discipline makes the operations atomic\<close>

text \<open>
  The tables as other threads will find them: a thread that has changed the kernel's interest list
  and not yet the context counts as if it had finished.
\<close>

fun inflight :: "'u io_pc \<Rightarrow> 'u request option" where
  "inflight (Changed rq new) = Some rq"
| "inflight (Counted rq new) = (if rq_op rq = Op_Cancel then None else Some rq)"
| "inflight _ = None"

text \<open>What the thread still adds to the counter.\<close>

fun owed :: "'u io_pc \<Rightarrow> 64 word" where
  "owed (Changed rq new) = (if is_add rq then 1 else - 1)"
| "owed (Counted rq new) = (if rq_op rq = Op_Cancel then - 1 else 0)"
| "owed _ = 0"

definition rq_slot :: "'u request \<Rightarrow> event_slot" where
  "rq_slot rq = (if rq_event rq = READ then Read_Slot else Write_Slot)"

definition finish :: "'u request \<Rightarrow> 'u fd_context \<Rightarrow> 'u fd_context" where
  "finish rq c = (case rq_op rq of
     Op_Add p q cb \<Rightarrow> event_set (rq_slot rq) (rq_event rq) (event_context_of (Some p) q cb) c
   | _ \<Rightarrow> event_cleared (rq_slot rq) (rq_event rq) c)"

definition atomic_view :: "('u, 'k) io_manager \<Rightarrow> 64 word \<Rightarrow> 'u fd_context list \<Rightarrow> ('u, 'k) io_manager" where
  "atomic_view io n cs = io\<lparr>m_pendingEventCount := n, m_fdContexts := cs\<rparr>"

definition view_ok :: "'u io_pc list \<Rightarrow> 'u fd_context list \<Rightarrow> 'u fd_context list \<Rightarrow> bool" where
  "view_ok pcs xs cs \<longleftrightarrow> length cs = length xs \<and>
     (\<forall>i<length pcs. \<forall>rq. inflight (pcs ! i) = Some rq \<longrightarrow> cs ! nat (rq_fd rq) = finish rq (xs ! nat (rq_fd rq))) \<and>
     (\<forall>d<length xs. (\<forall>i<length pcs. \<forall>rq. inflight (pcs ! i) = Some rq \<longrightarrow> nat (rq_fd rq) \<noteq> d) \<longrightarrow> cs ! d = xs ! d)"

text \<open>Threads that have read the bits of their descriptor.\<close>

fun past :: "'u io_pc \<Rightarrow> 'u request option" where
  "past (Decided rq op new) = Some rq"
| "past (Changed rq new) = Some rq"
| "past (Counted rq new) = Some rq"
| "past _ = None"

definition apart :: "'u io_pc \<Rightarrow> 'u io_pc \<Rightarrow> bool" where
  "apart x y \<longleftrightarrow> (\<forall>a b. busy x = Some a \<longrightarrow> busy y = Some b \<longrightarrow> rq_fd a = rq_fd b \<longrightarrow>
     \<not> is_add a \<and> \<not> is_add b \<and> (past x = None \<or> past y = None))"

text \<open>What a thread knows.\<close>

definition bits_left :: "'u request \<Rightarrow> event_bits \<Rightarrow> event_bits \<Rightarrow> bool" where
  "bits_left rq e new \<longleftrightarrow>
     (if is_add rq then e AND rq_event rq = 0 \<and> new = e OR rq_event rq
      else e AND rq_event rq \<noteq> 0 \<and> new = e AND NOT (rq_event rq))"

fun knows :: "('u, 'k) io_manager \<Rightarrow> 'u io_pc \<Rightarrow> bool" where
  "knows io (Outside b) = True"
| "knows io (Aborted msg) = (msg = ''can not add same event in the same fd'')"
| "knows io (Entered rq) = request_ok io rq"
| "knows io (Decided rq op new) = (request_ok io rq \<and> bits_left rq (fc_events (rq_context io rq)) new \<and>
     op = (if is_add rq then add_op (fc_events (rq_context io rq)) else del_op new))"
| "knows io (Changed rq new) = (request_ok io rq \<and> bits_left rq (fc_events (rq_context io rq)) new \<and>
     slot_fits (alive io) (\<not> is_add rq) (slot_ctx (rq_slot rq) (rq_context io rq)))"
| "knows io (Counted rq new) = (request_ok io rq \<and>
     (rq_op rq \<noteq> Op_Cancel \<longrightarrow> bits_left rq (fc_events (rq_context io rq)) new \<and>
        slot_fits (alive io) (\<not> is_add rq) (slot_ctx (rq_slot rq) (rq_context io rq))))"

definition locked :: "int set \<Rightarrow> 'u io_pc \<Rightarrow> bool" where
  "locked L x \<longleftrightarrow> (\<forall>rq. past x = Some rq \<longrightarrow> \<not> is_add rq \<longrightarrow> rq_fd rq \<in> L)"

definition ip_inv :: "'k epoll \<Rightarrow> nat set \<Rightarrow> ('u, 'k) io_pool \<Rightarrow> 'u fd_context list \<Rightarrow> bool" where
  "ip_inv ep held s cs \<longleftrightarrow>
     reach (io_start ep) (io_step ep held)
       (atomic_view (ip_io s) (m_pendingEventCount (ip_io s) + sum_list (map owed (ip_pcs s))) cs) \<and>
     view_ok (ip_pcs s) (m_fdContexts (ip_io s)) cs \<and>
     (\<forall>i<length (ip_pcs s). \<forall>j<length (ip_pcs s). i \<noteq> j \<longrightarrow> apart (ip_pcs s ! i) (ip_pcs s ! j)) \<and>
     (\<forall>i<length (ip_pcs s). knows (ip_io s) (ip_pcs s ! i) \<and> locked (ip_locks s) (ip_pcs s ! i))"

text \<open>One thread goes on; it changes nothing, or the descriptor that only it works on.\<close>

lemma sum_list_upd:
  fixes f :: "'a \<Rightarrow> 'b :: ab_group_add"
  shows "i < length xs \<Longrightarrow> sum_list (map f (xs[i := y])) = sum_list (map f xs) - f (xs ! i) + f y"
proof (induction xs arbitrary: i)
  case (Cons x xs)
  then show ?case by (cases i) (simp_all add: algebra_simps)
qed simp

lemma view_ok_upd:
  assumes v: "view_ok pcs xs cs" and i: "i < length pcs" and d: "d < length xs"
    and own: "\<And>j r. j < length pcs \<Longrightarrow> j \<noteq> i \<Longrightarrow> inflight (pcs ! j) = Some r \<Longrightarrow> nat (rq_fd r) \<noteq> d"
    and x: "\<And>r. inflight (pcs ! i) = Some r \<Longrightarrow> nat (rq_fd r) = d" and y: "\<And>r. inflight y = Some r \<Longrightarrow> nat (rq_fd r) = d"
    and c: "c'' = (case inflight y of None \<Rightarrow> c' | Some r \<Rightarrow> finish r c')"
  shows "view_ok (pcs[i := y]) (xs[d := c']) (cs[d := c''])"
proof -
  have len: "length cs = length xs" using v by (simp add: view_ok_def)
  have "cs[d := c''] ! nat (rq_fd rq) = finish rq (xs[d := c'] ! nat (rq_fd rq))"
    if "j < length pcs" "inflight (pcs[i := y] ! j) = Some rq" for j rq
  proof (cases "j = i")
    case True
    with that i have "inflight y = Some rq" by simp
    with y [OF this] c d len show ?thesis by simp
  next
    case False
    with that have "inflight (pcs ! j) = Some rq" by simp
    with own [OF that(1) False this] v that(1) show ?thesis by (simp add: view_ok_def)
  qed
  moreover have "cs[d := c''] ! e = xs[d := c'] ! e"
    if e: "e < length xs" and none: "\<And>j r. j < length pcs \<Longrightarrow> inflight (pcs[i := y] ! j) = Some r \<Longrightarrow> nat (rq_fd r) \<noteq> e" for e
  proof (cases "e = d")
    case True
    then have "inflight y = None" using none [OF i, of "the (inflight y)"] y i by (cases "inflight y") auto
    with True c d len show ?thesis by simp
  next
    case False
    have "nat (rq_fd r) \<noteq> e" if "j < length pcs" "inflight (pcs ! j) = Some r" for j r
      using none [of j r] x [of r] that False by (cases "j = i") auto
    with False v e show ?thesis by (simp add: view_ok_def)
  qed
  ultimately show ?thesis using len by (simp add: view_ok_def)
qed

lemma view_ok_same:
  assumes "view_ok pcs xs cs" and "i < length pcs" and "inflight (pcs ! i) = inflight y"
  shows "view_ok (pcs[i := y]) xs cs"
proof -
  have "inflight (pcs[i := y] ! j) = inflight (pcs ! j)" if "j < length pcs" for j
    using assms(2,3) that by (cases "j = i") simp_all
  with assms(1) show ?thesis by (simp add: view_ok_def)
qed

lemma apart_sym: "apart x y \<Longrightarrow> apart y x"
  unfolding apart_def by metis

lemma past_busy: "past x = Some rq \<Longrightarrow> busy x = Some rq"
  by (cases x) auto

lemma inflight_past: "inflight x = Some rq \<Longrightarrow> past x = Some rq"
  by (cases x) (auto split: if_splits)

lemma apart_narrow:
  assumes "apart x z" and "busy y = None \<or> busy y = busy x" and "past y = None \<or> past y = past x"
  shows "apart y z"
  using assms by (auto simp: apart_def)

lemma pcs_upd_all:
  assumes "\<And>j. j < length xs \<Longrightarrow> j \<noteq> i \<Longrightarrow> P (xs ! j)" and "P y"
  shows "\<forall>j<length (xs[i := y]). P (xs[i := y] ! j)"
proof (intro allI impI)
  fix j assume "j < length (xs[i := y])"
  with assms show "P (xs[i := y] ! j)" by (cases "j = i") simp_all
qed

lemma apart_upd:
  assumes old: "\<forall>i<length xs. \<forall>j<length xs. i \<noteq> j \<longrightarrow> apart (xs ! i) (xs ! j)"
    and new: "\<And>j. j < length xs \<Longrightarrow> j \<noteq> i \<Longrightarrow> apart y (xs ! j)"
  shows "\<forall>k<length (xs[i := y]). \<forall>j<length (xs[i := y]). k \<noteq> j \<longrightarrow> apart (xs[i := y] ! k) (xs[i := y] ! j)"
proof (intro allI impI)
  fix k j assume k: "k < length (xs[i := y])" "j < length (xs[i := y])" "k \<noteq> j"
  consider "k = i" | "j = i" "k \<noteq> i" | "k \<noteq> i" "j \<noteq> i" by blast
  then show "apart (xs[i := y] ! k) (xs[i := y] ! j)"
  proof cases
    case 1
    with k new [of j] show ?thesis by simp
  next
    case 2
    with k new [of k] show ?thesis by (simp add: apart_sym)
  next
    case 3
    with k old show ?thesis by simp
  qed
qed

lemma request_ok_frame:
  "length (m_fdContexts io') = length (m_fdContexts io) \<Longrightarrow> alive io' = alive io \<Longrightarrow> request_ok io rq \<Longrightarrow> request_ok io' rq"
  by (simp add: request_ok_def in_table_def split: event_op.splits)

lemma knows_frame:
  assumes "knows io x" and len: "length (m_fdContexts io') = length (m_fdContexts io)" and al: "alive io' = alive io"
    and "\<And>rq. past x = Some rq \<Longrightarrow> rq_context io' rq = rq_context io rq"
  shows "knows io' x"
proof -
  have "request_ok io rq \<Longrightarrow> request_ok io' rq" for rq
    by (rule request_ok_frame [OF len al])
  with assms(1,4) al show ?thesis by (cases x) auto
qed

lemma ip_inv_go:
  assumes inv: "ip_inv ep held s cs" and i: "ipc_at s i x" and d: "d < length (m_fdContexts (ip_io s))"
    and reach: "reach (io_start ep) (io_step ep held)
      (atomic_view io (m_pendingEventCount io + (sum_list (map owed (ip_pcs s)) - owed x + owed y)) (cs[d := c'']))"
    and io: "m_fdContexts io = (m_fdContexts (ip_io s))[d := c']" "alive io = alive (ip_io s)"
    and x: "past x = Some rq" "nat (rq_fd rq) = d" and y: "busy y = None \<or> busy y = Some rq" "past y = None \<or> past y = Some rq"
    and c: "c'' = (case inflight y of None \<Rightarrow> c' | Some r \<Rightarrow> finish r c')"
    and kn: "knows io y" and lk: "locked L y"
    and L: "\<And>j. j < length (ip_pcs s) \<Longrightarrow> j \<noteq> i \<Longrightarrow> locked (ip_locks s) (ip_pcs s ! j) \<Longrightarrow> locked L (ip_pcs s ! j)"
  shows "ip_inv ep held (ip_go i y io L s) (cs[d := c''])"
proof -
  have len: "i < length (ip_pcs s)" and at: "ip_pcs s ! i = x" using i by (simp_all add: ipc_at_def)
  have ap: "\<forall>i<length (ip_pcs s). \<forall>j<length (ip_pcs s). i \<noteq> j \<longrightarrow> apart (ip_pcs s ! i) (ip_pcs s ! j)"
    and k: "\<forall>i<length (ip_pcs s). knows (ip_io s) (ip_pcs s ! i) \<and> locked (ip_locks s) (ip_pcs s ! i)"
    and v: "view_ok (ip_pcs s) (m_fdContexts (ip_io s)) cs"
    using inv by (simp_all add: ip_inv_def)
  have ap_i: "apart x (ip_pcs s ! j)" if "j < length (ip_pcs s)" "j \<noteq> i" for j
    using ap len at that by blast
  have ok: "request_ok (ip_io s) r" if "j < length (ip_pcs s)" "past (ip_pcs s ! j) = Some r" for j r
    using k that by (cases "ip_pcs s ! j") fastforce+
  have own: "nat (rq_fd r) \<noteq> d" if j: "j < length (ip_pcs s)" "j \<noteq> i" "past (ip_pcs s ! j) = Some r" for j r
  proof
    assume "nat (rq_fd r) = d"
    moreover have "0 \<le> rq_fd r" "0 \<le> rq_fd rq"
      using ok [OF j(1,3)] ok [OF len] at x(1) by (simp_all add: request_ok_def in_table_def)
    ultimately have "rq_fd rq = rq_fd r" using x(2) by simp
    with ap_i [OF j(1,2)] x(1) j(3) past_busy show False by (fastforce simp: apart_def)
  qed
  have "view_ok ((ip_pcs s)[i := y]) ((m_fdContexts (ip_io s))[d := c']) (cs[d := c''])"
  proof (rule view_ok_upd [OF v len d _ _ _ c])
    fix j r assume "j < length (ip_pcs s)" "j \<noteq> i" "inflight (ip_pcs s ! j) = Some r"
    then show "nat (rq_fd r) \<noteq> d" by (intro own [of j]) (simp_all add: inflight_past)
  next
    fix r assume "inflight (ip_pcs s ! i) = Some r"
    then show "nat (rq_fd r) = d" using x at by (auto dest: inflight_past)
  next
    fix r assume "inflight y = Some r"
    then show "nat (rq_fd r) = d" using x y by (auto dest: inflight_past)
  qed
  moreover have "\<forall>j<length ((ip_pcs s)[i := y]). knows io ((ip_pcs s)[i := y] ! j) \<and> locked L ((ip_pcs s)[i := y] ! j)"
  proof (rule pcs_upd_all)
    fix j assume j: "j < length (ip_pcs s)" "j \<noteq> i"
    have "knows io (ip_pcs s ! j)"
      by (rule knows_frame [of "ip_io s"]) (use k j own [OF j] in \<open>auto simp: io rq_context_def\<close>)
    with L [OF j] k j show "knows io (ip_pcs s ! j) \<and> locked L (ip_pcs s ! j)" by simp
  qed (use kn lk in simp)
  moreover have "\<forall>k<length ((ip_pcs s)[i := y]). \<forall>j<length ((ip_pcs s)[i := y]). k \<noteq> j \<longrightarrow>
      apart ((ip_pcs s)[i := y] ! k) ((ip_pcs s)[i := y] ! j)"
  proof (rule apart_upd [OF ap])
    fix j assume "j < length (ip_pcs s)" "j \<noteq> i"
    from apart_narrow [OF ap_i [OF this]] y x(1) show "apart y (ip_pcs s ! j)" by (auto dest: past_busy)
  qed
  ultimately show ?thesis
    using reach len at by (simp add: ip_inv_def ip_go_def io sum_list_upd)
qed

text \<open>A step that leaves the tables alone.\<close>

lemma ip_inv_pc:
  assumes inv: "ip_inv ep held s cs" and i: "ipc_at s i x"
    and reach: "reach (io_start ep) (io_step ep held)
      (atomic_view io (m_pendingEventCount io + (sum_list (map owed (ip_pcs s)) - owed x + owed y)) cs)"
    and io: "m_fdContexts io = m_fdContexts (ip_io s)" "alive io = alive (ip_io s)" and fl: "inflight x = inflight y"
    and ap: "\<And>j. j < length (ip_pcs s) \<Longrightarrow> j \<noteq> i \<Longrightarrow> apart x (ip_pcs s ! j) \<Longrightarrow> apart y (ip_pcs s ! j)"
    and kn: "knows io y" and lk: "locked L y"
    and L: "\<And>j. j < length (ip_pcs s) \<Longrightarrow> j \<noteq> i \<Longrightarrow> locked (ip_locks s) (ip_pcs s ! j) \<Longrightarrow> locked L (ip_pcs s ! j)"
  shows "ip_inv ep held (ip_go i y io L s) cs"
proof -
  have len: "i < length (ip_pcs s)" and at: "ip_pcs s ! i = x" using i by (simp_all add: ipc_at_def)
  have old: "\<forall>i<length (ip_pcs s). \<forall>j<length (ip_pcs s). i \<noteq> j \<longrightarrow> apart (ip_pcs s ! i) (ip_pcs s ! j)"
    and k: "\<forall>i<length (ip_pcs s). knows (ip_io s) (ip_pcs s ! i) \<and> locked (ip_locks s) (ip_pcs s ! i)"
    and v: "view_ok (ip_pcs s) (m_fdContexts (ip_io s)) cs"
    using inv by (simp_all add: ip_inv_def)
  have "view_ok ((ip_pcs s)[i := y]) (m_fdContexts (ip_io s)) cs"
    by (rule view_ok_same [OF v len]) (simp add: at fl)
  moreover have "\<forall>j<length ((ip_pcs s)[i := y]). knows io ((ip_pcs s)[i := y] ! j) \<and> locked L ((ip_pcs s)[i := y] ! j)"
  proof (rule pcs_upd_all)
    fix j assume j: "j < length (ip_pcs s)" "j \<noteq> i"
    have "knows io (ip_pcs s ! j)"
      by (rule knows_frame [of "ip_io s"]) (use k j in \<open>simp_all add: io rq_context_def\<close>)
    with L [OF j] k j show "knows io (ip_pcs s ! j) \<and> locked L (ip_pcs s ! j)" by simp
  qed (use kn lk in simp)
  moreover have "\<forall>k<length ((ip_pcs s)[i := y]). \<forall>j<length ((ip_pcs s)[i := y]). k \<noteq> j \<longrightarrow>
      apart ((ip_pcs s)[i := y] ! k) ((ip_pcs s)[i := y] ! j)"
    by (rule apart_upd [OF old]) (use ap old len at in blast)
  ultimately show ?thesis
    using reach len at by (simp add: ip_inv_def ip_go_def io sum_list_upd)
qed

section \<open>Each step keeps the invariant\<close>

lemma rq_slot_eq: "rq_event rq = READ \<or> rq_event rq = WRITE \<Longrightarrow> get_event_context (rq_event rq) = Inr (rq_slot rq)"
  by (auto simp: rq_slot_def event_defs get_event_context_def)

lemma post_view:
  assumes "post p task io = Inr io'"
  shows "post p task (atomic_view io n cs) = Inr (atomic_view io' n cs)"
  using assms
  by (auto simp: post_def atomic_view_def Let_def io_tickle_def own_scheduler_def outcome_simps deref_def
      split: option.splits if_splits)

lemma view_alive [simp]: "alive (atomic_view io n cs) = alive io"
  by (simp add: alive_def atomic_view_def fun_eq_iff)

text \<open>A thread that has read the bits sees what the atomic operations left.\<close>

lemma decided_view:
  assumes inv: "ip_inv ep held s cs" and law: "epoll_law ep" and i: "ipc_at s i x" and x: "past x = Some rq" "inflight x = None"
    and rq: "request_ok (ip_io s) rq"
  shows "cs ! nat (rq_fd rq) = rq_context (ip_io s) rq" and "in_table (rq_fd rq) (atomic_view (ip_io s) n cs)"
    and "ctx_ok (alive (ip_io s)) (rq_context (ip_io s) rq)" and "nat (rq_fd rq) < length (m_fdContexts (ip_io s))"
proof -
  have len: "i < length (ip_pcs s)" and at: "ip_pcs s ! i = x" using i by (simp_all add: ipc_at_def)
  have ap: "\<forall>i<length (ip_pcs s). \<forall>j<length (ip_pcs s). i \<noteq> j \<longrightarrow> apart (ip_pcs s ! i) (ip_pcs s ! j)"
    and k: "\<forall>i<length (ip_pcs s). knows (ip_io s) (ip_pcs s ! i)"
    and v: "view_ok (ip_pcs s) (m_fdContexts (ip_io s)) cs"
    using inv by (simp_all add: ip_inv_def)
  have "nat (rq_fd r) \<noteq> nat (rq_fd rq)" if j: "j < length (ip_pcs s)" "inflight (ip_pcs s ! j) = Some r" for j r
  proof
    assume eq: "nat (rq_fd r) = nat (rq_fd rq)"
    have ji: "j \<noteq> i" using j x at by auto
    have p: "past (ip_pcs s ! j) = Some r" using j(2) by (rule inflight_past)
    have "request_ok (ip_io s) r" using k j(1) p by (cases "ip_pcs s ! j") fastforce+
    with rq eq have "rq_fd rq = rq_fd r" by (auto simp: request_ok_def in_table_def)
    moreover have "apart x (ip_pcs s ! j)" using ap len at j(1) ji by blast
    ultimately show False using p x(1) past_busy by (fastforce simp: apart_def)
  qed
  moreover show d: "nat (rq_fd rq) < length (m_fdContexts (ip_io s))" using rq by (simp add: request_ok_def in_table_def)
  ultimately show c: "cs ! nat (rq_fd rq) = rq_context (ip_io s) rq"
    using v by (simp add: view_ok_def rq_context_def)
  have lcs: "length cs = length (m_fdContexts (ip_io s))" using v by (simp add: view_ok_def)
  with rq show "in_table (rq_fd rq) (atomic_view (ip_io s) n cs)"
    by (simp add: request_ok_def in_table_def atomic_view_def)
  have "io_wf ep (atomic_view (ip_io s) (m_pendingEventCount (ip_io s) + sum_list (map owed (ip_pcs s))) cs)"
    using inv io_safe.reach_inv law by (fastforce simp: ip_inv_def)
  then have "ctx_ok (alive (ip_io s)) (cs ! nat (rq_fd rq))"
    using d lcs by (simp add: io_wf_def io_core_def) (simp add: atomic_view_def)
  with c show "ctx_ok (alive (ip_io s)) (rq_context (ip_io s) rq)" by simp
qed

text \<open>\<open>epoll_ctl\<close> is where an operation takes effect, as a whole.\<close>

lemma ctl_effect:
  assumes inv: "ip_inv ep held s cs" and law: "epoll_law ep" and i: "ipc_at s i (Decided rq op new)"
    and ctl: "ep_ctl ep (im_kernel (ip_io s)) op (rq_fd rq) (EPOLLET OR new) = (r, k)"
  shows "io_step ep held (atomic_view (ip_io s) n cs)
     (if r = 0 then atomic_view ((ip_io s)\<lparr>im_kernel := k\<rparr>) (n + (if is_add rq then 1 else - 1))
          (cs[nat (rq_fd rq) := finish rq (rq_context (ip_io s) rq)])
      else atomic_view ((ip_io s)\<lparr>im_kernel := k\<rparr>) n cs)"
proof -
  let ?v = "atomic_view (ip_io s) n cs" and ?fd = "rq_fd rq" and ?ev = "rq_event rq"
  define c where "c = rq_context (ip_io s) rq"
  have kn: "knows (ip_io s) (Decided rq op new)" using inv i by (auto simp: ip_inv_def ipc_at_def)
  then have rq: "request_ok (ip_io s) rq" and b: "bits_left rq (fc_events c) new"
    and op: "op = (if is_add rq then add_op (fc_events c) else del_op new)" by (simp_all add: c_def)
  note view = decided_view [OF inv law i _ _ rq, simplified, folded c_def]
  have c: "c = m_fdContexts ?v ! nat ?fd" using view(1) by (simp add: atomic_view_def)
  have kern: "im_kernel ?v = im_kernel (ip_io s)" by (simp add: atomic_view_def)
  have sl: "get_event_context ?ev = Inr (rq_slot rq)" by (rule rq_slot_eq) (use rq in \<open>simp add: request_ok_def\<close>)
  have t: "in_table ?fd ?v" by (rule view(2))
  show ?thesis
  proof (cases "is_add rq")
    case True
    then obtain p q cb where o: "rq_op rq = Op_Add p q cb" by (auto simp: is_add_def split: event_op.splits)
    have e: "fc_events c AND ?ev = 0" and new: "new = fc_events c OR ?ev" using b True by (simp_all add: bits_left_def)
    have al: "alive ?v p" using rq o by (simp add: request_ok_def)
    have ctl': "ep_ctl ep (im_kernel ?v) (add_op (fc_events c)) ?fd (EPOLLET OR fc_events c OR ?ev) = (r, k)"
      using ctl True by (simp add: kern op new)
    show ?thesis
    proof (cases "r = 0")
      case r: True
      have "slot_ctx (rq_slot rq) c = event_context_new"
        using ctx_ok_slot [OF view(3) sl] e by (simp add: slot_fits_def)
      from add_event_ok [OF t c sl e this, of ep cb RUNNING "Some p" q] ctl' r
      have "add_event ep (Some p) q RUNNING ?fd ?ev cb ?v = Inr (0, atomic_view ((ip_io s)\<lparr>im_kernel := k\<rparr>) (n + 1)
          (cs[nat ?fd := finish rq c]))"
        by (simp add: finish_def o) (simp add: atomic_view_def)
      from io_add [OF al this] r True show ?thesis by (simp add: c_def)
    next
      case r: False
      from add_event_fails [OF t c e, of ep "Some p" q RUNNING cb] ctl' r
      have "add_event ep (Some p) q RUNNING ?fd ?ev cb ?v = Inr (-1, atomic_view ((ip_io s)\<lparr>im_kernel := k\<rparr>) n cs)"
        by (simp add: atomic_view_def)
      from io_add [OF al this] r show ?thesis by simp
    qed
  next
    case False
    have e: "fc_events c AND ?ev \<noteq> 0" and new: "new = fc_events c AND NOT ?ev" using b False by (simp_all add: bits_left_def)
    have ctl': "ep_ctl ep (im_kernel ?v) (del_op (fc_events c AND NOT ?ev)) ?fd (EPOLLET OR fc_events c AND NOT ?ev) = (r, k)"
      using ctl False by (simp add: kern op new)
    have fin: "finish rq c = event_cleared (rq_slot rq) ?ev c" using False by (auto simp: finish_def is_add_def split: event_op.splits)
    show ?thesis
    proof (cases "r = 0")
      case r: True
      from del_event_ok [OF t c sl e, of ep] ctl' r
      have "del_event ep ?fd ?ev ?v = Inr (True, atomic_view ((ip_io s)\<lparr>im_kernel := k\<rparr>) (n - 1) (cs[nat ?fd := finish rq c]))"
        by (simp add: fin) (simp add: atomic_view_def)
      from io_del [OF this] r False show ?thesis by (simp add: c_def)
    next
      case r: False
      from del_event_fails [OF t c e, of ep] ctl' r
      have "del_event ep ?fd ?ev ?v = Inr (False, atomic_view ((ip_io s)\<lparr>im_kernel := k\<rparr>) n cs)"
        by (simp add: atomic_view_def)
      from io_del [OF this] r show ?thesis by simp
    qed
  qed
qed

lemma unlock_others:
  assumes inv: "ip_inv ep held s cs" and i: "ipc_at s i x" and x: "past x = Some rq"
    and j: "j < length (ip_pcs s)" "j \<noteq> i" and l: "locked (ip_locks s) (ip_pcs s ! j)"
  shows "locked (ip_locks s - {rq_fd rq}) (ip_pcs s ! j)"
proof -
  have "apart x (ip_pcs s ! j)" using inv i j by (auto simp: ip_inv_def ipc_at_def)
  with x have "past (ip_pcs s ! j) = Some r \<Longrightarrow> rq_fd r \<noteq> rq_fd rq" for r
    using past_busy by (fastforce simp: apart_def)
  with l show ?thesis by (auto simp: locked_def)
qed

lemma ip_inv_parts:
  assumes "ip_inv ep held s cs" and "ipc_at s i x"
  shows "reach (io_start ep) (io_step ep held)
      (atomic_view (ip_io s) (m_pendingEventCount (ip_io s) + sum_list (map owed (ip_pcs s))) cs)"
    and "knows (ip_io s) x" and "locked (ip_locks s) x" and "length cs = length (m_fdContexts (ip_io s))"
    and "inflight x = Some rq \<Longrightarrow> cs ! nat (rq_fd rq) = finish rq (rq_context (ip_io s) rq)"
  using assms by (auto simp: ip_inv_def ipc_at_def view_ok_def rq_context_def)

lemma view_kernel [simp]:
  "m_fdContexts (io\<lparr>im_kernel := k\<rparr>) = m_fdContexts io" "m_pendingEventCount (io\<lparr>im_kernel := k\<rparr>) = m_pendingEventCount io"
  by simp_all

lemma step_ctl:
  assumes inv: "ip_inv ep held s cs" and law: "epoll_law ep" and i: "ipc_at s i (Decided rq op new)"
    and ctl: "ep_ctl ep (im_kernel (ip_io s)) op (rq_fd rq) (EPOLLET OR new) = (0, k)"
  shows "\<exists>cs'. ip_inv ep held (ip_go i (Changed rq new) ((ip_io s)\<lparr>im_kernel := k\<rparr>) (ip_locks s) s) cs'"
proof -
  let ?io = "(ip_io s)\<lparr>im_kernel := k\<rparr>" and ?S = "sum_list (map owed (ip_pcs s))" and ?d = "nat (rq_fd rq)"
  let ?c = "rq_context (ip_io s) rq"
  note parts = ip_inv_parts [OF inv i]
  have rq: "request_ok (ip_io s) rq" and b: "bits_left rq (fc_events ?c) new" using parts(2) by simp_all
  note view = decided_view [OF inv law i _ _ rq, simplified]
  have sl: "get_event_context (rq_event rq) = Inr (rq_slot rq)" by (rule rq_slot_eq) (use rq in \<open>simp add: request_ok_def\<close>)
  have fit: "slot_fits (alive (ip_io s)) (\<not> is_add rq) (slot_ctx (rq_slot rq) ?c)"
    using ctx_ok_slot [OF view(3) sl] b by (auto simp: bits_left_def split: if_splits)
  have rok: "request_ok ?io rq" by (rule request_ok_frame [OF _ _ rq]) (simp_all add: alive_def fun_eq_iff)
  have "ip_inv ep held (ip_go i (Changed rq new) ?io (ip_locks s) s) (cs[?d := finish rq ?c])"
  proof (rule ip_inv_go [OF inv i view(4), where c' = ?c and rq = rq])
    show "reach (io_start ep) (io_step ep held) (atomic_view ?io
        (m_pendingEventCount ?io + (?S - owed (Decided rq op new) + owed (Changed rq new))) (cs[?d := finish rq ?c]))"
      using reach_step [OF parts(1) ctl_effect [OF inv law i ctl]] by (simp add: algebra_simps cong: if_cong)
    show "m_fdContexts ?io = (m_fdContexts (ip_io s))[?d := ?c]" by (simp add: rq_context_def)
    show "knows ?io (Changed rq new)" using rok b fit by (simp add: rq_context_def)
    show "locked (ip_locks s) (Changed rq new)" using parts(3) by (simp add: locked_def)
  qed simp_all
  then show ?thesis by blast
qed

lemma step_ctl_fails:
  assumes inv: "ip_inv ep held s cs" and law: "epoll_law ep" and i: "ipc_at s i (Decided rq op new)"
    and ctl: "ep_ctl ep (im_kernel (ip_io s)) op (rq_fd rq) (EPOLLET OR new) = (r, k)" and r: "r \<noteq> 0"
  shows "ip_inv ep held (ip_go i (Outside False) ((ip_io s)\<lparr>im_kernel := k\<rparr>)
       (if is_add rq then ip_locks s else ip_locks s - {rq_fd rq}) s) cs"
proof (rule ip_inv_pc [OF inv i])
  let ?io = "(ip_io s)\<lparr>im_kernel := k\<rparr>" and ?S = "sum_list (map owed (ip_pcs s))"
  show "reach (io_start ep) (io_step ep held) (atomic_view ?io
      (m_pendingEventCount ?io + (?S - owed (Decided rq op new) + owed (Outside False))) cs)"
    using reach_step [OF ip_inv_parts(1) [OF inv i] ctl_effect [OF inv law i ctl]] r by simp
  show "locked (if is_add rq then ip_locks s else ip_locks s - {rq_fd rq}) (ip_pcs s ! j)"
    if "j < length (ip_pcs s)" "j \<noteq> i" "locked (ip_locks s) (ip_pcs s ! j)" for j
    using unlock_others [OF inv i _ that] that(3) by simp
qed (simp_all add: apart_def locked_def)

lemma step_count:
  assumes inv: "ip_inv ep held s cs" and i: "ipc_at s i (Changed rq new)" and op: "rq_op rq \<noteq> Op_Cancel"
    and n: "n = (if is_add rq then 1 else - 1)"
  shows "ip_inv ep held (ip_go i (Counted rq new)
       ((ip_io s)\<lparr>m_pendingEventCount := m_pendingEventCount (ip_io s) + n\<rparr>) (ip_locks s) s) cs"
proof (rule ip_inv_pc [OF inv i])
  let ?io = "(ip_io s)\<lparr>m_pendingEventCount := m_pendingEventCount (ip_io s) + n\<rparr>"
  note parts = ip_inv_parts [OF inv i]
  have v: "atomic_view ?io m cs = atomic_view (ip_io s) m cs" for m by (simp add: atomic_view_def)
  show "reach (io_start ep) (io_step ep held) (atomic_view ?io (m_pendingEventCount ?io +
      (sum_list (map owed (ip_pcs s)) - owed (Changed rq new) + owed (Counted rq new))) cs)"
    using parts(1) op n unfolding v by simp
  have "request_ok ?io rq" by (rule request_ok_frame [of _ "ip_io s"]) (use parts(2) in \<open>simp_all add: alive_def fun_eq_iff\<close>)
  with parts(2) show "knows ?io (Counted rq new)" by (simp add: rq_context_def)
  show "locked (ip_locks s) (Counted rq new)" using parts(3) by (simp add: locked_def)
qed (use op in \<open>simp_all add: apart_def\<close>)

lemma step_set:
  assumes inv: "ip_inv ep held s cs" and i: "ipc_at s i (Counted rq new)" and op: "rq_op rq \<noteq> Op_Cancel"
    and c: "c = finish rq (rq_context (ip_io s) rq)" and L: "L = (if is_add rq then ip_locks s else ip_locks s - {rq_fd rq})"
  shows "ip_inv ep held (ip_go i (Outside True) (put_context rq c (ip_io s)) L s) cs"
proof -
  let ?d = "nat (rq_fd rq)" and ?io = "put_context rq c (ip_io s)"
  note parts = ip_inv_parts [OF inv i]
  have d: "?d < length (m_fdContexts (ip_io s))" using parts(2) by (simp add: request_ok_def in_table_def)
  have c': "cs ! ?d = c" using parts(5) [of rq] op by (simp add: c)
  then have same: "cs[?d := c] = cs" by auto
  have v: "atomic_view ?io m cs = atomic_view (ip_io s) m cs" for m by (simp add: atomic_view_def put_context_def)
  have "ip_inv ep held (ip_go i (Outside True) ?io L s) (cs[?d := c])"
  proof (rule ip_inv_go [OF inv i d, where c' = c and rq = rq])
    show "reach (io_start ep) (io_step ep held) (atomic_view ?io (m_pendingEventCount ?io +
        (sum_list (map owed (ip_pcs s)) - owed (Counted rq new) + owed (Outside True))) (cs[?d := c]))"
      unfolding same v using parts(1) op by (simp add: put_context_def)
    show "alive ?io = alive (ip_io s)" by (simp add: alive_def put_context_def fun_eq_iff)
    show "locked L (ip_pcs s ! j)" if "j < length (ip_pcs s)" "j \<noteq> i" "locked (ip_locks s) (ip_pcs s ! j)" for j
      using unlock_others [OF inv i _ that] that(3) by (simp add: L)
  qed (simp_all add: put_context_def locked_def)
  then show ?thesis by (simp add: same)
qed

lemma step_trigger:
  assumes inv: "ip_inv ep held s cs" and i: "ipc_at s i (Changed rq new)" and op: "rq_op rq = Op_Cancel"
    and run: "trigger_event (rq_event rq) (nat (rq_fd rq)) (ip_io s) = Inr io"
  shows "ip_inv ep held (ip_go i (Counted rq new) io (ip_locks s) s) cs"
proof -
  let ?d = "nat (rq_fd rq)" and ?S = "sum_list (map owed (ip_pcs s))"
  let ?c = "m_fdContexts (ip_io s) ! ?d"
  note parts = ip_inv_parts [OF inv i]
  have rq: "request_ok (ip_io s) rq" using parts(2) by simp
  then have d: "?d < length (m_fdContexts (ip_io s))" by (simp add: request_ok_def in_table_def)
  from run obtain sl io1 where sl: "get_event_context (rq_event rq) = Inr sl"
    and po: "post (ec_scheduler (slot_ctx sl ?c)) (event_task (slot_ctx sl ?c)) (ip_io s) = Inr io1"
    and io: "io = io1\<lparr>m_fdContexts := (m_fdContexts (ip_io s))[?d := event_cleared sl (rq_event rq) ?c]\<rparr>"
    by (rule trigger_event_Inr)
  have "sl = rq_slot rq" using sl rq_slot_eq [of rq] rq by (simp add: request_ok_def)
  then have fin: "event_cleared sl (rq_event rq) ?c = finish rq ?c" using op by (simp add: finish_def)
  have c': "cs ! ?d = finish rq ?c" using parts(5) [of rq] op by (simp add: rq_context_def)
  then have same: "cs[?d := finish rq ?c] = cs" by (metis list_update_id)
  from po have io1: "io_same (ip_io s) io1" by (rule post_Inr)
  then have n: "m_pendingEventCount io1 = m_pendingEventCount (ip_io s)" "alive io1 = alive (ip_io s)" by (simp_all add: io_same_def)
  have v: "atomic_view io m cs = atomic_view io1 m cs" for m by (simp add: atomic_view_def io)
  have "ip_inv ep held (ip_go i (Counted rq new) io (ip_locks s) s) (cs[?d := finish rq ?c])"
  proof (rule ip_inv_go [OF inv i d, where c' = "finish rq ?c" and rq = rq])
    show "reach (io_start ep) (io_step ep held) (atomic_view io (m_pendingEventCount io +
        (?S - owed (Changed rq new) + owed (Counted rq new))) (cs[?d := finish rq ?c]))"
      using reach_step [OF parts(1) io_post [OF post_view [OF po, of "m_pendingEventCount (ip_io s) + ?S" cs]]] op
      unfolding same v by (simp add: io n is_add_def)
    show "m_fdContexts io = (m_fdContexts (ip_io s))[?d := finish rq ?c]" by (simp add: io fin)
    show al: "alive io = alive (ip_io s)" using n(2) by (simp add: io alive_def fun_eq_iff)
    show "knows io (Counted rq new)" using request_ok_frame [OF _ al rq] op by (simp add: io)
    show "locked (ip_locks s) (Counted rq new)" using parts(3) by (simp add: locked_def)
  qed (simp_all add: op)
  then show ?thesis by (simp add: same)
qed

lemma no_abort:
  assumes inv: "ip_inv ep held s cs" and i: "ipc_at s i (Changed rq new)" and op: "rq_op rq = Op_Cancel"
    and run: "trigger_event (rq_event rq) (nat (rq_fd rq)) (ip_io s) = Inl e"
  shows "e = Would_Block"
proof -
  note k = ip_inv_parts(2) [OF inv i]
  have op: "\<not> is_add rq" "rq_op rq = Op_Cancel" using op by (simp_all add: is_add_def)
  have b: "fc_events (m_fdContexts (ip_io s) ! nat (rq_fd rq)) AND rq_event rq \<noteq> 0"
    using k op by (auto simp: bits_left_def rq_context_def split: if_splits)
  have sl: "get_event_context (rq_event rq) = Inr (rq_slot rq)" by (rule rq_slot_eq) (use k in \<open>simp add: request_ok_def\<close>)
  let ?x = "slot_ctx (rq_slot rq) (m_fdContexts (ip_io s) ! nat (rq_fd rq))"
  obtain p where p: "ec_scheduler ?x = Some p" "alive (ip_io s) p"
    using k op by (auto simp: slot_fits_def filled_def rq_context_def)
  then obtain sch where "im_schedulers (ip_io s) p = Some sch" by (auto simp: alive_def)
  moreover have "post (Some p) (event_task ?x) (ip_io s) = Inl e"
    using run p(1) by (cases "post (Some p) (event_task ?x) (ip_io s)") (simp_all add: trigger_event_eq [OF sl b])
  ultimately show ?thesis
    by (auto simp: post_def Let_def io_tickle_def own_scheduler_def split: if_splits)
qed

lemma step_cancel_count:
  assumes inv: "ip_inv ep held s cs" and i: "ipc_at s i (Counted rq new)" and op: "rq_op rq = Op_Cancel"
  shows "ip_inv ep held (ip_go i (Outside True)
       ((ip_io s)\<lparr>m_pendingEventCount := m_pendingEventCount (ip_io s) - 1\<rparr>) (ip_locks s - {rq_fd rq}) s) cs"
proof (rule ip_inv_pc [OF inv i])
  let ?io = "(ip_io s)\<lparr>m_pendingEventCount := m_pendingEventCount (ip_io s) - 1\<rparr>"
  have v: "atomic_view ?io m cs = atomic_view (ip_io s) m cs" for m by (simp add: atomic_view_def)
  show "reach (io_start ep) (io_step ep held) (atomic_view ?io (m_pendingEventCount ?io +
      (sum_list (map owed (ip_pcs s)) - owed (Counted rq new) + owed (Outside True))) cs)"
    using ip_inv_parts(1) [OF inv i] op unfolding v by simp
  show "locked (ip_locks s - {rq_fd rq}) (ip_pcs s ! j)"
    if "j < length (ip_pcs s)" "j \<noteq> i" "locked (ip_locks s) (ip_pcs s ! j)" for j
    using unlock_others [OF inv i _ that] by simp
qed (use op in \<open>simp_all add: apart_def locked_def alive_def fun_eq_iff\<close>)

lemma step_schedule:
  assumes inv: "ip_inv ep held s cs" and run: "post p task (ip_io s) = Inr io"
  shows "ip_inv ep held (s\<lparr>ip_io := io\<rparr>) cs"
proof -
  let ?n = "m_pendingEventCount (ip_io s) + sum_list (map owed (ip_pcs s))"
  from run have same: "io_same (ip_io s) io" by (rule post_Inr)
  have "reach (io_start ep) (io_step ep held) (atomic_view io ?n cs)"
  proof (rule reach_step)
    show "reach (io_start ep) (io_step ep held) (atomic_view (ip_io s) ?n cs)" using inv by (simp add: ip_inv_def)
    show "io_step ep held (atomic_view (ip_io s) ?n cs) (atomic_view io ?n cs)" by (rule io_post [OF post_view [OF run]])
  qed
  moreover have "knows io (ip_pcs s ! j)" if "j < length (ip_pcs s)" for j
    by (rule knows_frame [of "ip_io s"]) (use inv same that in \<open>simp_all add: ip_inv_def io_same_def rq_context_def\<close>)
  ultimately show ?thesis using inv same by (simp add: ip_inv_def io_same_def)
qed

lemma step_enter:
  assumes inv: "ip_inv ep held s cs" and i: "ipc_at s i (Outside b)" and rq: "request_ok (ip_io s) rq" and G: "adds_alone s i rq"
  shows "ip_inv ep held (ip_go i (Entered rq) (ip_io s) (ip_locks s) s) cs"
proof (rule ip_inv_pc [OF inv i])
  show "apart (Entered rq) (ip_pcs s ! j)" if "j < length (ip_pcs s)" "j \<noteq> i" for j
    unfolding apart_def
  proof (intro allI impI)
    fix a b assume "busy (Entered rq) = Some a" "busy (ip_pcs s ! j) = Some b" "rq_fd a = rq_fd b"
    with G that show "\<not> is_add a \<and> \<not> is_add b \<and> (past (Entered rq) = None \<or> past (ip_pcs s ! j) = None)"
      by (fastforce simp: adds_alone_def)
  qed
qed (use ip_inv_parts(1) [OF inv i] rq in \<open>simp_all add: locked_def\<close>)

lemma step_add_read:
  assumes inv: "ip_inv ep held s cs" and i: "ipc_at s i (Entered rq)" and add: "is_add rq"
    and e: "e = fc_events (rq_context (ip_io s) rq)" "e AND rq_event rq = 0"
  shows "ip_inv ep held (ip_go i (Decided rq (add_op e) (e OR rq_event rq)) (ip_io s) (ip_locks s) s) cs"
proof (rule ip_inv_pc [OF inv i])
  show "apart (Decided rq (add_op e) (e OR rq_event rq)) (ip_pcs s ! j)"
    if "apart (Entered rq) (ip_pcs s ! j)" for j
    using that add by (auto simp: apart_def)
qed (use ip_inv_parts(1,2) [OF inv i] add e in \<open>simp_all add: locked_def bits_left_def\<close>)

lemma step_lock:
  assumes inv: "ip_inv ep held s cs" and i: "ipc_at s i (Entered rq)" and op: "\<not> is_add rq" and free: "rq_fd rq \<notin> ip_locks s"
    and e: "e = fc_events (rq_context (ip_io s) rq)" "e AND rq_event rq \<noteq> 0" "new = e AND NOT (rq_event rq)"
  shows "ip_inv ep held (ip_go i (Decided rq (del_op new) new) (ip_io s) (insert (rq_fd rq) (ip_locks s)) s) cs"
proof (rule ip_inv_pc [OF inv i])
  show "apart (Decided rq (del_op new) new) (ip_pcs s ! j)"
    if j: "j < length (ip_pcs s)" "j \<noteq> i" "apart (Entered rq) (ip_pcs s ! j)" for j
  proof -
    have "locked (ip_locks s) (ip_pcs s ! j)" using inv j(1) by (simp add: ip_inv_def)
    have "past (ip_pcs s ! j) = None" if "busy (ip_pcs s ! j) = Some r" "rq_fd r = rq_fd rq" for r
    proof (rule ccontr)
      assume "past (ip_pcs s ! j) \<noteq> None"
      with that past_busy have "past (ip_pcs s ! j) = Some r" by fastforce
      moreover have "\<not> is_add r" using j(3) that by (auto simp: apart_def)
      ultimately show False using \<open>locked _ _\<close> free that(2) by (auto simp: locked_def)
    qed
    with j(3) show ?thesis by (auto simp: apart_def)
  qed
qed (use ip_inv_parts(1,2) [OF inv i] op e in \<open>simp_all add: locked_def bits_left_def\<close>)

lemma step_leave:
  assumes inv: "ip_inv ep held s cs" and i: "ipc_at s i (Entered rq)"
    and y: "y = Outside False \<or> y = Aborted ''can not add same event in the same fd''"
  shows "ip_inv ep held (ip_go i y (ip_io s) (ip_locks s) s) cs"
  by (rule ip_inv_pc [OF inv i]) (use ip_inv_parts(1) [OF inv i] y in \<open>auto simp: locked_def apart_def\<close>)

lemma io_pool_step_inv:
  assumes "io_pool_step ep adds_alone s s'" and law: "epoll_law ep" and inv: "ip_inv ep held s cs"
  shows "\<exists>cs'. ip_inv ep held s' cs'"
  using assms(1)
proof cases
  case (ic_enter i b rq)
  with step_enter [OF inv ic_enter(2-4)] show ?thesis by blast
next
  case (ic_add_read i rq e)
  with step_add_read [OF inv ic_add_read(2-5)] show ?thesis by blast
next
  case (ic_add_twice i rq)
  with step_leave [OF inv ic_add_twice(2)] show ?thesis by blast
next
  case (ic_lock i rq e new)
  with step_lock [OF inv ic_lock(2-7)] show ?thesis by blast
next
  case (ic_none i rq)
  with step_leave [OF inv ic_none(2)] show ?thesis by blast
next
  case (ic_ctl i rq op new k)
  with step_ctl [OF inv law ic_ctl(2,3)] show ?thesis by blast
next
  case (ic_ctl_fails i rq op new r k)
  with step_ctl_fails [OF inv law ic_ctl_fails(2-4)] show ?thesis by blast
next
  case (ic_add_count i rq new)
  then show ?thesis using step_count [OF inv ic_add_count(2), of 1] by (auto simp: is_add_def split: event_op.splits)
next
  case (ic_add_set i rq new p q cb sl c)
  have sl: "sl = rq_slot rq"
    using ip_inv_parts(2) [OF inv ic_add_set(2)] ic_add_set(4) rq_slot_eq [of rq] by (simp add: request_ok_def)
  have "ip_inv ep held s' cs"
    unfolding ic_add_set(1) by (rule step_set [OF inv ic_add_set(2)]) (use ic_add_set sl in \<open>simp_all add: finish_def is_add_def\<close>)
  then show ?thesis by blast
next
  case (ic_add_used i rq new sl)
  have "sl = rq_slot rq" and "slot_fits (alive (ip_io s)) (\<not> is_add rq) (slot_ctx (rq_slot rq) (rq_context (ip_io s) rq))"
    using ip_inv_parts(2) [OF inv ic_add_used(2)] ic_add_used(3,4) rq_slot_eq [of rq]
    by (auto simp: request_ok_def is_add_def split: event_op.splits)
  with ic_add_used(3,5) show ?thesis by (simp add: slot_fits_def)
next
  case (ic_del_count i rq new)
  then show ?thesis using step_count [OF inv ic_del_count(2), of "- 1"] by (auto simp: is_add_def)
next
  case (ic_del_set i rq new sl)
  have add: "\<not> is_add rq" using ic_del_set(3) by (simp add: is_add_def)
  have k: "sl = rq_slot rq" "new = fc_events (rq_context (ip_io s) rq) AND NOT (rq_event rq)"
    using ip_inv_parts(2) [OF inv ic_del_set(2)] ic_del_set(3,4) rq_slot_eq [of rq] add
    by (simp_all add: request_ok_def bits_left_def)
  have "ip_inv ep held s' cs"
    unfolding ic_del_set(1)
    by (rule step_set [OF inv ic_del_set(2)]) (use ic_del_set(3) k add in \<open>simp_all add: finish_def event_cleared_def\<close>)
  then show ?thesis by blast
next
  case (ic_cancel_trigger i rq new io)
  with step_trigger [OF inv ic_cancel_trigger(2-4)] show ?thesis by blast
next
  case (ic_cancel_abort i rq new e)
  with no_abort [OF inv ic_cancel_abort(2-4)] show ?thesis by blast
next
  case (ic_cancel_count i rq new)
  with step_cancel_count [OF inv ic_cancel_count(2,3)] show ?thesis by blast
next
  case (ic_schedule p task io)
  with step_schedule [OF inv ic_schedule(2)] show ?thesis by blast
qed

lemma owed_quiet: "\<forall>x\<in>set pcs. busy x = None \<Longrightarrow> sum_list (map owed pcs) = 0"
proof (induction pcs)
  case (Cons x pcs)
  then have "owed x = 0" by (cases x) simp_all
  with Cons show ?case by simp
qed simp

lemma io_pool_start_inv:
  assumes "io_pool_start ep held s"
  shows "ip_inv ep held s (m_fdContexts (ip_io s))"
proof -
  have out: "\<exists>b. ip_pcs s ! i = Outside b" if "i < length (ip_pcs s)" for i
    using assms that by (simp add: io_pool_start_def)
  have z: "sum_list (map owed (ip_pcs s)) = 0"
    by (rule owed_quiet) (use assms in \<open>auto simp: io_pool_start_def\<close>)
  have v: "atomic_view (ip_io s) (m_pendingEventCount (ip_io s)) (m_fdContexts (ip_io s)) = ip_io s"
    by (simp add: atomic_view_def)
  have i: "inflight (ip_pcs s ! i) = None \<and> busy (ip_pcs s ! i) = None \<and> knows (ip_io s) (ip_pcs s ! i) \<and> locked L (ip_pcs s ! i)"
    if "i < length (ip_pcs s)" for i L
    using out [OF that] by (auto simp: locked_def)
  then show ?thesis
    using assms unfolding ip_inv_def z by (simp add: v io_pool_start_def view_ok_def apart_def)
qed

interpretation io_pool_safe: safe_system "io_pool_start ep held" "io_pool_step ep adds_alone"
  "\<lambda>s. epoll_law ep \<longrightarrow> (\<exists>cs. ip_inv ep held s cs)" for ep held
proof
  show "epoll_law ep \<longrightarrow> (\<exists>cs. ip_inv ep held s cs)" if "io_pool_start ep held s" for s
    using io_pool_start_inv [OF that] by blast
  show "epoll_law ep \<longrightarrow> (\<exists>cs. ip_inv ep held t cs)"
    if "io_pool_step ep adds_alone s t" "epoll_law ep \<longrightarrow> (\<exists>cs. ip_inv ep held s cs)" for s t
    using io_pool_step_inv [OF that(1)] that(2) by blast
qed

section \<open>Properties\<close>

text \<open>The manager that the threads have, with the calls under way completed.\<close>

lemma atomic_operations:
  fixes s :: "('u, 'k) io_pool"
  assumes "reach (io_pool_start ep held) (io_pool_step ep adds_alone) s" and "epoll_law ep"
  shows "(\<exists>n cs. reach (io_start ep) (io_step ep held) ((ip_io s)\<lparr>m_pendingEventCount := n, m_fdContexts := cs\<rparr>) \<and>
       length cs = length (m_fdContexts (ip_io s)) \<and>
       (\<forall>d<length cs. (\<forall>x\<in>set (ip_pcs s). \<forall>r. busy x = Some r \<longrightarrow> nat (rq_fd r) \<noteq> d) \<longrightarrow> cs ! d = m_fdContexts (ip_io s) ! d) \<and>
       ((\<forall>x\<in>set (ip_pcs s). busy x = None) \<longrightarrow> n = m_pendingEventCount (ip_io s) \<and> cs = m_fdContexts (ip_io s))) \<and>
     (\<forall>msg. Aborted msg \<in> set (ip_pcs s) \<longrightarrow> msg = ''can not add same event in the same fd'')"
proof -
  obtain cs where inv: "ip_inv ep held s cs" using io_pool_safe.reach_inv [OF assms(1)] assms(2) by blast
  let ?n = "m_pendingEventCount (ip_io s) + sum_list (map owed (ip_pcs s))"
  have r: "reach (io_start ep) (io_step ep held) ((ip_io s)\<lparr>m_pendingEventCount := ?n, m_fdContexts := cs\<rparr>)"
    and v: "view_ok (ip_pcs s) (m_fdContexts (ip_io s)) cs" and k: "\<forall>i<length (ip_pcs s). knows (ip_io s) (ip_pcs s ! i)"
    using inv by (simp_all add: ip_inv_def atomic_view_def)
  have busy: "inflight x = Some r \<Longrightarrow> busy x = Some r" for x :: "'u io_pc" and r
    by (rule past_busy [OF inflight_past])
  have own: "cs ! d = m_fdContexts (ip_io s) ! d"
    if "d < length cs" "\<forall>x\<in>set (ip_pcs s). \<forall>r. busy x = Some r \<longrightarrow> nat (rq_fd r) \<noteq> d" for d
    using v that busy by (simp add: view_ok_def) (metis nth_mem)
  have quiet: "?n = m_pendingEventCount (ip_io s) \<and> cs = m_fdContexts (ip_io s)" if q: "\<forall>x\<in>set (ip_pcs s). busy x = None"
  proof
    show "?n = m_pendingEventCount (ip_io s)" using owed_quiet [OF q] by simp
    show "cs = m_fdContexts (ip_io s)"
      by (rule nth_equalityI) (use v own q in \<open>simp_all add: view_ok_def\<close>)
  qed
  have "msg = ''can not add same event in the same fd''" if a: "Aborted msg \<in> set (ip_pcs s)" for msg
  proof -
    obtain i where "i < length (ip_pcs s)" "ip_pcs s ! i = Aborted msg" using a by (auto simp: in_set_conv_nth)
    with k show ?thesis by fastforce
  qed
  with r v own quiet show ?thesis by (intro conjI exI [of _ ?n] exI [of _ cs]) (simp_all add: view_ok_def)
qed

text \<open>C3: the event tables, with any number of threads in \<open>addEvent\<close>, \<open>delEvent\<close> and \<open>cancelEvent\<close>. As
  long as nobody else works on a descriptor during an \<open>addEvent\<close> on it, and descriptors are closed
  only when none of their events is registered: for every descriptor no call is working on, an event
  bit is set exactly when its context holds a scheduler and either a fiber or a callback, and the
  kernel's interest list is, edge triggered, exactly what the context says (the pipe's descriptor
  apart); when no call is under way, \<open>m_pendingEventCount\<close> is the number of event bits set. The state in
  which the threads start is any the manager reaches by its operations one at a time, those of the
  idle loop, the timers and \<open>cancalAll\<close> included.\<close>

theorem io_tables_consistent:
  fixes s :: "('u, 'k) io_pool"
  assumes "reach (io_pool_start ep held) (io_pool_step ep adds_alone) s" and "epoll_law ep"
  shows "length (m_fdContexts (ip_io s)) = 32 \<and>
     (\<forall>d<32. (\<forall>x\<in>set (ip_pcs s). \<forall>r. busy x = Some r \<longrightarrow> nat (rq_fd r) \<noteq> d) \<longrightarrow>
        slot_fits (alive (ip_io s)) (fc_events (m_fdContexts (ip_io s) ! d) AND READ \<noteq> 0) (fc_read (m_fdContexts (ip_io s) ! d)) \<and>
        slot_fits (alive (ip_io s)) (fc_events (m_fdContexts (ip_io s) ! d) AND WRITE \<noteq> 0) (fc_write (m_fdContexts (ip_io s) ! d)) \<and>
        (int d \<noteq> fst (m_tickleFds (ip_io s)) \<longrightarrow>
           ep_interest ep (im_kernel (ip_io s)) (int d) =
             (if fc_events (m_fdContexts (ip_io s) ! d) = 0 then None
              else Some (EPOLLET OR fc_events (m_fdContexts (ip_io s) ! d))))) \<and>
     ((\<forall>x\<in>set (ip_pcs s). busy x = None) \<longrightarrow>
        m_pendingEventCount (ip_io s) = of_nat (\<Sum>i<32. ev_weight (fc_events (m_fdContexts (ip_io s) ! i))))"
proof -
  obtain n cs where r: "reach (io_start ep) (io_step ep held) ((ip_io s)\<lparr>m_pendingEventCount := n, m_fdContexts := cs\<rparr>)"
    and len: "length cs = length (m_fdContexts (ip_io s))"
    and own: "\<forall>d<length cs. (\<forall>x\<in>set (ip_pcs s). \<forall>r. busy x = Some r \<longrightarrow> nat (rq_fd r) \<noteq> d) \<longrightarrow> cs ! d = m_fdContexts (ip_io s) ! d"
    and quiet: "(\<forall>x\<in>set (ip_pcs s). busy x = None) \<longrightarrow> n = m_pendingEventCount (ip_io s) \<and> cs = m_fdContexts (ip_io s)"
    using atomic_operations [OF assms] by blast
  have al: "alive ((ip_io s)\<lparr>m_pendingEventCount := n, m_fdContexts := cs\<rparr>) = alive (ip_io s)"
    by (simp add: alive_def fun_eq_iff)
  note t = io_tables [OF r assms(2), unfolded al, simplified]
  show ?thesis
  proof (intro conjI allI impI)
    fix d :: nat assume "d < 32" and "\<forall>x\<in>set (ip_pcs s). \<forall>r. busy x = Some r \<longrightarrow> nat (rq_fd r) \<noteq> d"
    with own len t have e: "m_fdContexts (ip_io s) ! d = cs ! d" and d: "d < length cs" by simp_all
    from t d show "slot_fits (alive (ip_io s)) (fc_events (m_fdContexts (ip_io s) ! d) AND READ \<noteq> 0) (fc_read (m_fdContexts (ip_io s) ! d))"
      "slot_fits (alive (ip_io s)) (fc_events (m_fdContexts (ip_io s) ! d) AND WRITE \<noteq> 0) (fc_write (m_fdContexts (ip_io s) ! d))"
      "int d \<noteq> fst (m_tickleFds (ip_io s)) \<Longrightarrow> ep_interest ep (im_kernel (ip_io s)) (int d) =
         (if fc_events (m_fdContexts (ip_io s) ! d) = 0 then None else Some (EPOLLET OR fc_events (m_fdContexts (ip_io s) ! d)))"
      by (simp_all add: e)
  qed (use t len quiet in auto)
qed

text \<open>C4: the event operations are atomic as long as nobody else works on a descriptor during
  \<open>addEvent\<close>. In every interleaving that keeps to this, the tables and the counter, with the calls
  under way completed, are those of a manager on which the operations are executed one at a time;
  a descriptor nobody is working on has exactly that manager's context, and when all threads are
  outside, so have the counter and all contexts. No assertion can fail but the one against adding an event twice.\<close>

theorem event_operations_atomic:
  fixes s :: "('u, 'k) io_pool"
  assumes "reach (io_pool_start ep held) (io_pool_step ep adds_alone) s" and "epoll_law ep"
  shows "(\<exists>n cs. reach (io_start ep) (io_step ep held) ((ip_io s)\<lparr>m_pendingEventCount := n, m_fdContexts := cs\<rparr>) \<and>
       length cs = length (m_fdContexts (ip_io s)) \<and>
       (\<forall>d<length cs. (\<forall>x\<in>set (ip_pcs s). \<forall>r. busy x = Some r \<longrightarrow> nat (rq_fd r) \<noteq> d) \<longrightarrow> cs ! d = m_fdContexts (ip_io s) ! d) \<and>
       ((\<forall>x\<in>set (ip_pcs s). busy x = None) \<longrightarrow> n = m_pendingEventCount (ip_io s) \<and> cs = m_fdContexts (ip_io s))) \<and>
     (\<forall>msg. Aborted msg \<in> set (ip_pcs s) \<longrightarrow> msg = ''can not add same event in the same fd'')"
  by (rule atomic_operations [OF assms])

text \<open>The samples: two threads; the first has asked for reading descriptor 7 and called \<open>epoll_ctl\<close>.\<close>

definition two_threads :: "('u, 'k) io_manager \<Rightarrow> int set \<Rightarrow> 'u io_pc \<Rightarrow> 'u io_pc \<Rightarrow> ('u, 'k) io_pool" where
  "two_threads io L x y = \<lparr>ip_io = io, ip_locks = L, ip_pcs = [x, y]\<rparr>"

lemma two_threads_simps [simp]:
  "ipc_at (two_threads io L x y) 0 z \<longleftrightarrow> x = z" "ipc_at (two_threads io L x y) (Suc 0) z \<longleftrightarrow> y = z"
  "ip_go 0 z io' L' (two_threads io L x y) = two_threads io' L' z y"
  "ip_go (Suc 0) z io' L' (two_threads io L x y) = two_threads io' L' x z"
  "ip_io (two_threads io L x y) = io" "ip_locks (two_threads io L x y) = L" "ip_pcs (two_threads io L x y) = [x, y]"
  by (simp_all add: two_threads_def ipc_at_def ip_go_def)

lemma two_threads_start:
  "reach (io_start ep) (io_step ep held) io \<Longrightarrow>
   reach (io_pool_start ep held) (io_pool_step ep G) (two_threads io {} (Outside a) (Outside b))"
  by (rule reach_start) (simp add: io_pool_start_def)

definition add_read :: "int \<Rightarrow> nat \<Rightarrow> nat \<Rightarrow> 'u request" where
  "add_read fd p q = \<lparr>rq_op = Op_Add p q None, rq_fd = fd, rq_event = READ\<rparr>"

definition del_write :: "int \<Rightarrow> 'u request" where
  "del_write fd = \<lparr>rq_op = Op_Del, rq_fd = fd, rq_event = WRITE\<rparr>"

lemma add_read_simps [simp]:
  "rq_op (add_read fd p q) = Op_Add p q None" "rq_fd (add_read fd p q) = fd" "rq_event (add_read fd p q) = READ"
  "is_add (add_read fd p q)"
  "rq_op (del_write fd) = Op_Del" "rq_fd (del_write fd) = fd" "rq_event (del_write fd) = WRITE" "\<not> is_add (del_write fd)"
  by (simp_all add: add_read_def del_write_def is_add_def)

theorem event_operations_atomic_witness:
  "\<exists>s k. reach (io_pool_start sample_epoll {}) (io_pool_step sample_epoll adds_alone) s \<and>
     s = two_threads (sample_io\<lparr>im_kernel := k\<rparr>) {} (Changed (add_read 7 0 9) READ) (Outside False) \<and>
     (\<exists>n cs. reach (io_start sample_epoll) (io_step sample_epoll {}) ((ip_io s)\<lparr>m_pendingEventCount := n, m_fdContexts := cs\<rparr>))"
proof -
  have ctx: "fc_events (rq_context sample_io (add_read 7 0 9)) = 0"
    by (simp add: rq_context_def sample_io_ctx fd_context_new_def event_defs)
  have ok: "request_ok sample_io (add_read 7 0 9)"
    by (simp add: request_ok_def in_table_def sample_io_len alive_def) (simp add: fresh_io_def)
  let ?s = "\<lambda>io x. two_threads io {} x (Outside False)"
  have 0: "reach (io_pool_start sample_epoll {}) (io_pool_step sample_epoll adds_alone) (?s sample_io (Outside False))"
    by (rule two_threads_start [OF sample_io_reach])
  have 1: "io_pool_step sample_epoll adds_alone (?s sample_io (Outside False)) (?s sample_io (Entered (add_read 7 0 9)))"
    using ic_enter [of "?s sample_io (Outside False)" 0 False "add_read 7 0 9" adds_alone sample_epoll] ok
    by (simp add: adds_alone_def less_Suc_eq)
  have 2: "io_pool_step sample_epoll adds_alone (?s sample_io (Entered (add_read 7 0 9)))
      (?s sample_io (Decided (add_read 7 0 9) EPOLL_CTL_ADD READ))"
    using ic_add_read [of "?s sample_io (Entered (add_read 7 0 9))" 0 "add_read 7 0 9" 0 sample_epoll adds_alone] ctx
    by (simp add: add_op_def)
  obtain k where k: "ep_ctl sample_epoll (im_kernel sample_io) EPOLL_CTL_ADD 7 (EPOLLET OR READ) = (0, k)"
    by (simp add: sample_epoll_def sample_ctl_def fresh_io_def)
  have 3: "io_pool_step sample_epoll adds_alone (?s sample_io (Decided (add_read 7 0 9) EPOLL_CTL_ADD READ))
      (?s (sample_io\<lparr>im_kernel := k\<rparr>) (Changed (add_read 7 0 9) READ))"
    using ic_ctl [of "?s sample_io (Decided (add_read 7 0 9) EPOLL_CTL_ADD READ)" 0 "add_read 7 0 9" EPOLL_CTL_ADD READ sample_epoll k] k
    by simp
  have r: "reach (io_pool_start sample_epoll {}) (io_pool_step sample_epoll adds_alone)
      (?s (sample_io\<lparr>im_kernel := k\<rparr>) (Changed (add_read 7 0 9) READ))"
    by (rule reach_step [OF reach_step [OF reach_step [OF 0 1] 2] 3])
  from event_operations_atomic [OF this sample_epoll_law] r show ?thesis by blast
qed

theorem io_tables_consistent_witness:
  "\<exists>s. reach (io_pool_start sample_epoll {}) (io_pool_step sample_epoll adds_alone) s \<and>
     s = two_threads sample_io7 {} (Entered (add_read 8 0 9)) (Outside False) \<and>
     fc_events (m_fdContexts (ip_io s) ! 7) = READ \<and>
     ep_interest sample_epoll (im_kernel (ip_io s)) 7 = Some (EPOLLET OR READ)"
proof -
  let ?s = "two_threads sample_io7 {} (Entered (add_read 8 0 9)) (Outside False)"
  have "alive sample_io7 0" by (simp add: alive_def sample_io7_def fresh_io_def)
  then have ok: "request_ok sample_io7 (add_read 8 0 9)"
    by (simp add: request_ok_def in_table_def sample_io7_ctx)
  have "io_pool_step sample_epoll adds_alone (two_threads sample_io7 {} (Outside False) (Outside False)) ?s"
    using ic_enter [of "two_threads sample_io7 {} (Outside False) (Outside False)" 0 False "add_read 8 0 9" adds_alone sample_epoll] ok
    by (simp add: adds_alone_def less_Suc_eq)
  then have r: "reach (io_pool_start sample_epoll {}) (io_pool_step sample_epoll adds_alone) ?s"
    by (rule reach_step [OF two_threads_start [OF sample_add_reach]])
  have "m_tickleFds sample_io7 = m_tickleFds sample_io" by (simp add: sample_io7_def)
  then have p: "fst (m_tickleFds sample_io7) \<noteq> 7" by (simp add: fresh_io_def)
  have e: "fc_events (m_fdContexts sample_io7 ! 7) = READ" using sample_io7_events by simp
  have "(READ :: event_bits) \<noteq> 0" by (simp add: event_defs)
  moreover have free: "\<forall>x\<in>set (ip_pcs ?s). \<forall>r. busy x = Some r \<longrightarrow> nat (rq_fd r) \<noteq> 7" by simp
  ultimately have "ep_interest sample_epoll (im_kernel (ip_io ?s)) (int 7) = Some (EPOLLET OR READ)"
    using io_tables_consistent [OF r sample_epoll_law, THEN conjunct2, THEN conjunct1, THEN spec, of 7] free p e by simp
  with r e show ?thesis by simp
qed

lemma epoll_law_success:
  assumes "epoll_law ep" and "ep_ctl ep k op fd ev = (0, k')"
  shows "ep_interest ep k' = (ep_interest ep k)(fd := if op = EPOLL_CTL_DEL then None else Some ev)"
  using spec [OF spec [OF spec [OF spec [OF assms(1) [unfolded epoll_law_def], of k], of op], of fd], of ev] assms(2) by simp

lemma epoll_law_absent:
  assumes "epoll_law ep" and "ep_interest ep k fd = None" and "op \<noteq> EPOLL_CTL_ADD"
  shows "fst (ep_ctl ep k op fd ev) \<noteq> 0"
  using spec [OF spec [OF spec [OF spec [OF assms(1) [unfolded epoll_law_def], of k], of op], of fd], of ev] assms(2,3) by auto

text \<open>A registered descriptor that the kernel has forgotten cannot be removed.\<close>

lemma forgotten_stays:
  assumes law: "epoll_law ep" and t: "in_table fd io" and e: "fc_events (m_fdContexts io ! nat fd) = READ"
    and k: "ep_interest ep (im_kernel io) fd = None"
  shows "\<exists>k. del_event ep fd event io = Inr (False, io\<lparr>im_kernel := k\<rparr>) \<and> cancel_event ep fd event io = Inr (False, io\<lparr>im_kernel := k\<rparr>)"
    and "\<exists>k. cancal_all ep fd io = Inr (False, io\<lparr>im_kernel := k\<rparr>)"
proof -
  define c where "c = m_fdContexts io ! nat fd"
  have ec: "fc_events c = READ" using e by (simp add: c_def)
  have gone: "fst (ep_ctl ep (im_kernel io) EPOLL_CTL_DEL fd ev) \<noteq> 0" for ev
    by (rule epoll_law_absent [OF law k]) simp
  show "\<exists>k. del_event ep fd event io = Inr (False, io\<lparr>im_kernel := k\<rparr>) \<and> cancel_event ep fd event io = Inr (False, io\<lparr>im_kernel := k\<rparr>)"
  proof (cases "READ AND event = 0")
    case True
    then have "del_event ep fd event io = Inr (False, io) \<and> cancel_event ep fd event io = Inr (False, io)"
      by (intro del_event_no) (simp add: e)
    then show ?thesis by (intro exI [of _ "im_kernel io"]) simp
  next
    case False
    have z: "READ AND NOT event = 0" using False by (simp add: READ_def one_and_eq mod2_eq_if split: if_splits)
    have "fst (ep_ctl ep (im_kernel io) (del_op (fc_events c AND NOT event)) fd (EPOLLET OR fc_events c AND NOT event)) \<noteq> 0"
      using gone [of EPOLLET] by (simp add: ec z del_op_def)
    moreover have "fc_events c AND event \<noteq> 0" using False by (simp add: ec)
    ultimately show ?thesis using del_event_fails [OF t c_def] by auto
  qed
  show "\<exists>k. cancal_all ep fd io = Inr (False, io\<lparr>im_kernel := k\<rparr>)"
    using t gone [of 0] by (auto simp: cancal_all_def e ctl_def split_beta Let_def event_defs)
qed

text \<open>C5: \<open>addEvent\<close> needs the mutex it does not take. From any state of the manager in which a
  descriptor is registered for writing, one thread that adds reading and one that deletes writing,
  neither of which does anything wrong, can interleave so that both calls succeed and the kernel has forgotten
  the descriptor although its context is registered for reading and the event is counted as pending: it
  will never be reported, and no \<open>delEvent\<close>, \<open>cancelEvent\<close> or \<open>cancalAll\<close> can remove it any
  more, so the idle loop does not end either.\<close>

theorem add_event_race:
  fixes io :: "('u, 'k) io_manager"
  assumes io: "reach (io_start ep) (io_step ep held) io" and law: "epoll_law ep"
    and accepts: "\<forall>k op ev. (op = EPOLL_CTL_ADD \<longleftrightarrow> ep_interest ep k fd = None) \<longrightarrow> fst (ep_ctl ep k op fd ev) = 0"
    and t: "in_table fd io" and pipe: "fd \<noteq> fst (m_tickleFds io)" and w: "fc_events (m_fdContexts io ! nat fd) = WRITE" and p: "alive io p"
  shows "\<exists>s :: ('u, 'k) io_pool. reach (io_pool_start ep held) (io_pool_step ep (\<lambda>_ _ _. True)) s \<and> ip_pcs s = [Outside True, Outside True] \<and>
     m_fdContexts (ip_io s) ! nat fd = event_set Read_Slot READ (event_context_of (Some p) q None) (fd_context_new (nat fd)) \<and>
     m_pendingEventCount (ip_io s) = m_pendingEventCount io \<and> m_pendingEventCount io \<noteq> 0 \<and> ep_interest ep (im_kernel (ip_io s)) fd = None \<and>
     (\<forall>event. \<exists>k. del_event ep fd event (ip_io s) = Inr (False, (ip_io s)\<lparr>im_kernel := k\<rparr>) \<and>
        cancel_event ep fd event (ip_io s) = Inr (False, (ip_io s)\<lparr>im_kernel := k\<rparr>)) \<and>
     (\<exists>k. cancal_all ep fd (ip_io s) = Inr (False, (ip_io s)\<lparr>im_kernel := k\<rparr>))"
proof -
  let ?G = "\<lambda>_ _ _. True" and ?a = "add_read fd p q :: 'u request" and ?b = "del_write fd :: 'u request" and ?d = "nat fd"
  let ?R = "reach (io_pool_start ep held) (io_pool_step ep ?G)"
  define c where "c = m_fdContexts io ! ?d"
  have wf: "io_wf ep io" using io_safe.reach_inv [OF io] law by blast
  then have core: "io_core io" and mir: "io_mirror ep io" by (simp_all add: io_wf_def)
  have d: "0 \<le> fd" "?d < length (m_fdContexts io)" using t by (simp_all add: in_table_def)
  have e: "fc_events c = WRITE" using w by (simp add: c_def)
  have ok: "ctx_ok (alive io) c" "fc_fd c = fd" using io_core_ctx [OF core t] by (simp_all add: c_def)
  have new: "fc_read c = event_context_new" using ok(1) e by (simp add: ctx_ok_def slot_fits_def event_defs)
  have i0: "ep_interest ep (im_kernel io) fd \<noteq> None"
    using mir d pipe e by (auto simp: io_mirror_def c_def interest_of_def event_defs)
  obtain k1 where k1: "ep_ctl ep (im_kernel io) EPOLL_CTL_MOD fd (EPOLLET OR WRITE OR READ) = (0, k1)"
    using accepts i0 by (fastforce simp: prod_eq_iff)
  have i1: "ep_interest ep k1 fd \<noteq> None" by (simp add: epoll_law_success [OF law k1])
  obtain k2 where k2: "ep_ctl ep k1 EPOLL_CTL_DEL fd (EPOLLET OR 0) = (0, k2)"
    using accepts i1 by (fastforce simp: prod_eq_iff)
  have i2: "ep_interest ep k2 fd = None" by (simp add: epoll_law_success [OF law k2])
  have cb: "rq_context io ?b = c" "rq_context io ?a = c" by (simp_all add: rq_context_def c_def)
  have rq: "request_ok io ?a" "request_ok io ?b" using t p by (simp_all add: request_ok_def)
  have bits: "WRITE AND READ = 0" "WRITE \<noteq> 0" "WRITE AND NOT WRITE = 0" by (simp_all add: event_defs)
  have ops: "add_op WRITE = EPOLL_CTL_MOD" "del_op 0 = EPOLL_CTL_DEL" by (simp_all add: add_op_def del_op_def event_defs)
  let ?A = "Decided ?a EPOLL_CTL_MOD (WRITE OR READ)"
  let ?io2 = "io\<lparr>im_kernel := k2\<rparr>" and ?n = "m_pendingEventCount io"
  let ?io3 = "?io2\<lparr>m_pendingEventCount := ?n - 1\<rparr>"
  let ?io4 = "put_context ?b (fd_context_new ?d) ?io3"
  let ?io5 = "?io4\<lparr>m_pendingEventCount := ?n\<rparr>"
  let ?c = "event_set Read_Slot READ (event_context_of (Some p) q None) (fd_context_new ?d)"
  let ?io6 = "put_context ?a ?c ?io5"
  have "?R (two_threads io {} (Outside False) (Outside False))" by (rule two_threads_start [OF io])
  then have "?R (two_threads io {} (Entered ?a) (Outside False))"
    by (rule reach_step) (use ic_enter [of "two_threads io {} (Outside False) (Outside False)" 0 False ?a ?G ep] rq in simp)
  then have "?R (two_threads io {} ?A (Outside False))"
    by (rule reach_step)
       (use ic_add_read [of "two_threads io {} (Entered ?a) (Outside False)" 0 ?a WRITE ep ?G] in \<open>simp add: cb e bits ops\<close>)
  then have "?R (two_threads io {} ?A (Entered ?b))"
    by (rule reach_step) (use ic_enter [of "two_threads io {} ?A (Outside False)" 1 False ?b ?G ep] rq in simp)
  then have "?R (two_threads io {fd} ?A (Decided ?b EPOLL_CTL_DEL 0))"
    by (rule reach_step)
       (use ic_lock [of "two_threads io {} ?A (Entered ?b)" 1 ?b WRITE 0 ep ?G] in \<open>simp add: cb e bits ops\<close>)
  then have "?R (two_threads (io\<lparr>im_kernel := k1\<rparr>) {fd} (Changed ?a (WRITE OR READ)) (Decided ?b EPOLL_CTL_DEL 0))"
    by (rule reach_step)
       (use ic_ctl [of "two_threads io {fd} ?A (Decided ?b EPOLL_CTL_DEL 0)" 0 ?a EPOLL_CTL_MOD "WRITE OR READ" ep k1 ?G] k1 in simp)
  then have "?R (two_threads ?io2 {fd} (Changed ?a (WRITE OR READ)) (Changed ?b 0))"
    by (rule reach_step)
       (use ic_ctl [of "two_threads (io\<lparr>im_kernel := k1\<rparr>) {fd} (Changed ?a (WRITE OR READ)) (Decided ?b EPOLL_CTL_DEL 0)" 1 ?b
          EPOLL_CTL_DEL 0 ep k2 ?G] k2 in simp)
  then have "?R (two_threads ?io3 {fd} (Changed ?a (WRITE OR READ)) (Counted ?b 0))"
    by (rule reach_step)
       (use ic_del_count [of "two_threads ?io2 {fd} (Changed ?a (WRITE OR READ)) (Changed ?b 0)" 1 ?b 0 ep ?G] in simp)
  moreover have r: "reset_event_context Write_Slot (c\<lparr>fc_events := 0\<rparr>) = fd_context_new ?d"
    using new ok(2) d(1) by (cases c) (simp add: reset_event_context_eq fd_context_new_def EV_NONE_def)
  have "rq_context ?io3 ?b = c" by (simp add: rq_context_def c_def)
  then have "io_pool_step ep ?G (two_threads ?io3 {fd} (Changed ?a (WRITE OR READ)) (Counted ?b 0))
      (two_threads ?io4 {} (Changed ?a (WRITE OR READ)) (Outside True))"
    using ic_del_set [of "two_threads ?io3 {fd} (Changed ?a (WRITE OR READ)) (Counted ?b 0)" 1 ?b 0 Write_Slot ep ?G] r by simp
  ultimately have "?R (two_threads ?io4 {} (Changed ?a (WRITE OR READ)) (Outside True))" by (rule reach_step)
  then have "?R (two_threads ?io5 {} (Counted ?a (WRITE OR READ)) (Outside True))"
    by (rule reach_step)
       (use ic_add_count [of "two_threads ?io4 {} (Changed ?a (WRITE OR READ)) (Outside True)" 0 ?a "WRITE OR READ" ep ?G] in
         \<open>simp add: put_context_def\<close>)
  moreover have "rq_context ?io5 ?a = fd_context_new ?d" using d by (simp add: rq_context_def put_context_def)
  then have "io_pool_step ep ?G (two_threads ?io5 {} (Counted ?a (WRITE OR READ)) (Outside True)) (two_threads ?io6 {} (Outside True) (Outside True))"
    using ic_add_set [of "two_threads ?io5 {} (Counted ?a (WRITE OR READ)) (Outside True)" 0 ?a "WRITE OR READ" p q None Read_Slot
        "fd_context_new ?d" ep ?G] by (simp add: fd_context_new_def)
  ultimately have run: "?R (two_threads ?io6 {} (Outside True) (Outside True))" by (rule reach_step)
  have c6: "m_fdContexts ?io6 ! ?d = ?c" and t6: "in_table fd ?io6" using d by (simp_all add: put_context_def in_table_def)
  have e6: "fc_events ?c = READ" by (simp add: fd_context_new_def EV_NONE_def)
  have k6: "ep_interest ep (im_kernel ?io6) fd = None" using i2 by (simp add: put_context_def)
  have e6: "fc_events (m_fdContexts ?io6 ! ?d) = READ" unfolding c6 by (rule e6)
  have stuck: "\<forall>event. \<exists>k. del_event ep fd event ?io6 = Inr (False, ?io6\<lparr>im_kernel := k\<rparr>) \<and>
      cancel_event ep fd event ?io6 = Inr (False, ?io6\<lparr>im_kernel := k\<rparr>)"
    using forgotten_stays(1) [OF law t6 e6 k6] by blast
  have "\<exists>k. cancal_all ep fd ?io6 = Inr (False, ?io6\<lparr>im_kernel := k\<rparr>)"
    by (rule forgotten_stays(2) [OF law t6 e6 k6])
  moreover have "?n \<noteq> 0"
  proof
    assume "?n = 0"
    then have "fc_events (m_fdContexts io ! ?d) = 0" using io_core_no_events [OF core] nth_mem [OF d(2)] by blast
    with w bits show False by simp
  qed
  moreover have "m_pendingEventCount ?io6 = ?n" by (simp add: put_context_def)
  ultimately show ?thesis using run c6 k6 stuck
    by (intro exI [of _ "two_threads ?io6 {} (Outside True) (Outside True)"]) (simp only: two_threads_simps simp_thms)
qed

text \<open>The sample: fiber 9 waits for writing to descriptor 7.\<close>

lemma sample_accepts:
  "\<forall>k op ev. (op = EPOLL_CTL_ADD \<longleftrightarrow> ep_interest sample_epoll k fd = None) \<longrightarrow> fst (ep_ctl sample_epoll k op fd ev) = 0"
proof (intro allI impI)
  fix k op ev
  show "op = EPOLL_CTL_ADD \<longleftrightarrow> ep_interest sample_epoll k fd = None \<Longrightarrow> fst (ep_ctl sample_epoll k op fd ev) = 0"
    by (cases op) (auto simp: sample_epoll_def sample_ctl_def)
qed

lemma sample_write:
  obtains io :: "(nat, int \<Rightarrow> event_bits option) io_manager" where "reach (io_start sample_epoll) (io_step sample_epoll {}) io" and "in_table 7 io" and "7 \<noteq> fst (m_tickleFds io)"
    and "fc_events (m_fdContexts io ! nat 7) = WRITE" and "alive io 0"
proof -
  let ?io = "sample_io :: (nat, int \<Rightarrow> event_bits option) io_manager"
  have t: "in_table 7 ?io" by (simp add: in_table_def sample_io_len)
  have c: "fd_context_new 7 = m_fdContexts ?io ! nat 7" by (simp add: sample_io_ctx)
  have al: "alive ?io 0" by (simp add: alive_def fresh_io_def)
  have "fst (ep_ctl sample_epoll (im_kernel ?io) (add_op (fc_events (fd_context_new 7 :: nat fd_context))) 7
      (EPOLLET OR fc_events (fd_context_new 7 :: nat fd_context) OR WRITE)) = 0"
    by (rule sample_accepts [rule_format]) (simp add: add_op_def fd_context_new_def EV_NONE_def sample_epoll_def fresh_io_def)
  from add_event_ok [OF t c get_event_context_simps(2) _ _ this, of None RUNNING "Some 0" 9]
  obtain io where a: "add_event sample_epoll (Some 0) 9 RUNNING 7 WRITE None ?io = Inr (0, io)"
    and io: "m_fdContexts io = (m_fdContexts ?io)[nat 7 := event_set Write_Slot WRITE (event_context_of (Some 0) 9 None) (fd_context_new 7)]"
    "m_tickleFds io = m_tickleFds ?io" "im_schedulers io = im_schedulers ?io"
    by (simp add: fd_context_new_def EV_NONE_def)
  have "reach (io_start sample_epoll) (io_step sample_epoll {}) io"
    by (rule reach_step [OF sample_io_reach io_add [OF al a]])
  moreover have "fc_events (m_fdContexts io ! nat 7) = WRITE"
    by (simp add: io(1) sample_io_len) (simp add: fd_context_new_def EV_NONE_def)
  ultimately show thesis
    using that [of io] t al by (simp add: in_table_def alive_def io) (simp add: fresh_io_def)
qed

theorem add_event_race_witness:
  "\<exists>s :: (nat, int \<Rightarrow> event_bits option) io_pool. ip_pcs s = [Outside True, Outside True] \<and>
     fc_events (m_fdContexts (ip_io s) ! 7) = READ \<and> ep_interest sample_epoll (im_kernel (ip_io s)) 7 = None"
proof -
  obtain io :: "(nat, int \<Rightarrow> event_bits option) io_manager" where io: "reach (io_start sample_epoll) (io_step sample_epoll {}) io" and t: "in_table 7 io" and p: "7 \<noteq> fst (m_tickleFds io)"
    and w: "fc_events (m_fdContexts io ! nat 7) = WRITE" and al: "alive io 0" by (rule sample_write)
  from add_event_race [OF io sample_epoll_law sample_accepts t p w al, of 8] obtain s :: "(nat, int \<Rightarrow> event_bits option) io_pool" where
    "ip_pcs s = [Outside True, Outside True]" "ep_interest sample_epoll (im_kernel (ip_io s)) 7 = None"
    "m_fdContexts (ip_io s) ! nat 7 = event_set Read_Slot READ (event_context_of (Some 0) 8 None) (fd_context_new (nat 7))"
    by blast
  then show ?thesis by (intro exI [of _ s]) (simp add: fd_context_new_def EV_NONE_def)
qed

end
