(* ===== verification/Hook.thy ===== *)
theory Hook
  imports IO_Manager
begin

text \<open>
  Hook.cpp: the wrappers that replace blocking system calls. The original calls are parameters
  (\<open>posix\<close>, and for the transfer functions the list of results the call gives, with
  \<open>errno\<close>). A wrapper that gives up control is cut at its \<open>yield\<close>: what it does before,
  and what it does when the fiber continues.
\<close>

section \<open>State\<close>

definition EINTR :: int where "EINTR = 4"
definition EBADF :: int where "EBADF = 9"
definition EAGAIN :: int where "EAGAIN = 11"
definition ETIMEDOUT :: int where "ETIMEDOUT = 110"
definition EINPROGRESS :: int where "EINPROGRESS = 115"

text \<open>
  The closures the wrappers hand to the I/O manager: the time-out of a wait, bound to the
  \<open>timer_info\<close> it holds weakly, and the rescheduling of a sleeping fiber.
\<close>

datatype 'a hook_fn = Wait_Timeout nat int event_bits | Schedule_Fiber nat | App_Fn 'a

text \<open>
  \<open>hk_enable\<close> is \<open>t_hook_enable\<close>, \<open>hk_iom\<close> whether \<open>IOManager::GetThis()\<close> is not
  null, \<open>hk_tinfo\<close> the live \<open>timer_info\<close> objects with their \<open>cancelled\<close>.
\<close>

record ('a, 'k, 'p) hook_world =
  hk_enable :: bool
  hk_iom :: bool
  hk_io :: "('a hook_fn, 'k) io_manager"
  hk_fds :: fd_manager
  hk_px :: 'p
  hk_tinfo :: "nat \<rightharpoonup> int"
  hk_errno :: int

definition is_hook_enable :: "('a, 'k, 'p) hook_world \<Rightarrow> bool" where
  "is_hook_enable w \<longleftrightarrow> hk_enable w"

definition set_hook_enable :: "bool \<Rightarrow> ('a, 'k, 'p) hook_world \<Rightarrow> ('a, 'k, 'p) hook_world" where
  "set_hook_enable flag w = w\<lparr>hk_enable := flag\<rparr>"

text \<open>\<open>FdMgr::GetInstance()->get(fd, auto_create)\<close>, with the object it points to.\<close>

definition hook_get ::
  "'p posix \<Rightarrow> int \<Rightarrow> bool \<Rightarrow> ('a, 'k, 'p) hook_world \<Rightarrow> ((nat \<times> fd_ctx) option \<times> ('a, 'k, 'p) hook_world) outcome" where
  "hook_get px fd auto_create w =
     obind (fd_get px fd auto_create (hk_px w) (hk_fds w)) (\<lambda>(r, k, m).
       let w1 = w\<lparr>hk_px := k, hk_fds := m\<rparr>
       in case r of
            None \<Rightarrow> Inr (None, w1)
          | Some p \<Rightarrow> obind (deref (fdctx_store m) p) (\<lambda>c. Inr (Some (p, c), w1)))"

section \<open>\<open>do_io\<close>\<close>

text \<open>
  The part before the first call: call the original once, fail, or run the hooked loop with a
  time-out, for which the new \<open>timer_info\<close> is allocated at \<open>ti\<close>.
\<close>

datatype io_entry = Io_Direct | Io_Fail int | Io_Hooked millis

definition do_io_entry ::
  "'p posix \<Rightarrow> nat \<Rightarrow> int \<Rightarrow> int \<Rightarrow> ('a, 'k, 'p) hook_world \<Rightarrow> (io_entry \<times> ('a, 'k, 'p) hook_world) outcome" where
  "do_io_entry px ti fd timeout_so w =
     (if \<not> hk_enable w then Inr (Io_Direct, w)
      else
        obind (hook_get px fd False w) (\<lambda>(r, w1).
          case r of
            None \<Rightarrow> Inr (Io_Direct, w1)
          | Some (p, c) \<Rightarrow>
              if m_isClosed c then Inr (Io_Fail (-1), w1\<lparr>hk_errno := EBADF\<rparr>)
              else if \<not> m_isSocket c \<or> m_userNoBlock c then Inr (Io_Direct, w1)
              else Inr (Io_Hooked (get_timeout timeout_so c), w1\<lparr>hk_tinfo := (hk_tinfo w1)(ti \<mapsto> 0)\<rparr>)))"

text \<open>The transfer functions and \<open>accept\<close> are \<open>do_io\<close> with these arguments.\<close>

datatype io_call = Accept | Read | Readv | Recv | Recvfrom | Recvmsg | Write | Writev | Send | Sendto | Sendmsg

fun io_call_event :: "io_call \<Rightarrow> event_bits \<times> int" where
  "io_call_event Accept = (READ, SO_RECVTIMEO)"
| "io_call_event Read = (READ, SO_RECVTIMEO)"
| "io_call_event Readv = (READ, SO_RECVTIMEO)"
| "io_call_event Recv = (READ, SO_RECVTIMEO)"
| "io_call_event Recvfrom = (READ, SO_RECVTIMEO)"
| "io_call_event Recvmsg = (READ, SO_RECVTIMEO)"
| "io_call_event Write = (WRITE, SO_SENDTIMEO)"
| "io_call_event Writev = (WRITE, SO_SENDTIMEO)"
| "io_call_event Send = (WRITE, SO_SENDTIMEO)"
| "io_call_event Sendto = (WRITE, SO_SENDTIMEO)"
| "io_call_event Sendmsg = (WRITE, SO_SENDTIMEO)"

text \<open>
  The calls of one round: the original is called until it is not interrupted. An entry of the list is
  a result with the \<open>errno\<close> it leaves; \<open>None\<close> when all of them are interruptions.
\<close>

fun do_io_calls :: "(int \<times> int) list \<Rightarrow> (int \<times> int) option" where
  "do_io_calls [] = None"
| "do_io_calls ((n, err) # rs) = (if n = -1 \<and> err = EINTR then do_io_calls rs else Some (n, err))"

text \<open>Leaving the function releases its \<open>timer_info\<close>.\<close>

definition drop_tinfo :: "nat \<Rightarrow> ('a, 'k, 'p) hook_world \<Rightarrow> ('a, 'k, 'p) hook_world" where
  "drop_tinfo ti w = w\<lparr>hk_tinfo := (hk_tinfo w)(ti := None)\<rparr>"

text \<open>How a wait ends: the function returns, or the fiber has yielded, with the timer it keeps.\<close>

datatype io_wait = Io_Return int | Io_Yielded "nat option"

definition cancel_timer :: "nat option \<Rightarrow> ('u, 'k) io_manager \<Rightarrow> ('u, 'k) io_manager outcome" where
  "cancel_timer timer io =
     (case timer of
        None \<Rightarrow> Inr io
      | Some p \<Rightarrow> obind (timer_cancel p (im_timers io)) (\<lambda>(_, tm). Inr (io\<lparr>im_timers := tm\<rparr>)))"

text \<open>
  \<open>addConditionTimer(to, [winfo, fd, iom, event]{...}, winfo)\<close> for a valid time-out; \<open>p\<close> is
  the address of the timer, \<open>ti\<close> the \<open>timer_info\<close>.
\<close>

definition arm_timeout ::
  "millis \<Rightarrow> nat \<Rightarrow> nat \<Rightarrow> int \<Rightarrow> event_bits \<Rightarrow> millis \<Rightarrow> ('a hook_fn, 'k) io_manager
   \<Rightarrow> (nat option \<times> ('a hook_fn, 'k) io_manager) outcome" where
  "arm_timeout now p ti fd event to io =
     (if to \<noteq> -1 then
        obind (add_timer now p to (Some (User_Fn (Wait_Timeout ti fd event))) False (im_timers io)) (\<lambda>(front, tm).
          let io1 = io\<lparr>im_timers := tm\<rparr>
          in obind (if front then on_timer_inserted_at_front io1 else Inr io1) (\<lambda>io2. Inr (Some p, io2)))
      else Inr (None, io))"

text \<open>The branch for \<open>EAGAIN\<close>, up to the \<open>yield\<close>. \<open>q\<close> is the running fiber, in state \<open>st\<close>.\<close>

definition do_io_wait ::
  "'k epoll \<Rightarrow> millis \<Rightarrow> nat \<Rightarrow> nat \<Rightarrow> nat \<Rightarrow> fiber_state \<Rightarrow> int \<Rightarrow> event_bits \<Rightarrow> millis \<Rightarrow> ('a, 'k, 'p) hook_world
   \<Rightarrow> (io_wait \<times> ('a, 'k, 'p) hook_world) outcome" where
  "do_io_wait ep now p ti q st fd event to w =
     (if \<not> hk_iom w then Inl Null_Deref
      else
        obind (arm_timeout now p ti fd event to (hk_io w)) (\<lambda>(timer, io1).
        obind (add_event ep (Some (im_this io1)) q st fd event None io1) (\<lambda>(rt, io2).
          if rt = -1 then
            obind (cancel_timer timer io2) (\<lambda>io3. Inr (Io_Return (-1), drop_tinfo ti (w\<lparr>hk_io := io3\<rparr>)))
          else Inr (Io_Yielded timer, w\<lparr>hk_io := io2\<rparr>))))"

text \<open>When the fiber continues: time-out, or another round (\<open>None\<close>).\<close>

definition do_io_resume ::
  "nat option \<Rightarrow> nat \<Rightarrow> ('a, 'k, 'p) hook_world \<Rightarrow> (int option \<times> ('a, 'k, 'p) hook_world) outcome" where
  "do_io_resume timer ti w =
     obind (cancel_timer timer (hk_io w)) (\<lambda>io.
     obind (deref (hk_tinfo w) ti) (\<lambda>c.
       let w1 = w\<lparr>hk_io := io\<rparr>
       in if c \<noteq> 0 then Inr (Some (-1), drop_tinfo ti (w1\<lparr>hk_errno := c\<rparr>)) else Inr (None, w1)))"

text \<open>The time-out closure; \<open>OnTimer\<close> and the closure both test that the \<open>timer_info\<close> lives.\<close>

definition wait_timeout ::
  "'k epoll \<Rightarrow> nat \<Rightarrow> int \<Rightarrow> event_bits \<Rightarrow> ('a, 'k, 'p) hook_world \<Rightarrow> ('a, 'k, 'p) hook_world outcome" where
  "wait_timeout ep ti fd event w =
     (case hk_tinfo w ti of
        None \<Rightarrow> Inr w
      | Some c \<Rightarrow>
          if c \<noteq> 0 then Inr w
          else
            obind (cancel_event ep fd event (hk_io w)) (\<lambda>(_, io).
              Inr (w\<lparr>hk_tinfo := (hk_tinfo w)(ti \<mapsto> ETIMEDOUT), hk_io := io\<rparr>)))"

text \<open>
  One round: the calls, then return their result or wait. \<open>None\<close> when every call is interrupted.
\<close>

definition do_io_round ::
  "'k epoll \<Rightarrow> millis \<Rightarrow> nat \<Rightarrow> nat \<Rightarrow> nat \<Rightarrow> fiber_state \<Rightarrow> int \<Rightarrow> event_bits \<Rightarrow> millis \<Rightarrow> (int \<times> int) list
   \<Rightarrow> ('a, 'k, 'p) hook_world \<Rightarrow> (io_wait \<times> ('a, 'k, 'p) hook_world) option outcome" where
  "do_io_round ep now p ti q st fd event to rs w =
     (case do_io_calls rs of
        None \<Rightarrow> Inr None
      | Some (n, err) \<Rightarrow>
          let w1 = w\<lparr>hk_errno := err\<rparr>
          in if n = -1 \<and> err = EAGAIN then
               obind (do_io_wait ep now p ti q st fd event to w1) (\<lambda>r. Inr (Some r))
             else Inr (Some (Io_Return n, drop_tinfo ti w1)))"

section \<open>The other wrappers\<close>

text \<open>
  \<open>sleep(seconds)\<close> up to the \<open>yield\<close>: \<open>seconds * 1000\<close> is computed in
  \<open>unsigned int\<close>. The result is \<open>None\<close> when the original is called.
\<close>

definition hook_sleep ::
  "millis \<Rightarrow> nat \<Rightarrow> nat \<Rightarrow> 32 word \<Rightarrow> ('a, 'k, 'p) hook_world \<Rightarrow> (nat option \<times> ('a, 'k, 'p) hook_world) outcome" where
  "hook_sleep now p q seconds w =
     (if \<not> hk_enable w then Inr (None, w)
      else if \<not> hk_iom w then Inl Null_Deref
      else
        obind (add_timer now p (uint (seconds * 1000)) (Some (User_Fn (Schedule_Fiber q))) False (im_timers (hk_io w))) (\<lambda>(front, tm).
          let io1 = (hk_io w)\<lparr>im_timers := tm\<rparr>
          in obind (if front then on_timer_inserted_at_front io1 else Inr io1) (\<lambda>io2.
               Inr (Some p, w\<lparr>hk_io := io2\<rparr>))))"

definition hook_socket ::
  "'p posix \<Rightarrow> ('a, 'k, 'p) hook_world \<Rightarrow> (int \<times> ('a, 'k, 'p) hook_world) outcome" where
  "hook_socket px w =
     (let (fd, k) = px_socket px (hk_px w);
          w1 = w\<lparr>hk_px := k\<rparr>
      in if \<not> hk_enable w \<or> fd = -1 then Inr (fd, w1)
         else obind (hook_get px fd True w1) (\<lambda>(_, w2). Inr (fd, w2)))"

text \<open>\<open>accept\<close> after \<open>do_io\<close> has returned \<open>fd\<close>.\<close>

definition hook_accept_done ::
  "'p posix \<Rightarrow> int \<Rightarrow> ('a, 'k, 'p) hook_world \<Rightarrow> (int \<times> ('a, 'k, 'p) hook_world) outcome" where
  "hook_accept_done px fd w =
     (if fd \<ge> 0 then obind (hook_get px fd True w) (\<lambda>(_, w1). Inr (fd, w1)) else Inr (fd, w))"

text \<open>
  \<open>connect_with_timeout\<close>: \<open>conn\<close> is the result of the original \<open>connect\<close> with its
  \<open>errno\<close>. It returns, or has yielded waiting for the connection, or goes straight on to the
  final \<open>getsockopt\<close> when the event could not be registered.
\<close>

datatype connect_state = Conn_Return int | Conn_Yielded "nat option" | Conn_Check

definition connect_with_timeout ::
  "'p posix \<Rightarrow> 'k epoll \<Rightarrow> millis \<Rightarrow> nat \<Rightarrow> nat \<Rightarrow> nat \<Rightarrow> fiber_state \<Rightarrow> int \<Rightarrow> int \<times> int \<Rightarrow> millis
   \<Rightarrow> ('a, 'k, 'p) hook_world \<Rightarrow> (connect_state \<times> ('a, 'k, 'p) hook_world) outcome" where
  "connect_with_timeout px ep now p ti q st fd conn timeout_ms w =
     (let (n, err) = conn in
      if \<not> hk_enable w then Inr (Conn_Return n, w\<lparr>hk_errno := err\<rparr>)
      else
        obind (hook_get px fd False w) (\<lambda>(r, w1).
          case r of
            None \<Rightarrow> Inr (Conn_Return (-1), w1\<lparr>hk_errno := EBADF\<rparr>)
          | Some (_, c) \<Rightarrow>
              if m_isClosed c then Inr (Conn_Return (-1), w1\<lparr>hk_errno := EBADF\<rparr>)
              else if \<not> m_isSocket c \<or> m_userNoBlock c then Inr (Conn_Return n, w1\<lparr>hk_errno := err\<rparr>)
              else
                let w2 = w1\<lparr>hk_errno := err\<rparr>
                in if n = 0 then Inr (Conn_Return 0, w2)
                   else if n \<noteq> -1 \<or> err \<noteq> EINPROGRESS then Inr (Conn_Return n, w2)
                   else if \<not> hk_iom w2 then Inl Null_Deref
                   else
                     let w3 = w2\<lparr>hk_tinfo := (hk_tinfo w2)(ti \<mapsto> 0)\<rparr> in
                     obind (arm_timeout now p ti fd WRITE timeout_ms (hk_io w3)) (\<lambda>(timer, io1).
                     obind (add_event ep (Some (im_this io1)) q st fd WRITE None io1) (\<lambda>(rt, io2).
                       if rt = 0 then Inr (Conn_Yielded timer, w3\<lparr>hk_io := io2\<rparr>)
                       else obind (cancel_timer timer io2) (\<lambda>io3. Inr (Conn_Check, w3\<lparr>hk_io := io3\<rparr>))))))"

text \<open>\<open>connect\<close>, after the static initialisation has set the time-out.\<close>

definition s_connect_timeout :: millis where "s_connect_timeout = 3000"

definition hook_connect ::
  "'p posix \<Rightarrow> 'k epoll \<Rightarrow> millis \<Rightarrow> nat \<Rightarrow> nat \<Rightarrow> nat \<Rightarrow> fiber_state \<Rightarrow> int \<Rightarrow> int \<times> int
   \<Rightarrow> ('a, 'k, 'p) hook_world \<Rightarrow> (connect_state \<times> ('a, 'k, 'p) hook_world) outcome" where
  "hook_connect px ep now p ti q st fd conn w =
     connect_with_timeout px ep now p ti q st fd conn s_connect_timeout w"

text \<open>The rest of it: \<open>getsockopt(SO_ERROR)\<close> returned \<open>g\<close>, leaving \<open>error\<close> and \<open>errno\<close> \<open>err\<close>.\<close>

definition connect_check ::
  "nat \<Rightarrow> int \<times> int \<times> int \<Rightarrow> ('a, 'k, 'p) hook_world \<Rightarrow> int \<times> ('a, 'k, 'p) hook_world" where
  "connect_check ti g w =
     (let (ret, error, err) = g
      in if ret = -1 then (-1, drop_tinfo ti (w\<lparr>hk_errno := err\<rparr>))
         else if error = 0 then (0, drop_tinfo ti w) else (-1, drop_tinfo ti (w\<lparr>hk_errno := error\<rparr>)))"

definition connect_resume ::
  "nat option \<Rightarrow> nat \<Rightarrow> int \<times> int \<times> int \<Rightarrow> ('a, 'k, 'p) hook_world \<Rightarrow> (int \<times> ('a, 'k, 'p) hook_world) outcome" where
  "connect_resume timer ti g w =
     obind (do_io_resume timer ti w) (\<lambda>(r, w1).
       case r of Some n \<Rightarrow> Inr (n, w1) | None \<Rightarrow> Inr (connect_check ti g w1))"

definition hook_close ::
  "'p posix \<Rightarrow> 'k epoll \<Rightarrow> int \<Rightarrow> ('a, 'k, 'p) hook_world \<Rightarrow> (cint \<times> ('a, 'k, 'p) hook_world) outcome" where
  "hook_close px ep fd w =
     (let finish = (\<lambda>w. let (r, k) = px_close px (hk_px w) fd in Inr (r, w\<lparr>hk_px := k\<rparr>))
      in if \<not> hk_enable w then finish w
         else
           obind (hook_get px fd False w) (\<lambda>(r, w1).
             case r of
               None \<Rightarrow> finish w1
             | Some _ \<Rightarrow>
                 obind (if hk_iom w1 then obind (cancal_all ep fd (hk_io w1)) (\<lambda>(_, io). Inr io)
                        else Inr (hk_io w1)) (\<lambda>io.
                 obind (fd_del fd (hk_fds w1)) (\<lambda>m. finish (w1\<lparr>hk_io := io, hk_fds := m\<rparr>)))))"

text \<open>
  \<open>fcntl(fd, cmd, ...)\<close>: two commands are wrapped, hook enabled or not. The others are passed
  on, these with their argument (as a machine word), the rest without; \<open>junk\<close> is what a
  variadic call without the argument happens to pass.
\<close>

definition fcntl_with_arg :: "int list" where
  "fcntl_with_arg = [0, 1030, 2, 8, 10, 1024, 1026, 1031, 6, 7, 5, 16, 15]"

definition hook_fcntl ::
  "'p posix \<Rightarrow> cint \<Rightarrow> int \<Rightarrow> int \<Rightarrow> cint \<Rightarrow> ('a, 'k, 'p) hook_world \<Rightarrow> (cint \<times> ('a, 'k, 'p) hook_world) outcome" where
  "hook_fcntl px junk fd cmd arg w =
     (let call = (\<lambda>a w. let (r, k) = px_fcntl px (hk_px w) fd cmd a in (r, w\<lparr>hk_px := k\<rparr>))
      in if cmd = F_SETFL then
           obind (hook_get px fd False w) (\<lambda>(r, w1).
             case r of
               None \<Rightarrow> Inr (call arg w1)
             | Some (p, c) \<Rightarrow>
                 if m_isClosed c \<or> \<not> m_isSocket c then Inr (call arg w1)
                 else
                   obind (fdctx_update p (m_userNoBlock_update (\<lambda>_. has_flag arg O_NONBLOCK)) (hk_fds w1)) (\<lambda>m.
                     Inr (call (if m_sysNoBlock c then arg OR O_NONBLOCK else arg AND NOT O_NONBLOCK)
                       (w1\<lparr>hk_fds := m\<rparr>))))
         else if cmd = F_GETFL then
           (let (a, w0) = call junk w
            in obind (hook_get px fd False w0) (\<lambda>(r, w1).
                 case r of
                   None \<Rightarrow> Inr (a, w1)
                 | Some (p, c) \<Rightarrow>
                     if m_isClosed c \<or> \<not> m_isSocket c then Inr (a, w1)
                     else Inr (if m_userNoBlock c then a OR O_NONBLOCK else a AND NOT O_NONBLOCK, w1)))
         else Inr (call (if cmd \<in> set fcntl_with_arg then arg else junk) w))"

definition FIONBIO :: "64 word" where "FIONBIO = 0x5421"

text \<open>\<open>ioctl(d, request, arg)\<close>; \<open>arg\<close> is the \<open>int\<close> behind the pointer.\<close>

definition hook_ioctl ::
  "'p posix \<Rightarrow> int \<Rightarrow> 64 word \<Rightarrow> cint \<Rightarrow> ('a, 'k, 'p) hook_world \<Rightarrow> (cint \<times> ('a, 'k, 'p) hook_world) outcome" where
  "hook_ioctl px d request arg w =
     (let call = (\<lambda>w. let (r, k) = px_ioctl px (hk_px w) d request arg in (r, w\<lparr>hk_px := k\<rparr>))
      in if request = FIONBIO then
           obind (hook_get px d False w) (\<lambda>(r, w1).
             case r of
               None \<Rightarrow> Inr (call w1)
             | Some (p, c) \<Rightarrow>
                 if m_isClosed c \<or> \<not> m_isSocket c then Inr (call w1)
                 else
                   obind (fdctx_update p (m_userNoBlock_update (\<lambda>_. arg \<noteq> 0)) (hk_fds w1)) (\<lambda>m.
                     Inr (call (w1\<lparr>hk_fds := m\<rparr>))))
         else Inr (call w))"

definition SOL_SOCKET :: int where "SOL_SOCKET = 1"

text \<open>\<open>setsockopt\<close>; \<open>tv\<close> is the \<open>timeval\<close> behind \<open>optval\<close>, seconds and microseconds.\<close>

definition hook_setsockopt ::
  "'p posix \<Rightarrow> int \<Rightarrow> int \<Rightarrow> int \<Rightarrow> int \<times> int \<Rightarrow> ('a, 'k, 'p) hook_world
   \<Rightarrow> (cint \<times> ('a, 'k, 'p) hook_world) outcome" where
  "hook_setsockopt px fd level optname tv w =
     (let call = (\<lambda>w. let (r, k) = px_setsockopt px (hk_px w) fd level optname in (r, w\<lparr>hk_px := k\<rparr>))
      in if \<not> hk_enable w then Inr (call w)
         else if level = SOL_SOCKET \<and> (optname = SO_RECVTIMEO \<or> optname = SO_SENDTIMEO) then
           obind (hook_get px fd False w) (\<lambda>(r, w1).
             case r of
               None \<Rightarrow> Inr (call w1)
             | Some (p, c) \<Rightarrow>
                 (let ms = fst tv * 1000 + (if 0 \<le> snd tv then snd tv div 1000 else - (- snd tv div 1000))
                  in if \<not> ms_in_range (fst tv * 1000) \<or> \<not> ms_in_range ms then Inl Signed_Overflow
                     else obind (fdctx_update p (set_timeout optname ms) (hk_fds w1)) (\<lambda>m.
                            Inr (call (w1\<lparr>hk_fds := m\<rparr>)))))
         else Inr (call w))"

section \<open>The wrappers change the I/O manager by its own operations only\<close>

lemma hook_get_Inr:
  assumes "hook_get px fd auto_create w = Inr (r, w')"
  shows "hk_io w' = hk_io w" and "fd_wf (hk_fds w) \<Longrightarrow> fd_wf (hk_fds w')"
  using assms fd_get_wf [of "hk_fds w" px fd auto_create "hk_px w"]
  by (auto simp: hook_get_def outcome_simps Let_def split: option.splits)

text \<open>A context looked up for a descriptor of the table is the new one.\<close>

lemma hook_get_in_table:
  assumes "fd_wf (hk_fds w)" and "0 \<le> fd" and "fd < 64"
  shows "hook_get px fd auto_create w =
     Inr (Some (fdctx_next (hk_fds w), fst (fd_ctx_new px fd (hk_px w))),
          w\<lparr>hk_px := snd (fd_ctx_new px fd (hk_px w)), hk_fds := fd_created px fd (hk_px w) (hk_fds w)\<rparr>)"
  using assms by (simp add: hook_get_def fd_get_in_table fd_created_def Let_def deref_def)

abbreviation io_reach :: "'k epoll \<Rightarrow> nat set \<Rightarrow> ('u, 'k) io_manager \<Rightarrow> bool" where
  "io_reach ep held \<equiv> reach (io_start ep) (io_step ep held)"

abbreviation fresh_timer :: "nat \<Rightarrow> ('u, 'k) io_manager \<Rightarrow> bool" where
  "fresh_timer p io \<equiv> timer_store (im_timers io) p = None"

lemma io_reach_wf: "io_reach ep held io \<Longrightarrow> epoll_law ep \<Longrightarrow> io_wf ep io"
  using io_safe.reach_inv by blast

lemma io_reach_alive: "io_reach ep held io \<Longrightarrow> epoll_law ep \<Longrightarrow> alive io (im_this io)"
  by (drule io_reach_wf) (simp_all add: io_wf_def io_core_def)

text \<open>Adding a timer, and announcing it when it is the first.\<close>

definition timed :: "millis \<Rightarrow> nat \<Rightarrow> millis \<Rightarrow> 'u sched_fn \<Rightarrow> ('u, 'k) io_manager \<Rightarrow> ('u, 'k) io_manager outcome" where
  "timed now p ms cb io =
     obind (add_timer now p ms (Some cb) False (im_timers io)) (\<lambda>(front, tm).
       let io1 = io\<lparr>im_timers := tm\<rparr> in if front then on_timer_inserted_at_front io1 else Inr io1)"

lemma timed_reach:
  assumes r: "io_reach ep held io" and p: "fresh_timer p io" and run: "timed now p ms cb io = Inr io'"
  shows "io_reach ep held io'"
proof -
  from run obtain front tm where a: "add_timer now p ms (Some cb) False (im_timers io) = Inr (front, tm)"
    and f: "(if front then on_timer_inserted_at_front (io\<lparr>im_timers := tm\<rparr>) else Inr (io\<lparr>im_timers := tm\<rparr>)) = Inr io'"
    by (auto simp: timed_def outcome_simps Let_def)
  have "io_reach ep held (io\<lparr>im_timers := tm\<rparr>)"
    by (rule reach_step [OF r]) (rule io_timer, rule tm_step.add [OF p a])
  with f show ?thesis by (auto split: if_splits intro: reach_step io_front)
qed

lemma io_tickle_schedulers: "io_tickle io = Inr io' \<Longrightarrow> im_schedulers io' = im_schedulers io"
  by (auto simp: io_tickle_def own_scheduler_def outcome_simps split: if_splits)

lemma timed_same:
  assumes "tm_wf (im_timers io)" and "fresh_timer p io" and run: "timed now p ms cb io = Inr io'"
  shows "io_same io io'" and "tm_wf (im_timers io')"
    and "deadlines (im_timers io') = (deadlines (im_timers io))(p \<mapsto> now + ms)"
    and "timer_store (im_timers io') p = Some \<lparr>m_recurring = False, m_ms = ms, m_next = now + ms, m_cb = Some cb\<rparr>"
    and "im_schedulers io' = im_schedulers io"
proof -
  from run obtain front tm where a: "add_timer now p ms (Some cb) False (im_timers io) = Inr (front, tm)"
    and f: "(if front then on_timer_inserted_at_front (io\<lparr>im_timers := tm\<rparr>) else Inr (io\<lparr>im_timers := tm\<rparr>)) = Inr io'"
    by (auto simp: timed_def outcome_simps Let_def)
  have same: "io_same io (io\<lparr>im_timers := tm\<rparr>)" by (simp add: io_same_def)
  have "io_same (io\<lparr>im_timers := tm\<rparr>) io' \<and> im_timers io' = tm \<and> im_schedulers io' = im_schedulers io"
  proof (cases front)
    case True
    with f have t: "io_tickle (io\<lparr>im_timers := tm\<rparr>) = Inr io'" by (simp add: on_timer_inserted_at_front_def)
    from io_tickle_same [OF t] io_tickle_schedulers [OF t] show ?thesis by simp
  qed (use f in auto)
  with add_timer_Inr [OF assms(1,2) a] io_same_trans [OF same]
  show "io_same io io'" and "tm_wf (im_timers io')"
    and "deadlines (im_timers io') = (deadlines (im_timers io))(p \<mapsto> now + ms)"
    and "timer_store (im_timers io') p = Some \<lparr>m_recurring = False, m_ms = ms, m_next = now + ms, m_cb = Some cb\<rparr>"
    and "im_schedulers io' = im_schedulers io"
    by simp_all
qed

lemma arm_timeout_timed:
  "arm_timeout now p ti fd event to io =
     (if to \<noteq> -1 then obind (timed now p to (User_Fn (Wait_Timeout ti fd event)) io) (\<lambda>io2. Inr (Some p, io2))
      else Inr (None, io))"
  by (cases "add_timer now p to (Some (User_Fn (Wait_Timeout ti fd event))) False (im_timers io)")
     (auto simp: arm_timeout_def timed_def Let_def)

lemma hook_sleep_timed:
  "hook_sleep now p q seconds w =
     (if \<not> hk_enable w then Inr (None, w)
      else if \<not> hk_iom w then Inl Null_Deref
      else obind (timed now p (uint (seconds * 1000)) (User_Fn (Schedule_Fiber q)) (hk_io w)) (\<lambda>io.
        Inr (Some p, w\<lparr>hk_io := io\<rparr>)))"
  by (cases "add_timer now p (uint (seconds * 1000)) (Some (User_Fn (Schedule_Fiber q))) False (im_timers (hk_io w))")
     (auto simp: hook_sleep_def timed_def Let_def)

lemma cancel_timer_reach:
  assumes r: "io_reach ep held io" and c: "cancel_timer timer io = Inr io'"
  shows "io_reach ep held io'"
proof (cases timer)
  case None
  with r c show ?thesis by (simp add: cancel_timer_def)
next
  case (Some p)
  with c obtain b tm where t: "timer_cancel p (im_timers io) = Inr (b, tm)" and io': "io' = io\<lparr>im_timers := tm\<rparr>"
    by (auto simp: cancel_timer_def outcome_simps)
  show ?thesis unfolding io' by (rule reach_step [OF r]) (rule io_timer, rule tm_step.cancel [OF t])
qed

lemma cancel_timer_same:
  assumes "cancel_timer timer io = Inr io'"
  shows "io_same io io'" and "im_schedulers io' = im_schedulers io"
  using assms by (auto simp: cancel_timer_def outcome_simps io_same_def split: option.splits)

text \<open>A wait: the time-out is armed, then the event is added for the running fiber.\<close>

lemma arm_timeout_cases:
  assumes "arm_timeout now p ti fd event to io = Inr (timer, io')"
  obtains "to = -1" and "timer = None" and "io' = io"
  | "to \<noteq> -1" and "timer = Some p" and "timed now p to (User_Fn (Wait_Timeout ti fd event)) io = Inr io'"
  using assms by (auto simp: arm_timeout_timed outcome_simps split: if_splits)

lemma arm_timeout_reach:
  "io_reach ep held io \<Longrightarrow> fresh_timer p io \<Longrightarrow> arm_timeout now p ti fd event to io = Inr (timer, io') \<Longrightarrow> io_reach ep held io'"
  by (erule arm_timeout_cases) (auto intro: timed_reach)

lemma add_event_reach:
  assumes r: "io_reach ep held io" and law: "epoll_law ep"
    and run: "add_event ep (Some (im_this io)) q st fd event cb io = Inr (r, io')"
  shows "io_reach ep held io'"
  by (rule reach_step [OF r]) (rule io_add [OF io_reach_alive [OF r law] run])

lemma do_io_wait_Inr:
  assumes "do_io_wait ep now p ti q st fd event to w = Inr (r, w')"
  obtains timer io1 rt io2 where "arm_timeout now p ti fd event to (hk_io w) = Inr (timer, io1)"
    and "add_event ep (Some (im_this io1)) q st fd event None io1 = Inr (rt, io2)"
    and "rt \<noteq> -1" and "r = Io_Yielded timer" and "w' = w\<lparr>hk_io := io2\<rparr>"
  | timer io1 io2 io3 where "arm_timeout now p ti fd event to (hk_io w) = Inr (timer, io1)"
    and "add_event ep (Some (im_this io1)) q st fd event None io1 = Inr (-1, io2)"
    and "cancel_timer timer io2 = Inr io3" and "r = Io_Return (-1)" and "w' = drop_tinfo ti (w\<lparr>hk_io := io3\<rparr>)"
  using assms by (auto simp: do_io_wait_def outcome_simps split: if_splits)

lemma hk_drop_tinfo [simp]:
  "hk_io (drop_tinfo ti w) = hk_io w" "hk_fds (drop_tinfo ti w) = hk_fds w" "hk_errno (drop_tinfo ti w) = hk_errno w"
  "hk_enable (drop_tinfo ti w) = hk_enable w" "hk_px (drop_tinfo ti w) = hk_px w"
  by (simp_all add: drop_tinfo_def)

definition hook_inv :: "'k epoll \<Rightarrow> nat set \<Rightarrow> ('a, 'k, 'p) hook_world \<Rightarrow> bool" where
  "hook_inv ep held w \<longleftrightarrow> io_reach ep held (hk_io w) \<and> fd_wf (hk_fds w)"

lemma do_io_wait_inv:
  assumes law: "epoll_law ep" and inv: "hook_inv ep held w" and p: "fresh_timer p (hk_io w)"
    and run: "do_io_wait ep now p ti q st fd event to w = Inr (r, w')"
  shows "hook_inv ep held w'"
proof -
  have r: "io_reach ep held (hk_io w)" and wf: "fd_wf (hk_fds w)" using inv by (simp_all add: hook_inv_def)
  from run show ?thesis
  proof (cases rule: do_io_wait_Inr)
    case (1 timer io1 rt io2)
    from add_event_reach [OF arm_timeout_reach [OF r p 1(1)] law 1(2)] wf 1 show ?thesis by (simp add: hook_inv_def)
  next
    case (2 timer io1 io2 io3)
    from cancel_timer_reach [OF add_event_reach [OF arm_timeout_reach [OF r p 2(1)] law 2(2)] 2(3)] wf 2
    show ?thesis by (simp add: hook_inv_def)
  qed
qed

lemma do_io_resume_Inr:
  assumes "do_io_resume timer ti w = Inr (r, w')"
  obtains io c where "cancel_timer timer (hk_io w) = Inr io" and "hk_tinfo w ti = Some c"
    and "r = (if c \<noteq> 0 then Some (-1) else None)"
    and "w' = (if c \<noteq> 0 then drop_tinfo ti (w\<lparr>hk_io := io, hk_errno := c\<rparr>) else w\<lparr>hk_io := io\<rparr>)"
  using assms by (auto simp: do_io_resume_def outcome_simps Let_def split: if_splits)

lemma do_io_resume_inv: "hook_inv ep held w \<Longrightarrow> do_io_resume timer ti w = Inr (r, w') \<Longrightarrow> hook_inv ep held w'"
  by (erule do_io_resume_Inr) (auto simp: hook_inv_def intro: cancel_timer_reach)

lemma wait_timeout_Inr:
  assumes "wait_timeout ep ti fd event w = Inr w'"
  obtains "hk_tinfo w ti \<noteq> Some 0" and "w' = w"
  | b io where "hk_tinfo w ti = Some 0" and "cancel_event ep fd event (hk_io w) = Inr (b, io)"
    and "w' = w\<lparr>hk_tinfo := (hk_tinfo w)(ti \<mapsto> ETIMEDOUT), hk_io := io\<rparr>"
proof (cases "hk_tinfo w ti = Some 0")
  case False
  with assms have "w' = w" by (auto simp: wait_timeout_def split: option.splits if_splits)
  with False that(1) show thesis by blast
next
  case True
  with assms have "obind (cancel_event ep fd event (hk_io w)) (\<lambda>(_, io).
      Inr (w\<lparr>hk_tinfo := (hk_tinfo w)(ti \<mapsto> ETIMEDOUT), hk_io := io\<rparr>)) = Inr w'"
    by (simp add: wait_timeout_def)
  then obtain x where x: "cancel_event ep fd event (hk_io w) = Inr x"
    and y: "(case x of (_, io) \<Rightarrow> Inr (w\<lparr>hk_tinfo := (hk_tinfo w)(ti \<mapsto> ETIMEDOUT), hk_io := io\<rparr>)) = (Inr w' :: _ outcome)"
    by (rule obind_InrE)
  show thesis by (rule that(2) [OF True, of "fst x" "snd x"]) (use x y in \<open>simp_all add: split_beta\<close>)
qed

lemma wait_timeout_inv:
  assumes inv: "hook_inv ep held w" and run: "wait_timeout ep ti fd event w = Inr w'"
  shows "hook_inv ep held w'"
  using run
proof (cases rule: wait_timeout_Inr)
  case (2 b io)
  have "io_reach ep held io"
    by (rule reach_step [of _ _ "hk_io w"]) (use inv 2(2) in \<open>simp_all add: hook_inv_def io_cancel\<close>)
  with 2 inv show ?thesis by (simp add: hook_inv_def)
qed (use inv in simp)

lemma hook_sleep_Inr:
  assumes "hook_sleep now p q seconds w = Inr (r, w')"
  obtains "\<not> hk_enable w" and "r = None" and "w' = w"
  | io where "hk_enable w" and "hk_iom w" and "r = Some p"
    and "timed now p (uint (seconds * 1000)) (User_Fn (Schedule_Fiber q)) (hk_io w) = Inr io" and "w' = w\<lparr>hk_io := io\<rparr>"
proof (cases "hk_enable w \<and> hk_iom w")
  case False
  with assms that(1) show thesis by (auto simp: hook_sleep_timed split: if_splits)
next
  case True
  with assms obtain io where "timed now p (uint (seconds * 1000)) (User_Fn (Schedule_Fiber q)) (hk_io w) = Inr io"
    and "Inr (Some p, w\<lparr>hk_io := io\<rparr>) = (Inr (r, w') :: _ outcome)"
    by (auto simp only: hook_sleep_timed simp_thms if_True if_False elim: obind_InrE)
  with that(2) True show thesis by simp
qed

lemma hook_sleep_inv:
  assumes inv: "hook_inv ep held w" and p: "fresh_timer p (hk_io w)" and run: "hook_sleep now p q seconds w = Inr (r, w')"
  shows "hook_inv ep held w'"
  using run
proof (cases rule: hook_sleep_Inr)
  case (2 io)
  have "io_reach ep held io" by (rule timed_reach [OF _ p 2(4)]) (use inv in \<open>simp add: hook_inv_def\<close>)
  with 2 inv show ?thesis by (simp add: hook_inv_def)
qed (use inv in simp)

text \<open>The wrappers that only use the descriptor table.\<close>

lemma hook_get_inv: "hook_get px fd auto_create w = Inr (r, w') \<Longrightarrow> hook_inv ep held w \<Longrightarrow> hook_inv ep held w'"
  by (simp add: hook_inv_def hook_get_Inr)

lemma hook_inv_simps [simp]:
  "hook_inv ep held (w\<lparr>hk_px := k\<rparr>) = hook_inv ep held w" "hook_inv ep held (w\<lparr>hk_errno := e\<rparr>) = hook_inv ep held w"
  "hook_inv ep held (w\<lparr>hk_tinfo := t\<rparr>) = hook_inv ep held w" "hook_inv ep held (w\<lparr>hk_enable := b\<rparr>) = hook_inv ep held w"
  "hook_inv ep held (w\<lparr>hk_iom := b\<rparr>) = hook_inv ep held w" "hook_inv ep held (drop_tinfo ti w) = hook_inv ep held w"
  by (simp_all add: hook_inv_def)

lemma hook_inv_io: "hook_inv ep held w \<Longrightarrow> io_reach ep held io \<Longrightarrow> hook_inv ep held (w\<lparr>hk_io := io\<rparr>)"
  by (simp add: hook_inv_def)

lemma hook_inv_fds: "hook_inv ep held w \<Longrightarrow> fd_wf m \<Longrightarrow> hook_inv ep held (w\<lparr>hk_fds := m\<rparr>)"
  by (simp add: hook_inv_def)

lemma do_io_entry_inv: "hook_inv ep held w \<Longrightarrow> do_io_entry px ti fd ty w = Inr (r, w') \<Longrightarrow> hook_inv ep held w'"
  by (auto simp: do_io_entry_def split: if_splits option.splits elim!: obind_InrE dest!: hook_get_inv)

lemma hook_socket_inv: "hook_inv ep held w \<Longrightarrow> hook_socket px w = Inr (r, w') \<Longrightarrow> hook_inv ep held w'"
  by (auto simp: hook_socket_def Let_def split: if_splits prod.splits elim!: obind_InrE dest!: hook_get_inv)

lemma hook_accept_inv: "hook_inv ep held w \<Longrightarrow> hook_accept_done px fd w = Inr (r, w') \<Longrightarrow> hook_inv ep held w'"
  by (auto simp: hook_accept_done_def split: if_splits elim!: obind_InrE dest!: hook_get_inv)

lemma fdctx_update_inv:
  "hook_inv ep held w \<Longrightarrow> (\<And>c. m_fd (f c) = m_fd c) \<Longrightarrow> fdctx_update p f (hk_fds w) = Inr m \<Longrightarrow>
   hook_inv ep held (w\<lparr>hk_fds := m\<rparr>)"
  by (rule hook_inv_fds) (auto simp: hook_inv_def intro: fdctx_update_wf)

lemma fdctx_user_inv:
  "fdctx_update p (m_userNoBlock_update f) (hk_fds w) = Inr m \<Longrightarrow> hook_inv ep held w \<Longrightarrow> hook_inv ep held (w\<lparr>hk_fds := m\<rparr>)"
  by (rule fdctx_update_inv) simp_all

lemma fdctx_timeout_inv:
  "fdctx_update p (set_timeout ty t) (hk_fds w) = Inr m \<Longrightarrow> hook_inv ep held w \<Longrightarrow> hook_inv ep held (w\<lparr>hk_fds := m\<rparr>)"
  by (rule fdctx_update_inv) simp_all

lemmas hook_inv_dests = hook_get_inv fdctx_user_inv fdctx_timeout_inv

lemma hook_setsockopt_inv:
  "hook_inv ep held w \<Longrightarrow> hook_setsockopt px fd level optname tv w = Inr (r, w') \<Longrightarrow> hook_inv ep held w'"
  by (auto simp: hook_setsockopt_def Let_def split: if_splits prod.splits option.splits
      elim!: obind_InrE dest!: hook_inv_dests)

lemma hook_fcntl_inv:
  "hook_inv ep held w \<Longrightarrow> hook_fcntl px junk fd cmd arg w = Inr (r, w') \<Longrightarrow> hook_inv ep held w'"
  by (auto simp: hook_fcntl_def Let_def split_beta split: if_splits option.splits
      elim!: obind_InrE dest!: hook_inv_dests)

lemma hook_ioctl_inv:
  "hook_inv ep held w \<Longrightarrow> hook_ioctl px fd req arg w = Inr (r, w') \<Longrightarrow> hook_inv ep held w'"
  by (auto simp: hook_ioctl_def Let_def split_beta split: if_splits option.splits
      elim!: obind_InrE dest!: hook_inv_dests)

lemma cancal_all_reach: "io_reach ep held io \<Longrightarrow> cancal_all ep fd io = Inr (b, io') \<Longrightarrow> io_reach ep held io'"
  by (rule reach_step [of _ _ io]) (simp_all add: io_cancel_all)

text \<open>\<open>close\<close> on a descriptor with a context.\<close>

lemma hook_close_some:
  assumes "hk_enable w" and "hook_get px fd False w = Inr (Some x, w1)"
  shows "hook_close px ep fd w =
     obind (if hk_iom w1 then obind (cancal_all ep fd (hk_io w1)) (\<lambda>(_, io). Inr io) else Inr (hk_io w1)) (\<lambda>io.
     obind (fd_del fd (hk_fds w1)) (\<lambda>m.
       Inr (fst (px_close px (hk_px w1) fd), w1\<lparr>hk_io := io, hk_fds := m, hk_px := snd (px_close px (hk_px w1) fd)\<rparr>)))"
  using assms by (simp add: hook_close_def Let_def split_beta)

lemma hook_close_none:
  "\<not> hk_enable w \<Longrightarrow> hook_close px ep fd w =
     Inr (fst (px_close px (hk_px w) fd), w\<lparr>hk_px := snd (px_close px (hk_px w) fd)\<rparr>)"
  "hk_enable w \<Longrightarrow> hook_get px fd False w = Inr (None, w1) \<Longrightarrow> hook_close px ep fd w =
     Inr (fst (px_close px (hk_px w1) fd), w1\<lparr>hk_px := snd (px_close px (hk_px w1) fd)\<rparr>)"
  "hk_enable w \<Longrightarrow> hook_get px fd False w = Inl e \<Longrightarrow> hook_close px ep fd w = Inl e"
  by (simp_all add: hook_close_def Let_def split_beta)

lemma hook_close_inv:
  assumes inv: "hook_inv ep held w" and run: "hook_close px ep fd w = Inr (r, w')"
  shows "hook_inv ep held w'"
proof (cases "hk_enable w")
  case False
  with inv run show ?thesis by (auto simp: hook_close_none)
next
  case en: True
  show ?thesis
  proof (cases "hook_get px fd False w")
    case (Inr y)
    then obtain x w1 where g: "hook_get px fd False w = Inr (x, w1)" by (cases y) simp
    note inv1 = hook_get_inv [OF g inv]
    show ?thesis
    proof (cases x)
      case None
      with g have "hook_get px fd False w = Inr (None, w1)" by simp
      from run [unfolded hook_close_none(2) [OF en this]] inv1 show ?thesis by auto
    next
      case (Some a)
      with g have "hook_get px fd False w = Inr (Some a, w1)" by simp
      from run [unfolded hook_close_some [OF en this]] obtain io m
        where i: "(if hk_iom w1 then obind (cancal_all ep fd (hk_io w1)) (\<lambda>(_, io). Inr io) else Inr (hk_io w1)) = Inr io"
          and d: "fd_del fd (hk_fds w1) = Inr m"
          and w': "w' = w1\<lparr>hk_io := io, hk_fds := m, hk_px := snd (px_close px (hk_px w1) fd)\<rparr>"
        by (elim obind_InrE) simp
      have "io_reach ep held io"
        using i inv1 by (auto simp: hook_inv_def split: if_splits elim!: obind_InrE intro: cancal_all_reach)
      moreover have "fd_wf m" using d inv1 fd_del_wf by (auto simp: hook_inv_def)
      ultimately show ?thesis by (simp add: w' hook_inv_def)
    qed
  qed (use run en hook_close_none(3) in fastforce)
qed

text \<open>\<open>connect\<close>: the part that talks to the I/O manager, as one definition of its own.\<close>

lemma connect_Inr:
  assumes "connect_with_timeout px ep now p ti q st fd conn to w = Inr (r, w')"
  obtains w1 x where "r = Conn_Return x" and "hk_fds w' = hk_fds w1" and "hk_io w' = hk_io w1"
      and "w1 = w \<or> (\<exists>y. hook_get px fd False w = Inr (y, w1))"
  | y c w1 timer io1 io2 where "hook_get px fd False w = Inr (Some (y, c), w1)" and "m_isSocket c" and "\<not> m_userNoBlock c"
      and "conn = (-1, EINPROGRESS)" and "arm_timeout now p ti fd WRITE to (hk_io w1) = Inr (timer, io1)"
      and "add_event ep (Some (im_this io1)) q st fd WRITE None io1 = Inr (0, io2)"
      and "r = Conn_Yielded timer"
      and "w' = w1\<lparr>hk_errno := EINPROGRESS, hk_tinfo := (hk_tinfo w1)(ti \<mapsto> 0), hk_io := io2\<rparr>"
  | y c w1 timer io1 rt io2 io3 where "hook_get px fd False w = Inr (Some (y, c), w1)" and "m_isSocket c" and "\<not> m_userNoBlock c"
      and "conn = (-1, EINPROGRESS)" and "arm_timeout now p ti fd WRITE to (hk_io w1) = Inr (timer, io1)"
      and "add_event ep (Some (im_this io1)) q st fd WRITE None io1 = Inr (rt, io2)" and "rt \<noteq> 0"
      and "cancel_timer timer io2 = Inr io3" and "r = Conn_Check"
      and "w' = w1\<lparr>hk_errno := EINPROGRESS, hk_tinfo := (hk_tinfo w1)(ti \<mapsto> 0), hk_io := io3\<rparr>"
proof -
  obtain n err where conn: "conn = (n, err)" by (cases conn)
  show thesis
  proof (cases "hk_enable w")
    case False
    with assms conn show thesis by (intro that(1) [of n w]) (auto simp: connect_with_timeout_def)
  next
    case en: True
    from assms en obtain g where "hook_get px fd False w = Inr g"
      by (auto simp: connect_with_timeout_def conn elim!: obind_InrE)
    then obtain y w1 where g: "hook_get px fd False w = Inr (y, w1)" by (cases g) simp
    show thesis
    proof (cases "\<exists>z c. y = Some (z, c) \<and> \<not> m_isClosed c \<and> m_isSocket c \<and> \<not> m_userNoBlock c \<and> n = -1 \<and> err = EINPROGRESS")
      case False
      with assms en g have "(\<exists>x. r = Conn_Return x) \<and> hk_fds w' = hk_fds w1 \<and> hk_io w' = hk_io w1"
        by (auto simp: connect_with_timeout_def conn Let_def split: option.splits if_splits)
      with g that(1) [of _ w1] show thesis by blast
    next
      case True
      then obtain z c where y: "y = Some (z, c)" "\<not> m_isClosed c" "m_isSocket c" "\<not> m_userNoBlock c" "n = -1" "err = EINPROGRESS"
        by blast
      let ?io = "\<lambda>io. w1\<lparr>hk_errno := EINPROGRESS, hk_tinfo := (hk_tinfo w1)(ti \<mapsto> 0), hk_io := io\<rparr>"
      from assms en g y have "hk_iom w1"
        by (auto simp: connect_with_timeout_def conn Let_def split: if_splits)
      with assms en g y obtain timer io1 rt io2 where
        a: "arm_timeout now p ti fd WRITE to (hk_io w1) = Inr (timer, io1)"
        "add_event ep (Some (im_this io1)) q st fd WRITE None io1 = Inr (rt, io2)"
        and f: "(if rt = 0 then Inr (Conn_Yielded timer, ?io io2)
             else obind (cancel_timer timer io2) (\<lambda>io3. Inr (Conn_Check, ?io io3))) = Inr (r, w')"
        by (auto simp: connect_with_timeout_def conn Let_def elim!: obind_InrE)
      show thesis
      proof (cases "rt = 0")
        case True
        with a f that(2) [OF g [unfolded y] y(3,4) _ a(1)] y show thesis by (simp add: conn)
      next
        case False
        with f obtain io3 where "cancel_timer timer io2 = Inr io3" "r = Conn_Check" "w' = ?io io3"
          by (auto elim!: obind_InrE)
        with a False that(3) [OF g [unfolded y] y(3,4) _ a] y show thesis by (simp add: conn)
      qed
    qed
  qed
qed

lemma connect_inv:
  assumes law: "epoll_law ep" and inv: "hook_inv ep held w" and p: "fresh_timer p (hk_io w)"
    and run: "connect_with_timeout px ep now p ti q st fd conn to w = Inr (r, w')"
  shows "hook_inv ep held w'"
proof -
  have arm: "io_reach ep held io1" if "hook_get px fd False w = Inr (y, w1)"
    "arm_timeout now p ti fd WRITE to (hk_io w1) = Inr (timer, io1)" for y w1 timer io1
    using arm_timeout_reach [OF _ p, of ep held now ti fd WRITE to timer io1] inv that hook_get_Inr(1) [OF that(1)]
    by (simp add: hook_inv_def)
  from run show ?thesis
  proof (cases rule: connect_Inr)
    case (1 w1 x)
    then show ?thesis using inv hook_get_inv [of px fd False w _ w1] by (auto simp: hook_inv_def)
  next
    case (2 y c w1 timer io1 io2)
    from add_event_reach [OF arm [OF 2(1,5)] law 2(6)] hook_get_inv [OF 2(1) inv] 2(8)
    show ?thesis by (simp add: hook_inv_def)
  next
    case (3 y c w1 timer io1 rt io2 io3)
    from cancel_timer_reach [OF add_event_reach [OF arm [OF 3(1,5)] law 3(6)] 3(8)] hook_get_inv [OF 3(1) inv] 3(10)
    show ?thesis by (simp add: hook_inv_def)
  qed
qed

lemma connect_resume_inv:
  "hook_inv ep held w \<Longrightarrow> connect_resume timer ti g w = Inr (r, w') \<Longrightarrow> hook_inv ep held w'"
proof -
  assume inv: "hook_inv ep held w" and run: "connect_resume timer ti g w = Inr (r, w')"
  obtain x where x: "do_io_resume timer ti w = Inr x"
    using run by (cases "do_io_resume timer ti w") (auto simp: connect_resume_def)
  obtain a w1 where res: "x = (a, w1)" by (cases x)
  have k: "(case a of None \<Rightarrow> Inr (connect_check ti g w1) | Some n \<Rightarrow> Inr (n, w1)) = (Inr (r, w') :: _ outcome)"
    using run by (simp add: connect_resume_def x res)
  have "hook_inv ep held (snd (connect_check ti g w1)) = hook_inv ep held w1"
    by (simp add: connect_check_def Let_def split: prod.splits)
  with do_io_resume_inv [OF inv x [unfolded res]] k show "hook_inv ep held w'"
    by (cases a) auto
qed

section \<open>All wrappers together\<close>

text \<open>
  Whatever the fibers call, in any order, with the rest of the library, the kernel and the memory
  manager acting in between.
\<close>

inductive hook_step :: "'p posix \<Rightarrow> 'k epoll \<Rightarrow> nat set \<Rightarrow> ('a, 'k, 'p) hook_world \<Rightarrow> ('a, 'k, 'p) hook_world \<Rightarrow> bool"
  for px :: "'p posix" and ep :: "'k epoll" and held :: "nat set" where
  hs_enable: "hook_step px ep held w (set_hook_enable b w)"
| hs_socket: "hook_socket px w = Inr (fd, w') \<Longrightarrow> hook_step px ep held w w'"
| hs_accept: "hook_accept_done px fd w = Inr (r, w') \<Longrightarrow> hook_step px ep held w w'"
| hs_entry: "do_io_entry px ti fd ty w = Inr (e, w') \<Longrightarrow> hook_step px ep held w w'"
| hs_wait: "fresh_timer p (hk_io w) \<Longrightarrow> do_io_wait ep now p ti q st fd event to w = Inr (r, w') \<Longrightarrow> hook_step px ep held w w'"
| hs_resume: "do_io_resume timer ti w = Inr (res, w') \<Longrightarrow> hook_step px ep held w w'"
| hs_timeout: "wait_timeout ep ti fd event w = Inr w' \<Longrightarrow> hook_step px ep held w w'"
| hs_sleep: "fresh_timer p (hk_io w) \<Longrightarrow> hook_sleep now p q seconds w = Inr (r, w') \<Longrightarrow> hook_step px ep held w w'"
| hs_connect: "fresh_timer p (hk_io w) \<Longrightarrow> hook_connect px ep now p ti q st fd conn w = Inr (c, w') \<Longrightarrow>
    hook_step px ep held w w'"
| hs_connected: "connect_resume timer ti g w = Inr (n, w') \<Longrightarrow> hook_step px ep held w w'"
| hs_close: "hook_close px ep fd w = Inr (rc, w') \<Longrightarrow> hook_step px ep held w w'"
| hs_fcntl: "hook_fcntl px junk fd cmd arg w = Inr (rc, w') \<Longrightarrow> hook_step px ep held w w'"
| hs_ioctl: "hook_ioctl px fd req arg w = Inr (rc, w') \<Longrightarrow> hook_step px ep held w w'"
| hs_setsockopt: "hook_setsockopt px fd level opt tv w = Inr (rc, w') \<Longrightarrow> hook_step px ep held w w'"
| hs_io: "io_step ep held (hk_io w) io \<Longrightarrow> hook_step px ep held w (w\<lparr>hk_io := io\<rparr>)"
| hs_world: "hook_step px ep held w (w\<lparr>hk_px := k, hk_errno := e, hk_tinfo := t, hk_iom := b\<rparr>)"

definition hook_start :: "'k epoll \<Rightarrow> ('a, 'k, 'p) hook_world \<Rightarrow> bool" where
  "hook_start ep w \<longleftrightarrow> io_start ep (hk_io w) \<and> hk_fds w = fd_manager_new"

lemma hook_start_inv: "hook_start ep w \<Longrightarrow> hook_inv ep held w"
  by (simp add: hook_start_def hook_inv_def fd_wf_new reach_start)

lemma hook_step_inv: "hook_step px ep held w w' \<Longrightarrow> epoll_law ep \<Longrightarrow> hook_inv ep held w \<Longrightarrow> hook_inv ep held w'"
proof (induction rule: hook_step.induct)
  case (hs_io w io)
  then show ?case by (auto intro!: hook_inv_io intro: reach_step simp: hook_inv_def)
next
  case (hs_world w k e t b)
  then show ?case by (simp add: hook_inv_def)
next
  case (hs_connect p w now ti q st fd conn c w')
  then show ?case by (auto simp: hook_connect_def intro: connect_inv)
next
  case (hs_wait p w now ti q st fd event to r w')
  then show ?case by (auto intro: do_io_wait_inv)
qed (auto simp: set_hook_enable_def intro: hook_socket_inv hook_accept_inv do_io_entry_inv do_io_resume_inv
      wait_timeout_inv hook_sleep_inv connect_resume_inv hook_close_inv hook_fcntl_inv hook_ioctl_inv hook_setsockopt_inv)

interpretation hook_safe: safe_system "hook_start ep" "hook_step px ep held" "\<lambda>w. epoll_law ep \<longrightarrow> hook_inv ep held w"
  for px ep held
  by unfold_locales (auto intro: hook_start_inv hook_step_inv)

lemma hook_reach_inv: "reach (hook_start ep) (hook_step px ep held) w \<Longrightarrow> epoll_law ep \<Longrightarrow> hook_inv ep held w"
  using hook_safe.reach_inv by blast

section \<open>Properties\<close>

definition hook_sample :: "(nat, int \<Rightarrow> event_bits option, int \<Rightarrow> cint) hook_world" where
  "hook_sample = \<lparr>hk_enable = True, hk_iom = True, hk_io = fresh_io, hk_fds = fd_manager_new, hk_px = (\<lambda>_. 0),
     hk_tinfo = [0 \<mapsto> 0], hk_errno = 0\<rparr>"

lemma hook_sample_reach: "reach (hook_start sample_epoll) (hook_step sample_posix sample_epoll {}) hook_sample"
  by (rule reach_start) (simp add: hook_start_def hook_sample_def sample_io_start)

lemma hook_get_enable: "hook_get px fd b w = Inr (r, w1) \<Longrightarrow> hk_enable w1 = hk_enable w"
  by (auto simp: hook_get_def outcome_simps Let_def split: option.splits)

lemma hook_setsockopt_enable:
  assumes run: "hook_setsockopt px fd level opt tv w = Inr (rc, w1)" and en: "hk_enable w"
  shows "hk_enable w1"
proof (cases "level = SOL_SOCKET \<and> (opt = SO_RECVTIMEO \<or> opt = SO_SENDTIMEO)")
  case False
  with run en show ?thesis by (auto simp: hook_setsockopt_def Let_def split: prod.splits)
next
  case True
  obtain r w2 where g: "hook_get px fd False w = Inr (r, w2)"
    using run en True by (cases "hook_get px fd False w") (auto simp: hook_setsockopt_def Let_def)
  have "hk_enable w2" using hook_get_enable [OF g] en by simp
  with run en True show ?thesis
    by (cases r; cases "px_setsockopt px (hk_px w2) fd level opt")
       (auto simp: hook_setsockopt_def g Let_def outcome_simps split: if_splits prod.splits)
qed

lemma socket_entry:
  assumes "fd_wf (hk_fds w)" and "hk_enable w" and "0 \<le> fd" and "fd < 64"
  shows "\<exists>w'. do_io_entry px ti fd ty w =
      Inr (if px_fstat px (hk_px w) fd = Some True then Io_Hooked (-1) else Io_Direct, w') \<and> hk_io w' = hk_io w"
  using assms(2) by (auto simp: do_io_entry_def hook_get_in_table [OF assms(1,3,4)] fd_ctx_new_fields get_timeout_new)

text \<open>C30: no time-out ever reaches \<open>do_io\<close>. In every state that wrapped calls reach, with hooks on, a call
  on a socket of the table is hooked, waits without a time-out and is never taken as set to
  non-blocking by the user, whatever \<open>setsockopt\<close>, \<open>fcntl\<close> and \<open>ioctl\<close> stored for it, also directly after
  a \<open>setsockopt\<close> of a time-out: each lookup replaces the context. A descriptor of the table that is no
  socket goes straight to the system call, and so does one past the table or \<open>-1\<close>; another negative one
  is out of bounds. The I/O manager is not touched.\<close>

theorem do_io_ignores_settings:
  assumes "reach (hook_start ep) (hook_step px ep held) w" and "epoll_law ep" and "hk_enable w"
  shows "(0 \<le> fd \<and> fd < 64 \<longrightarrow> (\<exists>w'. do_io_entry px ti fd ty w =
            Inr (if px_fstat px (hk_px w) fd = Some True then Io_Hooked (-1) else Io_Direct, w') \<and> hk_io w' = hk_io w)) \<and>
     (0 \<le> fd \<and> fd < 64 \<longrightarrow> (\<forall>level opt tv rc w1. hook_setsockopt px fd level opt tv w = Inr (rc, w1) \<and>
        px_fstat px (hk_px w1) fd = Some True \<longrightarrow> (\<exists>w'. do_io_entry px ti fd ty w1 = Inr (Io_Hooked (-1), w')))) \<and>
     (fd = -1 \<or> 64 \<le> fd \<longrightarrow> do_io_entry px ti fd ty w = Inr (Io_Direct, w)) \<and>
     (fd < -1 \<longrightarrow> do_io_entry px ti fd ty w = Inl Out_Of_Bounds)"
proof -
  have inv: "fd_wf (hk_fds v)" if "reach (hook_start ep) (hook_step px ep held) v" for v
    using hook_reach_inv [OF that assms(2)] by (simp add: hook_inv_def)
  note wf = inv [OF assms(1)]
  have "\<exists>w'. do_io_entry px ti fd ty w1 = Inr (Io_Hooked (-1), w')"
    if fd: "0 \<le> fd" "fd < 64" and run: "hook_setsockopt px fd level opt tv w = Inr (rc, w1)"
      and sock: "px_fstat px (hk_px w1) fd = Some True" for level opt tv rc w1
    using socket_entry [OF inv [OF reach_step [OF assms(1) hs_setsockopt [OF run]]] _ fd, of px ti ty]
      hook_setsockopt_enable [OF run assms(3)] sock by auto
  moreover have "do_io_entry px ti fd ty w = Inr (Io_Direct, w)" if "fd = -1 \<or> 64 \<le> fd"
    using assms(3) that wf by (auto simp: do_io_entry_def hook_get_def fd_get_past_end fd_get_negative)
  moreover have "do_io_entry px ti fd ty w = Inl Out_Of_Bounds" if "fd < -1"
    using assms(3) that wf by (auto simp: do_io_entry_def hook_get_def fd_get_negative)
  ultimately show ?thesis using socket_entry [OF wf assms(3)] by blast
qed

theorem do_io_ignores_settings_witness:
  "\<exists>w1 w'. hook_setsockopt sample_posix 5 SOL_SOCKET SO_RECVTIMEO (2, 0) hook_sample = Inr (0, w1) \<and>
     (\<exists>p c. m_datas (hk_fds w1) ! 5 = Some p \<and> fdctx_store (hk_fds w1) p = Some c \<and> get_timeout SO_RECVTIMEO c = 2000) \<and>
     do_io_entry sample_posix 0 5 SO_RECVTIMEO w1 = Inr (Io_Hooked (-1), w')"
proof -
  have wf: "fd_wf (hk_fds hook_sample)" by (simp add: hook_sample_def fd_wf_new)
  have en: "hk_enable hook_sample" by (simp add: hook_sample_def)
  obtain w1 p c where s: "hook_setsockopt sample_posix 5 SOL_SOCKET SO_RECVTIMEO (2, 0) hook_sample = Inr (0, w1)"
    and t: "m_datas (hk_fds w1) ! 5 = Some p" "fdctx_store (hk_fds w1) p = Some c" "get_timeout SO_RECVTIMEO c = 2000"
    and k: "px_fstat sample_posix (hk_px w1) 5 = Some True"
    using fd_wf_length [OF wf] en
    by (simp add: hook_setsockopt_def hook_get_in_table [OF wf] fdctx_update_def fd_created_def sample_posix_def
        ms_in_range_def Let_def)
  from do_io_ignores_settings [OF hook_sample_reach sample_epoll_law en, of 5 0 SO_RECVTIMEO] s k
  have "\<exists>w'. do_io_entry sample_posix 0 5 SO_RECVTIMEO w1 = Inr (Io_Hooked (-1), w')" by auto
  with s t show ?thesis by blast
qed

text \<open>\<open>fcntl\<close> cannot show the flag it set. For a socket in the table, hook enabled or not, a
  successful \<open>F_SETFL\<close> leaves the descriptor non-blocking in the kernel whether or not
  \<open>O_NONBLOCK\<close> was asked for, and the \<open>F_GETFL\<close> that follows reports a blocking one
  whether or not it was.\<close>

theorem fcntl_hides_nonblock:
  assumes "reach (hook_start ep) (hook_step px ep held) w" and "epoll_law ep" and "posix_nonblock px"
    and "\<And>k. px_fstat px k fd = Some True" and "0 \<le> fd" and "fd < 64"
    and "hook_fcntl px junk fd F_SETFL arg w = Inr (0, w1)"
    and "hook_fcntl px junk fd F_GETFL arg2 w1 = Inr (a, w2)"
  shows "\<not> has_flag a O_NONBLOCK \<and> has_flag (fst (px_fcntl px (hk_px w1) fd F_GETFL 0)) O_NONBLOCK"
proof
  have inv: "hook_inv ep held w" by (rule hook_reach_inv [OF assms(1,2)])
  have wf: "fd_wf (hk_fds w)" "fd_wf (hk_fds w1)"
    using inv hook_fcntl_inv [OF inv assms(7)] by (simp_all add: hook_inv_def)
  have no: "F_GETFL \<noteq> F_SETFL" by (simp add: F_GETFL_def F_SETFL_def)
  let ?r = "px_fcntl px (hk_px w1) fd F_GETFL junk"
  let ?w0 = "w1\<lparr>hk_px := snd ?r\<rparr>"
  have "fd_wf (hk_fds ?w0)" using wf(2) by simp
  from assms(8) no have "a = fst ?r AND NOT O_NONBLOCK"
    by (auto simp: hook_fcntl_def Let_def split_beta hook_get_in_table [OF \<open>fd_wf (hk_fds ?w0)\<close> assms(5,6)]
        fd_ctx_new_fields assms(4))
  then show "\<not> has_flag a O_NONBLOCK" by (simp add: has_flag_def and.assoc)
  let ?k = "snd (fd_ctx_new px fd (hk_px w))"
  let ?s = "px_fcntl px ?k fd F_SETFL (arg OR O_NONBLOCK)"
  have "fst ?s = 0 \<and> hk_px w1 = snd ?s"
    using assms(7) by (auto simp: hook_fcntl_def Let_def split_beta hook_get_in_table [OF wf(1) assms(5,6)]
        fd_ctx_new_fields assms(4) fdctx_update_def fd_created_def deref_def)
  moreover have "has_flag (arg OR O_NONBLOCK) O_NONBLOCK" by (simp add: has_flag_def O_NONBLOCK_def)
  ultimately show "has_flag (fst (px_fcntl px (hk_px w1) fd F_GETFL 0)) O_NONBLOCK"
    using assms(3) by (simp add: posix_nonblock_def)
qed

lemma hook_fcntl_runs:
  assumes "fd_wf (hk_fds w)" and "0 \<le> fd" and "fd < 64" and "\<And>k. px_fstat px k fd = Some True"
  shows "\<exists>w1. hook_fcntl px junk fd F_SETFL arg w =
      Inr (fst (px_fcntl px (snd (fd_ctx_new px fd (hk_px w))) fd F_SETFL (arg OR O_NONBLOCK)), w1)"
    and "\<exists>a w2. hook_fcntl px junk fd F_GETFL arg w = Inr (a, w2)"
proof -
  have wf0: "fd_wf (hk_fds (w\<lparr>hk_px := k\<rparr>))" for k using assms(1) by simp
  show "\<exists>w1. hook_fcntl px junk fd F_SETFL arg w =
      Inr (fst (px_fcntl px (snd (fd_ctx_new px fd (hk_px w))) fd F_SETFL (arg OR O_NONBLOCK)), w1)"
    by (simp add: hook_fcntl_def Let_def split_beta hook_get_in_table [OF assms(1-3)] fd_ctx_new_fields assms(4)
        fdctx_update_def fd_created_def)
  show "\<exists>a w2. hook_fcntl px junk fd F_GETFL arg w = Inr (a, w2)"
    by (simp add: hook_fcntl_def Let_def split_beta hook_get_in_table [OF wf0 assms(2,3)] F_GETFL_def F_SETFL_def
        fd_ctx_new_fields assms(4))
qed

theorem fcntl_hides_nonblock_witness:
  "\<exists>a w1 w2. hook_fcntl sample_posix 0 5 F_SETFL O_NONBLOCK hook_sample = Inr (0, w1) \<and>
     hook_fcntl sample_posix 0 5 F_GETFL 0 w1 = Inr (a, w2) \<and> \<not> has_flag a O_NONBLOCK"
proof -
  have inv: "hook_inv sample_epoll {} hook_sample" by (rule hook_reach_inv [OF hook_sample_reach sample_epoll_law])
  then have wf: "fd_wf (hk_fds hook_sample)" by (simp add: hook_inv_def)
  have px: "posix_nonblock sample_posix" and sock: "\<And>k. px_fstat sample_posix k 5 = Some True"
    by (simp_all add: posix_nonblock_def sample_posix_def F_GETFL_def F_SETFL_def)
  have ok: "fst (px_fcntl sample_posix k 5 F_SETFL x) = 0" for k x by (simp add: sample_posix_def)
  obtain w1 where w1: "hook_fcntl sample_posix 0 5 F_SETFL O_NONBLOCK hook_sample = Inr (0, w1)"
    using hook_fcntl_runs(1) [OF wf, of 5 sample_posix 0 O_NONBLOCK] sock ok by auto
  have "fd_wf (hk_fds w1)" using hook_fcntl_inv [OF inv w1] by (simp add: hook_inv_def)
  then obtain a w2 where w2: "hook_fcntl sample_posix 0 5 F_GETFL 0 w1 = Inr (a, w2)"
    using hook_fcntl_runs(2) [of w1 5 sample_posix 0 0] sock by auto
  from fcntl_hides_nonblock [OF hook_sample_reach sample_epoll_law px sock _ _ w1 w2] w1 w2 show ?thesis by auto
qed

lemma or_and_self: "(x OR y) AND y = (y :: 'w::len word)"
  by (rule bit_word_eqI) (auto simp: bit_simps)

lemma add_event_set:
  assumes core: "io_core io" and run: "add_event ep cur q st fd event cb io = Inr (rt, io')" and "rt \<noteq> -1"
  shows "rt = 0 \<and> in_table fd io' \<and> fc_events (m_fdContexts io' ! nat fd) AND event \<noteq> 0"
  using core run
proof (cases rule: add_event_Inr)
  case (2 sl)
  have "event \<noteq> 0" using 2(3) by (auto simp: get_event_context_Inr_iff event_defs)
  with 2 show ?thesis by (auto simp: in_table_def or_and_self)
qed (use assms(3) in simp)

text \<open>Cancelling an event goes through when the pipe has room or nobody is idle.\<close>

definition tickle_ready :: "('u, 'k) io_manager \<Rightarrow> bool" where
  "tickle_ready io \<longleftrightarrow> (\<exists>s. im_schedulers io (im_this io) = Some s \<and> (hasIdleThreads s \<longrightarrow> 0 < im_pipe_room io))"

lemma post_runs:
  assumes "alive io i" and "tickle_ready io"
  shows "\<exists>io'. post (Some i) task io = Inr io' \<and> im_timers io' = im_timers io"
proof -
  from assms(1) obtain s where s: "im_schedulers io i = Some s" by (auto simp: alive_def)
  let ?io = "io\<lparr>im_schedulers := (im_schedulers io)(i \<mapsto> snd (schedule task s))\<rparr>"
  have "\<exists>io'. io_tickle ?io = Inr io'"
    using assms(2) s by (auto simp: tickle_ready_def io_tickle_def own_scheduler_def deref_def hasIdleThreads_def)
  then have "\<exists>io'. post (Some i) task io = Inr io'" by (auto simp: post_def s Let_def)
  then show ?thesis by (blast elim: post_Inr)
qed

lemma trigger_event_runs:
  assumes core: "io_core io" and i: "i < length (m_fdContexts io)" and b: "fc_events (m_fdContexts io ! i) AND event \<noteq> 0"
    and sl: "get_event_context event = Inr sl" and ready: "tickle_ready io"
  shows "\<exists>io'. trigger_event event i io = Inr io' \<and> im_timers io' = im_timers io"
proof -
  have "ctx_ok (alive io) (m_fdContexts io ! i)" using core i by (simp add: io_core_def)
  from ctx_ok_slot [OF this sl] b obtain p where p: "ec_scheduler (slot_ctx sl (m_fdContexts io ! i)) = Some p" "alive io p"
    by (auto simp: slot_fits_def filled_def)
  from post_runs [OF p(2) ready, of "event_task (slot_ctx sl (m_fdContexts io ! i))"] show ?thesis
    by (auto simp: trigger_event_eq [OF sl b] p(1))
qed

lemma cancel_event_runs:
  assumes core: "io_core io" and t: "in_table fd io" and b: "fc_events (m_fdContexts io ! nat fd) AND event \<noteq> 0"
    and sl: "get_event_context event = Inr sl" and ready: "tickle_ready io"
    and ctl: "\<And>e ev. fst (ep_ctl ep (im_kernel io) (del_op e) fd ev) = 0"
  shows "\<exists>io'. cancel_event ep fd event io = Inr (True, io') \<and> im_timers io' = im_timers io"
proof -
  define c where "c = m_fdContexts io ! nat fd"
  let ?io = "io\<lparr>im_kernel := snd (ep_ctl ep (im_kernel io) (del_op (fc_events c AND NOT event)) fd (EPOLLET OR fc_events c AND NOT event))\<rparr>"
  have "\<exists>io'. trigger_event event (nat fd) ?io = Inr io' \<and> im_timers io' = im_timers ?io"
    by (rule trigger_event_runs [OF _ _ _ sl])
       (use core t b ready in \<open>simp_all add: io_core_def in_table_def tickle_ready_def\<close>)
  then show ?thesis
    using cancel_event_eq [OF t c_def b [folded c_def] ctl] by (auto simp: trigger_if_def)
qed

lemma cancal_all_runs:
  assumes core: "io_core io" and t: "in_table fd io" and b: "fc_events (m_fdContexts io ! nat fd) = READ"
    and ready: "tickle_ready io" and ctl: "fst (ep_ctl ep (im_kernel io) EPOLL_CTL_DEL fd 0) = 0"
  shows "\<exists>io'. cancal_all ep fd io = Inr (True, io')"
proof -
  let ?io = "io\<lparr>im_kernel := snd (ep_ctl ep (im_kernel io) EPOLL_CTL_DEL fd 0)\<rparr>"
  have core': "io_core ?io" and fd: "nat fd < length (m_fdContexts ?io)"
    using core t by (simp_all add: io_core_def in_table_def)
  have bit: "fc_events (m_fdContexts ?io ! nat fd) AND READ \<noteq> 0" using b by (simp add: event_defs)
  from trigger_event_runs [OF core' fd bit get_event_context_simps(1)] ready
  obtain io2 where tr: "trigger_if True READ (nat fd) ?io = Inr io2"
    by (auto simp: trigger_if_def tickle_ready_def)
  from core' fd tr obtain c where "m_fdContexts io2 = (m_fdContexts io)[nat fd := c]" "fc_events c = cleared_if True READ READ"
    by (rule trigger_if_core) (simp add: b)
  then have "fc_events (m_fdContexts io2 ! nat fd) = 0" using fd by (simp add: cleared_if_def event_defs)
  with t b tr ctl show ?thesis
    by (auto simp: cancal_all_def ctl_def split_beta event_defs trigger_if_def Let_def)
qed

text \<open>One round of \<open>do_io\<close>. Calls that are interrupted are repeated; the first other result is
  returned with its \<open>errno\<close>, nothing else having changed, unless it is \<open>EAGAIN\<close>. Then
  either the fiber has given up control, with the event of its descriptor registered for it, one
  more event pending, and a timer exactly if there is a time-out; or the kernel refused the event,
  the event tables are as before and the call fails.\<close>

theorem do_io_round_correct:
  fixes w :: "('a, 'k, 'p) hook_world"
  assumes "reach (hook_start ep) (hook_step px ep held) w" and "epoll_law ep" and "fresh_timer p (hk_io w)"
    and "rs = replicate k (-1, EINTR) @ (n, err) # rest" and "\<not> (n = -1 \<and> err = EINTR)"
    and "do_io_round ep now p ti q st fd event to rs w = Inr (Some (r, w'))"
  shows "if n = -1 \<and> err = EAGAIN then
       (\<exists>sl. r = Io_Yielded (if to = -1 then None else Some p) \<and> get_event_context event = Inr sl \<and>
          slot_ctx sl (m_fdContexts (hk_io w') ! nat fd) = event_context_of (Some (im_this (hk_io w))) q None \<and>
          fc_events (m_fdContexts (hk_io w') ! nat fd) = fc_events (m_fdContexts (hk_io w) ! nat fd) OR event \<and>
          m_pendingEventCount (hk_io w') = m_pendingEventCount (hk_io w) + 1 \<and>
          deadlines (im_timers (hk_io w')) = (if to = -1 then deadlines (im_timers (hk_io w))
            else (deadlines (im_timers (hk_io w)))(p \<mapsto> now + to))) \<or>
       (r = Io_Return (-1) \<and> m_fdContexts (hk_io w') = m_fdContexts (hk_io w) \<and>
          m_pendingEventCount (hk_io w') = m_pendingEventCount (hk_io w))
     else r = Io_Return n \<and> hk_errno w' = err \<and> hk_io w' = hk_io w \<and> hk_fds w' = hk_fds w"
proof -
  have calls: "do_io_calls rs = Some (n, err)"
    unfolding assms(4) by (induction k) (use assms(5) in auto)
  let ?w = "w\<lparr>hk_errno := err\<rparr>"
  show ?thesis
  proof (cases "n = -1 \<and> err = EAGAIN")
    case False
    with assms(6) calls show ?thesis by (auto simp: do_io_round_def Let_def)
  next
    case True
    have "do_io_wait ep now p ti q st fd event to ?w = Inr (r, w')"
      using assms(6) True by (auto simp: do_io_round_def calls Let_def elim!: obind_InrE)
    have reach: "io_reach ep held (hk_io w)" using hook_reach_inv [OF assms(1,2)] by (simp add: hook_inv_def)
    then have wf: "io_wf ep (hk_io w)" using assms(2) by (rule io_reach_wf)
    have arm: "io_same (hk_io w) io1 \<and> io_core io1 \<and> timer = (if to = -1 then None else Some p) \<and>
        deadlines (im_timers io1) = (if to = -1 then deadlines (im_timers (hk_io w))
          else (deadlines (im_timers (hk_io w)))(p \<mapsto> now + to))"
      if a: "arm_timeout now p ti fd event to (hk_io w) = Inr (timer, io1)" for timer io1
      using a timed_same [OF io_wf_timers [OF wf] assms(3)] io_reach_wf [OF arm_timeout_reach [OF reach assms(3) a] assms(2)]
      by (auto elim!: arm_timeout_cases simp: io_wf_def)
    from \<open>do_io_wait ep now p ti q st fd event to ?w = Inr (r, w')\<close>
    show ?thesis
    proof (cases rule: do_io_wait_Inr)
      case (1 timer io1 rt io2)
      note same = arm [of timer io1]
      have "\<exists>sl. get_event_context event = Inr sl \<and> in_table fd io1 \<and>
          io2 = io1\<lparr>im_kernel := im_kernel io2, m_pendingEventCount := m_pendingEventCount io1 + 1,
            m_fdContexts := (m_fdContexts io1)[nat fd := event_set sl event (event_context_of (Some (im_this io1)) q None)
               (m_fdContexts io1 ! nat fd)]\<rparr>"
        using 1(1) same 1(2,3) by (auto elim!: add_event_Inr [rotated])
      then obtain sl where sl: "get_event_context event = Inr sl" and t: "in_table fd io1"
        and io2: "io2 = io1\<lparr>im_kernel := im_kernel io2, m_pendingEventCount := m_pendingEventCount io1 + 1,
            m_fdContexts := (m_fdContexts io1)[nat fd := event_set sl event (event_context_of (Some (im_this io1)) q None)
               (m_fdContexts io1 ! nat fd)]\<rparr>" by blast
      have w': "hk_io w' = io2" using 1(5) by simp
      have "nat fd < length (m_fdContexts io1)" using t by (simp add: in_table_def)
      with sl 1 same True show ?thesis
        unfolding w' by (subst (1 2 3 4) io2) (auto simp: io_same_def event_set_def)
    next
      case (2 timer io1 io2 io3)
      have "io_core io1" "io_same (hk_io w) io1" using arm [of timer io1] 2(1) by auto
      moreover from this(1) 2(2) have "m_fdContexts io2 = m_fdContexts io1 \<and> m_pendingEventCount io2 = m_pendingEventCount io1"
        by (rule add_event_Inr) auto
      ultimately show ?thesis
        using cancel_timer_same(1) [OF 2(3)] 2 True by (auto simp: io_same_def)
    qed
  qed
qed

text \<open>C19: a wait that times out. A fiber that waits in \<open>do_io\<close> and whose time-out closure runs
  first is put back on its scheduler exactly once; when it continues, the call fails with
  \<open>ETIMEDOUT\<close>, its \<open>timer_info\<close> is gone, and the event tables and the count of pending
  events are what they were before the wait.\<close>

theorem wait_times_out:
  fixes w :: "('a, 'k, 'p) hook_world"
  assumes "reach (hook_start ep) (hook_step px ep held) w" and "epoll_law ep" and "fresh_timer p (hk_io w)"
    and "hk_tinfo w ti = Some 0"
    and "do_io_wait ep now p ti q st fd event to w = Inr (Io_Yielded timer, w1)"
    and "\<And>op ev. op \<noteq> EPOLL_CTL_ADD \<Longrightarrow> fst (ep_ctl ep (im_kernel (hk_io w1)) op fd ev) = 0"
    and "wait_timeout ep ti fd event w1 = Inr w2" and "do_io_resume timer ti w2 = Inr (r, w3)"
  shows "r = Some (-1) \<and> hk_errno w3 = ETIMEDOUT \<and> hk_tinfo w3 ti = None \<and>
     m_fdContexts (hk_io w3) = m_fdContexts (hk_io w) \<and> m_pendingEventCount (hk_io w3) = m_pendingEventCount (hk_io w) \<and>
     im_schedulers (hk_io w3) = (im_schedulers (hk_io w))(im_this (hk_io w) :=
       map_option (\<lambda>s. snd (schedule (task_of_fiber (Some q) None) s)) (im_schedulers (hk_io w) (im_this (hk_io w))))"
proof -
  have reach: "io_reach ep held (hk_io w)" using hook_reach_inv [OF assms(1,2)] by (simp add: hook_inv_def)
  then have wf: "io_wf ep (hk_io w)" using assms(2) by (rule io_reach_wf)
  from assms(5) obtain io1 rt io2 where a: "arm_timeout now p ti fd event to (hk_io w) = Inr (timer, io1)"
    and add: "add_event ep (Some (im_this io1)) q st fd event None io1 = Inr (rt, io2)" and rt: "rt \<noteq> -1"
    and w1: "w1 = w\<lparr>hk_io := io2\<rparr>"
    by (rule do_io_wait_Inr) auto
  have wf1: "io_wf ep io1"
    by (rule io_reach_wf [OF arm_timeout_reach [OF reach assms(3) a] assms(2)])
  have same: "io_same (hk_io w) io1" "im_schedulers io1 = im_schedulers (hk_io w)"
    using a timed_same [OF io_wf_timers [OF wf] assms(3)] by (auto elim!: arm_timeout_cases)
  have core1: "io_core io1" and alive: "alive io1 (im_this io1)" using wf1 by (simp_all add: io_wf_def io_core_def)
  from add_event_set [OF core1 add rt] have r0: "rt = 0" and t: "in_table fd io2"
    and b: "fc_events (m_fdContexts io2 ! nat fd) AND event \<noteq> 0" by auto
  have k: "im_kernel io2 = im_kernel (hk_io w1)" by (simp add: w1)
  obtain io3 where c: "cancel_event ep fd event io2 = Inr (True, io3)"
    and w2: "w2 = w1\<lparr>hk_tinfo := (hk_tinfo w1)(ti \<mapsto> ETIMEDOUT), hk_io := io3\<rparr>"
  proof -
    from assms(7) obtain bo io3 where c: "cancel_event ep fd event io2 = Inr (bo, io3)"
      and w2: "w2 = w1\<lparr>hk_tinfo := (hk_tinfo w1)(ti \<mapsto> ETIMEDOUT), hk_io := io3\<rparr>"
      using assms(4) by (cases rule: wait_timeout_Inr) (auto simp: w1)
    have ctl: "fst (ep_ctl ep (im_kernel io2) (del_op e) fd ev) = 0" for e ev
      unfolding k by (rule assms(6)) (simp add: del_op_def)
    from c [unfolded cancel_event_eq [OF t refl b ctl]] have "bo" by (rule obind_InrE) simp
    with that c w2 show thesis by simp
  qed
  note restored = event_restored [OF wf1 assms(2) alive add [unfolded r0]]
  from assms(8) obtain io4 where "cancel_timer timer io3 = Inr io4"
    and r: "r = Some (-1)" "w3 = drop_tinfo ti (w2\<lparr>hk_io := io4, hk_errno := ETIMEDOUT\<rparr>)"
    by (cases rule: do_io_resume_Inr) (auto simp: w2 ETIMEDOUT_def)
  with cancel_timer_same [OF this(1)] restored c same show ?thesis
    by (auto simp: io_same_def drop_tinfo_def w2)
qed

text \<open>The sample: the time-out of 100 ms is timer 0, the event is reading descriptor 7.\<close>

definition sample_armed :: "(nat hook_fn, int \<Rightarrow> event_bits option) io_manager" where
  "sample_armed = fresh_io\<lparr>im_timers := (timer_manager_new 1000)\<lparr>
     timer_store := [0 \<mapsto> \<lparr>m_recurring = False, m_ms = 100, m_next = 1100, m_cb = Some (User_Fn (Wait_Timeout 0 7 READ))\<rparr>],
     m_timers := [0], m_tickled := True\<rparr>\<rparr>"

definition sample_wait :: "(nat hook_fn, int \<Rightarrow> event_bits option) io_manager" where
  "sample_wait = sample_armed\<lparr>im_kernel := (im_kernel sample_armed)(7 \<mapsto> EPOLLET OR READ), m_pendingEventCount := 1,
     m_fdContexts := (m_fdContexts sample_armed)[7 := event_set Read_Slot READ (event_context_of (Some 0) 9 None) (fd_context_new 7)]\<rparr>"

lemma sample_arm: "arm_timeout 1000 0 0 7 READ 100 fresh_io = Inr (Some 0, sample_armed)"
  by (simp add: arm_timeout_def add_timer_def timer_new_def ms_add_def add_timer_locked_def timer_manager_new_def
      set_insert_def set_lower_bound_def ms_in_range_def on_timer_inserted_at_front_def io_tickle_def own_scheduler_def hasIdleThreads_def Let_def
      fresh_io_def sample_armed_def plain_scheduler_def caller_scheduler_def
      del: upt_conv_Cons upt_Suc upt_rec_numeral cong del: obind_cong)

lemma sample_wait_add: "add_event sample_epoll (Some 0) 9 RUNNING 7 READ None sample_armed = Inr (0, sample_wait)"
proof -
  have ctxs: "m_fdContexts sample_armed = m_fdContexts fresh_io" and kern: "im_kernel sample_armed 7 = None"
    and pend: "m_pendingEventCount sample_armed = 0"
    by (simp_all add: sample_armed_def fresh_io_def)
  have t: "in_table 7 sample_armed" by (simp add: in_table_def ctxs sample_io_len)
  have c: "fd_context_new 7 = m_fdContexts sample_armed ! nat 7" by (simp add: ctxs sample_io_ctx)
  have r: "ep_ctl sample_epoll (im_kernel sample_armed) (add_op (fc_events (fd_context_new 7 :: nat hook_fn fd_context))) 7
      (EPOLLET OR fc_events (fd_context_new 7 :: nat hook_fn fd_context) OR READ) = (0, (im_kernel sample_armed)(7 \<mapsto> EPOLLET OR READ))"
    by (simp add: sample_epoll_def sample_ctl_def add_op_def fd_context_new_def event_defs kern)
  have "get_event_context READ = Inr Read_Slot" by (simp add: get_event_context_def)
  from add_event_ok [OF t c this, of sample_epoll None RUNNING "Some 0" 9] r show ?thesis
    by (simp add: fd_context_new_def event_defs sample_wait_def pend)
qed

lemma sample_waits:
  "do_io_wait sample_epoll 1000 0 0 9 RUNNING 7 READ 100 hook_sample =
     Inr (Io_Yielded (Some 0), hook_sample\<lparr>hk_io := sample_wait\<rparr>)"
proof -
  have "hk_io hook_sample = fresh_io" "hk_iom hook_sample" by (simp_all add: hook_sample_def)
  moreover have "im_this sample_armed = 0" by (simp add: sample_armed_def fresh_io_def)
  ultimately show ?thesis by (simp add: do_io_wait_def sample_arm sample_wait_add)
qed

theorem do_io_round_correct_witness:
  "\<exists>w'. do_io_round sample_epoll 1000 0 0 9 RUNNING 7 READ 100 [(-1, EINTR), (-1, EAGAIN)] hook_sample =
       Inr (Some (Io_Yielded (Some 0), w')) \<and> deadlines (im_timers (hk_io w')) 0 = Some 1100"
proof -
  let ?w1 = "hook_sample\<lparr>hk_errno := EAGAIN, hk_io := sample_wait\<rparr>"
  have "hk_io hook_sample = fresh_io" "hk_iom hook_sample" by (simp_all add: hook_sample_def)
  moreover have "im_this sample_armed = 0" by (simp add: sample_armed_def fresh_io_def)
  ultimately have w: "do_io_wait sample_epoll 1000 0 0 9 RUNNING 7 READ 100 (hook_sample\<lparr>hk_errno := EAGAIN\<rparr>) =
      Inr (Io_Yielded (Some 0), ?w1)"
    by (simp add: do_io_wait_def sample_arm sample_wait_add)
  have rs: "[(-1, EINTR), (-1, EAGAIN)] = replicate 1 (-1, EINTR) @ (-1, EAGAIN) # []" by simp
  have r: "do_io_round sample_epoll 1000 0 0 9 RUNNING 7 READ 100 [(-1, EINTR), (-1, EAGAIN)] hook_sample =
      Inr (Some (Io_Yielded (Some 0), ?w1))"
    by (simp add: do_io_round_def w Let_def EINTR_def EAGAIN_def [symmetric]) (simp add: EAGAIN_def)
  have "fresh_timer 0 (hk_io hook_sample)" "\<not> (- 1 = (- 1 :: int) \<and> EAGAIN = EINTR)"
    by (simp_all add: hook_sample_def fresh_io_def timer_manager_new_def EAGAIN_def EINTR_def)
  from do_io_round_correct [OF hook_sample_reach sample_epoll_law this(1) rs this(2) r] r show ?thesis
    by auto
qed

lemma sample_wait_ctl: "op \<noteq> EPOLL_CTL_ADD \<Longrightarrow> fst (ep_ctl sample_epoll (im_kernel sample_wait) op 7 ev) = 0"
  by (simp add: sample_epoll_def sample_ctl_def sample_wait_def)

lemma sample_wait_inv: "hook_inv sample_epoll {} (hook_sample\<lparr>hk_io := sample_wait\<rparr>)"
  by (rule do_io_wait_inv [OF sample_epoll_law hook_reach_inv [OF hook_sample_reach sample_epoll_law] _ sample_waits])
     (simp add: hook_sample_def fresh_io_def timer_manager_new_def)

theorem wait_times_out_witness:
  "\<exists>w2 w3. wait_timeout sample_epoll 0 7 READ (hook_sample\<lparr>hk_io := sample_wait\<rparr>) = Inr w2 \<and>
     do_io_resume (Some 0) 0 w2 = Inr (Some (-1), w3) \<and> hk_errno w3 = ETIMEDOUT"
proof -
  let ?w1 = "hook_sample\<lparr>hk_io := sample_wait\<rparr>"
  have wf: "io_wf sample_epoll sample_wait"
    using io_reach_wf [OF _ sample_epoll_law] sample_wait_inv by (auto simp: hook_inv_def)
  then have core: "io_core sample_wait" by (simp add: io_wf_def)
  have "m_fdContexts sample_wait ! 7 = event_set Read_Slot READ (event_context_of (Some 0) 9 None) (fd_context_new 7)"
    by (simp add: sample_wait_def sample_armed_def sample_io_len)
  then have b: "fc_events (m_fdContexts sample_wait ! nat 7) AND READ \<noteq> 0"
    by (simp add: fd_context_new_def event_defs)
  have t: "in_table 7 sample_wait" by (simp add: in_table_def sample_wait_def sample_armed_def sample_io_len)
  have ready: "tickle_ready sample_wait"
    by (simp add: tickle_ready_def sample_wait_def sample_armed_def fresh_io_def hasIdleThreads_def plain_scheduler_def caller_scheduler_def)
  have ctl: "fst (ep_ctl sample_epoll (im_kernel sample_wait) (del_op e) 7 ev) = 0" for e ev
    by (rule sample_wait_ctl) (simp add: del_op_def)
  from cancel_event_runs [OF core t b get_event_context_simps(1) ready ctl] obtain io3
    where c: "cancel_event sample_epoll 7 READ sample_wait = Inr (True, io3)" and tm: "im_timers io3 = im_timers sample_wait"
    by blast
  let ?w2 = "?w1\<lparr>hk_tinfo := (hk_tinfo ?w1)(0 \<mapsto> ETIMEDOUT), hk_io := io3\<rparr>"
  have w2: "wait_timeout sample_epoll 0 7 READ ?w1 = Inr ?w2"
    by (simp add: wait_timeout_def c hook_sample_def)
  have "\<exists>m. timer_cancel 0 (im_timers io3) = Inr (True, m)"
    unfolding tm using timer_cancel_armed [OF io_wf_timers [OF wf], of 0]
    by (simp add: sample_wait_def sample_armed_def)
  then obtain r w3 where w3: "do_io_resume (Some 0) 0 ?w2 = Inr (r, w3)"
    by (auto simp: do_io_resume_def cancel_timer_def Let_def ETIMEDOUT_def)
  have "fresh_timer 0 (hk_io hook_sample)" "hk_tinfo hook_sample 0 = Some 0"
    by (simp_all add: hook_sample_def fresh_io_def timer_manager_new_def)
  from wait_times_out [OF hook_sample_reach sample_epoll_law this sample_waits _ w2 w3] sample_wait_ctl w2 w3
  show ?thesis by auto
qed

text \<open>\<open>sleep\<close> measures in 32 bits. A hooked \<open>sleep\<close> that returns control has
  added one timer, not recurring, that schedules the calling fiber, and changed no other deadline;
  the delay is the number of milliseconds modulo \<open>2^32\<close>, which is what was asked for up to
  4294967 seconds and always less above.\<close>

theorem sleep_wraps:
  assumes "reach (hook_start ep) (hook_step px ep held) w" and "epoll_law ep" and "fresh_timer p (hk_io w)"
    and "hk_enable w" and "hook_sleep now p q seconds w = Inr (r, w')"
  shows "r = Some p \<and>
     deadlines (im_timers (hk_io w')) = (deadlines (im_timers (hk_io w)))(p \<mapsto> now + (uint seconds * 1000) mod 2 ^ 32) \<and>
     (\<exists>t. timer_store (im_timers (hk_io w')) p = Some t \<and> m_cb t = Some (User_Fn (Schedule_Fiber q)) \<and> \<not> m_recurring t) \<and>
     (uint seconds \<le> 4294967 \<longrightarrow> (uint seconds * 1000) mod 2 ^ 32 = uint seconds * 1000) \<and>
     (4294967 < uint seconds \<longrightarrow> (uint seconds * 1000) mod 2 ^ 32 < uint seconds * 1000)"
proof -
  have "io_wf ep (hk_io w)"
    using hook_reach_inv [OF assms(1,2)] io_reach_wf [OF _ assms(2)] by (auto simp: hook_inv_def)
  then have tm: "tm_wf (im_timers (hk_io w))" by (rule io_wf_timers)
  have delay: "uint (seconds * 1000) = (uint seconds * 1000) mod 2 ^ 32"
    by (simp add: uint_word_ariths)
  have small: "(uint seconds * 1000) mod 2 ^ 32 = uint seconds * 1000" if "uint seconds \<le> 4294967"
    using that by (intro mod_pos_pos_trivial) auto
  have big: "(uint seconds * 1000) mod 2 ^ 32 < uint seconds * 1000" if "4294967 < uint seconds"
  proof -
    have "(uint seconds * 1000) mod 2 ^ 32 < (2 ^ 32 :: int)" by simp
    with that show ?thesis by simp
  qed
  from assms(5) show ?thesis
  proof (cases rule: hook_sleep_Inr)
    case (2 io)
    from timed_same(3,4) [OF tm assms(3) 2(4)] 2 small big show ?thesis by (simp add: delay)
  qed (use assms(4) in simp)
qed

text \<open>The longest delay that is kept, and the shortest that is not.\<close>

lemma sample_sleep: "\<exists>w'. hook_sleep 1000 0 9 seconds hook_sample = Inr (Some 0, w')"
proof -
  have "ms_in_range (1000 + uint (seconds * 1000))"
    using uint_lt2p [of "seconds * 1000"] by (simp add: ms_in_range_def)
  then show ?thesis
    by (simp add: hook_sleep_def hook_sample_def add_timer_def timer_new_def add_timer_locked_def timer_manager_new_def
        set_insert_def set_lower_bound_def on_timer_inserted_at_front_def io_tickle_def own_scheduler_def hasIdleThreads_def
        Let_def fresh_io_def plain_scheduler_def caller_scheduler_def
        del: upt_conv_Cons upt_Suc upt_rec_numeral cong del: obind_cong)
qed

theorem sleep_wraps_witness:
  "\<exists>w'. hook_sleep 1000 0 9 4294968 hook_sample = Inr (Some 0, w') \<and> deadlines (im_timers (hk_io w')) 0 = Some 1704"
proof -
  obtain w' where w': "hook_sleep 1000 0 9 4294968 hook_sample = Inr (Some 0, w')" using sample_sleep by blast
  have "fresh_timer 0 (hk_io hook_sample)" "hk_enable hook_sample"
    by (simp_all add: hook_sample_def fresh_io_def timer_manager_new_def)
  from sleep_wraps [OF hook_sample_reach sample_epoll_law this w'] w' show ?thesis by simp
qed

lemma cancal_all_total:
  fixes io :: "('u, 'k) io_manager"
  assumes wf: "io_wf ep io" and "epoll_law ep" and t: "in_table fd io"
    and ctl: "fst (ep_ctl ep (im_kernel io) EPOLL_CTL_DEL fd 0) = 0" and c: "c = m_fdContexts io ! nat fd"
    and run: "cancal_all ep fd io = Inr (r, io')"
  shows "m_fdContexts io' = (m_fdContexts io)[nat fd := fd_context_new (nat fd)] \<and>
     m_pendingEventCount io' = m_pendingEventCount io - of_nat (ev_weight (fc_events c)) \<and>
     queues_grow (\<lambda>p. posted (fc_events c AND READ \<noteq> 0) (fc_read c) p @
                      posted (fc_events c AND WRITE \<noteq> 0) (fc_write c) p) io io'"
proof (cases "fc_events c = 0")
  case True
  have core: "io_core io" using wf by (simp add: io_wf_def)
  have "c = fd_context_new (nat fd)"
    using io_core_ctx [OF core t] True t by (intro ctx_ok_none [of "alive io"]) (simp_all add: c in_table_def)
  with True run t c show ?thesis
    by (auto simp: cancal_all_def queues_grow_def posted_def ev_weight_def map_option.id [unfolded id_def]
        list_update_same_conv in_table_def)
next
  case False
  with run t ctl c have "r" by (auto simp: cancal_all_def Let_def ctl_def split_beta elim!: obind_InrE)
  with cancal_all_effect [OF wf assms(2) _ c] run show ?thesis by simp
qed

text \<open>C29: \<open>close\<close>. Closing a descriptor of the event table with the hooks on, on a thread with an
  I/O manager and with \<open>epoll_ctl\<close> working, leaves it with no event registered, the count of
  pending events lower by those it had, each of its waiting tasks on the scheduler it waits for,
  the reader's first, and no descriptor context, before the original \<open>close\<close> is called.\<close>

theorem close_cancels_events:
  assumes "reach (hook_start ep) (hook_step px ep held) w" and "epoll_law ep" and "hk_enable w" and "hk_iom w"
    and "0 \<le> fd" and "fd < 32" and "fst (ep_ctl ep (im_kernel (hk_io w)) EPOLL_CTL_DEL fd 0) = 0"
    and "hook_close px ep fd w = Inr (rc, w')" and "c = m_fdContexts (hk_io w) ! nat fd"
  shows "m_fdContexts (hk_io w') = (m_fdContexts (hk_io w))[nat fd := fd_context_new (nat fd)] \<and>
     m_pendingEventCount (hk_io w') = m_pendingEventCount (hk_io w) - of_nat (ev_weight (fc_events c)) \<and>
     queues_grow (\<lambda>p. posted (fc_events c AND READ \<noteq> 0) (fc_read c) p @
                      posted (fc_events c AND WRITE \<noteq> 0) (fc_write c) p) (hk_io w) (hk_io w') \<and>
     m_datas (hk_fds w') ! nat fd = None \<and>
     rc = fst (px_close px (snd (fd_ctx_new px fd (hk_px w))) fd)"
proof -
  have inv: "hook_inv ep held w" by (rule hook_reach_inv [OF assms(1,2)])
  then have wf: "fd_wf (hk_fds w)" and io: "io_wf ep (hk_io w)"
    using io_reach_wf [OF _ assms(2)] by (auto simp: hook_inv_def)
  then have core: "io_core (hk_io w)" by (simp add: io_wf_def)
  have t: "in_table fd (hk_io w)" using core assms(5,6) by (simp add: io_core_def in_table_def)
  define w1 where "w1 = w\<lparr>hk_px := snd (fd_ctx_new px fd (hk_px w)), hk_fds := fd_created px fd (hk_px w) (hk_fds w)\<rparr>"
  have g: "hook_get px fd False w = Inr (Some (fdctx_next (hk_fds w), fst (fd_ctx_new px fd (hk_px w))), w1)"
    using assms(6) unfolding w1_def by (intro hook_get_in_table [OF wf assms(5)]) simp
  have w1: "hk_iom w1" "hk_io w1 = hk_io w" "length (m_datas (hk_fds w1)) = 64"
    using assms(4) wf by (simp_all add: w1_def fd_created_def)
  from assms(8) [unfolded hook_close_some [OF assms(3) g]] w1 obtain x m where
    x: "cancal_all ep fd (hk_io w) = Inr x" and m: "fd_del fd (hk_fds w1) = Inr m"
    and w': "w' = w1\<lparr>hk_io := snd x, hk_fds := m, hk_px := snd (px_close px (hk_px w1) fd)\<rparr>"
    and rc: "rc = fst (px_close px (hk_px w1) fd)"
    by (auto elim!: obind_InrE)
  have "m_datas m ! nat fd = None"
    using m w1 assms(5,6) by (auto simp: fd_del_def elim!: obind_InrE)
  moreover have "m_fdContexts (snd x) = (m_fdContexts (hk_io w))[nat fd := fd_context_new (nat fd)] \<and>
     m_pendingEventCount (snd x) = m_pendingEventCount (hk_io w) - of_nat (ev_weight (fc_events c)) \<and>
     queues_grow (\<lambda>p. posted (fc_events c AND READ \<noteq> 0) (fc_read c) p @
                      posted (fc_events c AND WRITE \<noteq> 0) (fc_write c) p) (hk_io w) (snd x)"
    using cancal_all_total [OF io assms(2) t assms(7,9), of "fst x" "snd x"] x by simp
  ultimately show ?thesis by (simp add: w' rc) (simp add: w1_def)
qed

lemma sample_wait_wf: "io_wf sample_epoll sample_wait"
  using io_reach_wf [OF _ sample_epoll_law] sample_wait_inv by (auto simp: hook_inv_def)

lemma sample_wait_reach:
  "reach (hook_start sample_epoll) (hook_step sample_posix sample_epoll {}) (hook_sample\<lparr>hk_io := sample_wait\<rparr>)"
proof (rule reach_step [OF hook_sample_reach])
  have "fresh_timer 0 (hk_io hook_sample)" by (simp add: hook_sample_def fresh_io_def timer_manager_new_def)
  then show "hook_step sample_posix sample_epoll {} hook_sample (hook_sample\<lparr>hk_io := sample_wait\<rparr>)"
    by (rule hs_wait [OF _ sample_waits])
qed

lemma sample_wait_event:
  "m_fdContexts sample_wait ! 7 = event_set Read_Slot READ (event_context_of (Some 0) 9 None) (fd_context_new 7)"
  "fc_events (m_fdContexts sample_wait ! 7) = READ" "in_table 7 sample_wait" "tickle_ready sample_wait"
  by (simp_all add: sample_wait_def sample_armed_def sample_io_len in_table_def fd_context_new_def event_defs
      tickle_ready_def fresh_io_def hasIdleThreads_def plain_scheduler_def caller_scheduler_def)

theorem close_cancels_events_witness:
  "\<exists>w'. hook_close sample_posix sample_epoll 7 (hook_sample\<lparr>hk_io := sample_wait\<rparr>) = Inr (0, w') \<and>
     map_option m_tasks (im_schedulers (hk_io w') 0) = Some [task_of_fiber (Some 9) None]"
proof -
  let ?w = "hook_sample\<lparr>hk_io := sample_wait\<rparr>"
  have ctl: "fst (ep_ctl sample_epoll (im_kernel sample_wait) EPOLL_CTL_DEL 7 0) = 0"
    by (rule sample_wait_ctl) simp
  have core: "io_core sample_wait" using sample_wait_wf by (simp add: io_wf_def)
  obtain io' where c: "cancal_all sample_epoll 7 sample_wait = Inr (True, io')"
    using cancal_all_runs [OF core _ _ _ ctl] sample_wait_event by auto
  have wf: "fd_wf (hk_fds ?w)" using sample_wait_inv by (simp add: hook_inv_def)
  have on: "hk_enable ?w" "hk_iom ?w" by (simp_all add: hook_sample_def)
  from hook_close_some [OF on(1) hook_get_in_table [OF wf]] on c wf
  obtain rc w' where run: "hook_close sample_posix sample_epoll 7 ?w = Inr (rc, w')"
    by (auto simp: fd_del_def fd_created_def)
  from close_cancels_events [OF sample_wait_reach sample_epoll_law on _ _ _ run refl] ctl
  have "queues_grow (\<lambda>p. posted True (event_context_of (Some 0) 9 None) p) sample_wait (hk_io w') \<and> rc = 0"
    by (simp add: sample_wait_event event_set_def sample_posix_def)
       (simp add: posted_def [abs_def] event_defs fd_context_new_def)
  moreover have "event_task (event_context_of (Some 0) 9 None) = (task_of_fiber (Some 9) None :: nat hook_fn sched_task)"
    "ec_scheduler (event_context_of (Some 0) 9 None :: nat hook_fn event_context) = Some 0"
    by (simp_all add: event_context_of_def event_task_def)
  moreover have "map_option m_tasks (im_schedulers sample_wait 0) = Some []"
    by (simp add: sample_wait_def sample_armed_def fresh_io_def plain_scheduler_def caller_scheduler_def)
  ultimately have "map_option m_tasks (im_schedulers (hk_io w') 0) = Some [task_of_fiber (Some 9) None]" and "rc = 0"
    by (auto simp: queues_grow_def posted_def)
  with run show ?thesis by blast
qed

end
