(* ===== verification/Do_Io_Loop.thy ===== *)
theory Do_Io_Loop
  imports Hook
begin

text \<open>
  \<open>do_io\<close> from its label \<open>retry\<close> to its end: the rounds of Hook, with everything the other fibers do
  between the \<open>yield\<close> and the moment this fiber continues, and what this amounts to, a blocking
  call with a time-out. The second part composes a wait with the loop of \<open>IOManager::idle\<close>.
\<close>

section \<open>The rounds of \<open>do_io\<close>\<close>

text \<open>
  What a round meets outside: the clock and the address of the new timer, should it wait, and what
  happens in the program until the fiber is resumed.
\<close>

record ('a, 'k, 'p) io_round =
  rd_now :: millis
  rd_timer :: nat
  rd_others :: "('a, 'k, 'p) hook_world \<Rightarrow> ('a, 'k, 'p) hook_world outcome"

text \<open>The results the original function has left for the next round.\<close>

fun after_calls :: "(int \<times> int) list \<Rightarrow> (int \<times> int) list" where
  "after_calls [] = []"
| "after_calls ((n, err) # rs) = (if n = -1 \<and> err = EINTR then after_calls rs else rs)"

text \<open>
  \<open>rs\<close> are the results of the original function, with the \<open>errno\<close> each leaves. The outcome is
  \<open>None\<close> when they, or the rounds, are used up before the function returns.
\<close>

fun do_io_loop ::
  "'k epoll \<Rightarrow> nat \<Rightarrow> nat \<Rightarrow> fiber_state \<Rightarrow> int \<Rightarrow> event_bits \<Rightarrow> millis \<Rightarrow> ('a, 'k, 'p) io_round list \<Rightarrow> (int \<times> int) list
   \<Rightarrow> ('a, 'k, 'p) hook_world \<Rightarrow> (int \<times> ('a, 'k, 'p) hook_world) option outcome" where
  "do_io_loop ep ti q st fd event to [] rs w = Inr None"
| "do_io_loop ep ti q st fd event to (r # rounds) rs w =
     obind (do_io_round ep (rd_now r) (rd_timer r) ti q st fd event to rs w) (\<lambda>x.
       case x of
         None \<Rightarrow> Inr None
       | Some (Io_Return n, w1) \<Rightarrow> Inr (Some (n, w1))
       | Some (Io_Yielded timer, w1) \<Rightarrow>
           obind (rd_others r w1) (\<lambda>w2.
           obind (do_io_resume timer ti w2) (\<lambda>(res, w3).
             case res of
               Some n \<Rightarrow> Inr (Some (n, w3))
             | None \<Rightarrow> do_io_loop ep ti q st fd event to rounds (after_calls rs) w3)))"

section \<open>A blocking call\<close>

text \<open>
  The specification knows neither fibers nor events: interruptions are ignored, a result that is not
  available is waited for, and \<open>xs\<close> tells which of the waits expires.
\<close>

fun blocking_io :: "(int \<times> int) list \<Rightarrow> bool list \<Rightarrow> (int \<times> int) option" where
  "blocking_io [] xs = None"
| "blocking_io ((n, err) # rs) xs =
     (if n = -1 \<and> err = EINTR then blocking_io rs xs
      else if n = -1 \<and> err = EAGAIN then
        (case xs of [] \<Rightarrow> None | x # ys \<Rightarrow> if x then Some (-1, ETIMEDOUT) else blocking_io rs ys)
      else Some (n, err))"

definition is_answer :: "int \<times> int \<Rightarrow> bool" where
  "is_answer r \<longleftrightarrow> fst r \<noteq> -1 \<or> snd r \<noteq> EINTR \<and> snd r \<noteq> EAGAIN"

lemma blocking_io_patient:
  "True \<notin> set xs \<Longrightarrow> length rs \<le> length xs \<Longrightarrow> blocking_io rs xs = find is_answer rs"
proof (induction rs arbitrary: xs)
  case (Cons r rs)
  have ne: "EINTR \<noteq> EAGAIN" by (simp add: EINTR_def EAGAIN_def)
  obtain n err where r: "r = (n, err)" by (cases r)
  obtain x ys where xs: "xs = x # ys" using Cons.prems(2) by (cases xs) auto
  from Cons.IH [of xs] Cons.IH [of ys] Cons.prems ne show ?case by (auto simp: r xs is_answer_def)
qed simp

lemma after_calls_length: "length (after_calls rs) \<le> length rs - 1"
  by (induction rs rule: after_calls.induct) auto

lemma do_io_calls_blocking:
  "blocking_io rs xs = (case do_io_calls rs of
     None \<Rightarrow> None
   | Some (n, err) \<Rightarrow>
       if n = -1 \<and> err = EAGAIN then
         (case xs of [] \<Rightarrow> None | x # ys \<Rightarrow> if x then Some (-1, ETIMEDOUT) else blocking_io (after_calls rs) ys)
       else Some (n, err))"
proof (induction rs rule: after_calls.induct)
  case (2 n err rs)
  show ?case
  proof (cases "n = -1 \<and> err = EINTR")
    case True
    then have "blocking_io ((n, err) # rs) xs = blocking_io rs xs" "do_io_calls ((n, err) # rs) = do_io_calls rs"
      "after_calls ((n, err) # rs) = after_calls rs" by simp_all
    then show ?thesis by (simp only: 2 [OF True])
  qed (auto split: list.split)
qed simp

section \<open>One wait\<close>

text \<open>
  The state in which a wait begins: the event is not registered, the kernel accepts it, and a
  time-out can be armed.
\<close>

definition wait_ready ::
  "'k epoll \<Rightarrow> nat \<Rightarrow> fiber_state \<Rightarrow> int \<Rightarrow> event_bits \<Rightarrow> millis \<Rightarrow> ('a, 'k, 'p) io_round
   \<Rightarrow> ('a, 'k, 'p) hook_world \<Rightarrow> bool" where
  "wait_ready ep ti st fd event to r w \<longleftrightarrow>
     hk_iom w \<and> hk_tinfo w ti = Some 0 \<and> st = RUNNING \<and> in_table fd (hk_io w) \<and>
     (let c = m_fdContexts (hk_io w) ! nat fd
      in fc_events c AND event = 0 \<and>
         fst (ep_ctl ep (im_kernel (hk_io w)) (add_op (fc_events c)) fd (EPOLLET OR fc_events c OR event)) = 0) \<and>
     (to \<noteq> -1 \<longrightarrow> fresh_timer (rd_timer r) (hk_io w) \<and> ms_in_range (rd_now r + to) \<and> tickle_ready (hk_io w))"

text \<open>The state in which it continues; \<open>x\<close> tells whether the time-out closure has run.\<close>

definition woken :: "'k epoll \<Rightarrow> nat set \<Rightarrow> nat \<Rightarrow> millis \<Rightarrow> ('a, 'k, 'p) io_round \<Rightarrow> bool \<Rightarrow> ('a, 'k, 'p) hook_world \<Rightarrow> bool" where
  "woken ep held ti to r x w \<longleftrightarrow> hook_inv ep held w \<and> hk_tinfo w ti = Some (if x then ETIMEDOUT else 0) \<and>
     (to \<noteq> -1 \<longrightarrow> timer_store (im_timers (hk_io w)) (rd_timer r) \<noteq> None)"

text \<open>Every wait of the call can begin and is ended by the others, in time unless \<open>xs\<close> says otherwise.\<close>

fun served ::
  "'k epoll \<Rightarrow> nat set \<Rightarrow> nat \<Rightarrow> nat \<Rightarrow> fiber_state \<Rightarrow> int \<Rightarrow> event_bits \<Rightarrow> millis \<Rightarrow> ('a, 'k, 'p) io_round list \<Rightarrow> bool list
   \<Rightarrow> (int \<times> int) list \<Rightarrow> ('a, 'k, 'p) hook_world \<Rightarrow> bool" where
  "served ep held ti q st fd event to [] xs rs w = True"
| "served ep held ti q st fd event to (r # rounds) xs rs w =
     (case do_io_calls rs of
        None \<Rightarrow> True
      | Some (n, err) \<Rightarrow>
          if n = -1 \<and> err = EAGAIN then
            wait_ready ep ti st fd event to r w \<and> xs \<noteq> [] \<and>
            (case do_io_wait ep (rd_now r) (rd_timer r) ti q st fd event to (w\<lparr>hk_errno := err\<rparr>) of
               Inr (Io_Yielded timer, w1) \<Rightarrow>
                 (case rd_others r w1 of
                    Inl _ \<Rightarrow> False
                  | Inr w2 \<Rightarrow> woken ep held ti to r (hd xs) w2 \<and>
                      (case do_io_resume timer ti w2 of
                         Inr (None, w3) \<Rightarrow> served ep held ti q st fd event to rounds (tl xs) (after_calls rs) w3
                       | _ \<Rightarrow> True))
             | _ \<Rightarrow> True)
          else True)"

lemma timer_cancel_runs:
  assumes "tm_wf m" and "timer_store m p \<noteq> None"
  shows "\<exists>b m'. timer_cancel p m = Inr (b, m')"
proof -
  from assms(2) obtain t where t: "timer_store m p = Some t" by auto
  show ?thesis
    using timer_cancel_armed [OF assms(1) t] timer_cancel_dead [OF t] by (cases "m_cb t") auto
qed

lemma arm_timeout_runs:
  assumes wf: "tm_wf (im_timers io)" and p: "to \<noteq> -1 \<Longrightarrow> fresh_timer p io" and r: "to \<noteq> -1 \<Longrightarrow> ms_in_range (now + to)"
    and ready: "to \<noteq> -1 \<Longrightarrow> tickle_ready io"
  shows "\<exists>io1. arm_timeout now p ti fd event to io = Inr (if to = -1 then None else Some p, io1) \<and> io_same io io1"
proof (cases "to = -1")
  case False
  obtain f m where m: "add_timer now p to (Some (User_Fn (Wait_Timeout ti fd event))) False (im_timers io) = Inr (f, m)"
    using add_timer_ok [OF wf p [OF False] r [OF False]] by blast
  have "\<exists>io2. on_timer_inserted_at_front (io\<lparr>im_timers := m\<rparr>) = Inr io2"
    using ready [OF False] by (auto simp: on_timer_inserted_at_front_def tickle_ready_def io_tickle_def own_scheduler_def deref_def)
  then have "\<exists>io1. timed now p to (User_Fn (Wait_Timeout ti fd event)) io = Inr io1"
    by (auto simp: timed_def m Let_def)
  then obtain io1 where t: "timed now p to (User_Fn (Wait_Timeout ti fd event)) io = Inr io1" by blast
  with timed_same(1) [OF wf p [OF False] t] False show ?thesis by (simp add: arm_timeout_timed)
qed (simp add: arm_timeout_def)

lemma do_io_wait_runs:
  assumes law: "epoll_law ep" and inv: "hook_inv ep held w" and ready: "wait_ready ep ti st fd event to r w"
    and sl: "get_event_context event = Inr sl"
  shows "\<exists>w1. do_io_wait ep (rd_now r) (rd_timer r) ti q st fd event to (w\<lparr>hk_errno := err\<rparr>) =
      Inr (Io_Yielded (if to = -1 then None else Some (rd_timer r)), w1)"
proof -
  let ?io = "hk_io w" and ?c = "m_fdContexts (hk_io w) ! nat fd"
  have wf: "io_wf ep ?io" by (rule io_reach_wf [where held = held, OF _ law]) (use inv in \<open>simp add: hook_inv_def\<close>)
  have t: "in_table fd ?io" and e: "fc_events ?c AND event = 0" and st: "st = RUNNING"
    and k: "fst (ep_ctl ep (im_kernel ?io) (add_op (fc_events ?c)) fd (EPOLLET OR fc_events ?c OR event)) = 0"
    using ready by (simp_all add: wait_ready_def Let_def)
  obtain io1 where a: "arm_timeout (rd_now r) (rd_timer r) ti fd event to ?io = Inr (if to = -1 then None else Some (rd_timer r), io1)"
    and same: "io_same ?io io1"
    using arm_timeout_runs [OF io_wf_timers [OF wf], of to "rd_timer r" "rd_now r" ti fd event] ready
    by (auto simp: wait_ready_def)
  have "ctx_ok (alive ?io) ?c" using wf t by (simp add: io_wf_def io_core_def in_table_def)
  from ctx_ok_slot [OF this sl] e have new: "slot_ctx sl ?c = event_context_new" by (simp add: slot_fits_def)
  have t1: "in_table fd io1" and c1: "?c = m_fdContexts io1 ! nat fd" and k1: "im_kernel io1 = im_kernel ?io"
    using t same by (simp_all add: io_same_def in_table_def)
  have "\<exists>io2. add_event ep (Some (im_this io1)) q st fd event None io1 = Inr (0, io2)"
    using add_event_ok [OF t1 c1 sl e new, of ep None st] k st by (simp add: k1)
  then show ?thesis using ready by (auto simp: do_io_wait_def a wait_ready_def)
qed

lemma do_io_resume_runs:
  assumes law: "epoll_law ep" and w: "woken ep held ti to r x w"
  shows "\<exists>w'. do_io_resume (if to = -1 then None else Some (rd_timer r)) ti w = Inr (if x then Some (-1) else None, w') \<and>
     (x \<longrightarrow> hk_errno w' = ETIMEDOUT \<and> hk_tinfo w' ti = None)"
proof -
  have inv: "hook_inv ep held w" and ti: "hk_tinfo w ti = Some (if x then ETIMEDOUT else 0)"
    and p: "to \<noteq> -1 \<Longrightarrow> timer_store (im_timers (hk_io w)) (rd_timer r) \<noteq> None"
    using w by (simp_all add: woken_def)
  have "io_wf ep (hk_io w)" by (rule io_reach_wf [where held = held, OF _ law]) (use inv in \<open>simp add: hook_inv_def\<close>)
  from timer_cancel_runs [OF io_wf_timers [OF this], of "rd_timer r"] p
  obtain io where "cancel_timer (if to = -1 then None else Some (rd_timer r)) (hk_io w) = Inr io"
    by (fastforce simp: cancel_timer_def)
  then show ?thesis by (auto simp: do_io_resume_def ti ETIMEDOUT_def drop_tinfo_def)
qed

lemma hook_inv_errno [simp]: "hook_inv ep held (w\<lparr>hk_errno := e\<rparr>) = hook_inv ep held w"
  by (simp add: hook_inv_def)

section \<open>The whole loop\<close>

lemma do_io_loop_blocking:
  assumes law: "epoll_law ep" and sl: "get_event_context event = Inr sl"
  shows "served ep held ti q st fd event to rounds xs rs w \<Longrightarrow> hook_inv ep held w \<Longrightarrow> length rs \<le> length rounds \<Longrightarrow>
    (case blocking_io rs xs of
       None \<Rightarrow> do_io_loop ep ti q st fd event to rounds rs w = Inr None
     | Some (n, err) \<Rightarrow> \<exists>w'. do_io_loop ep ti q st fd event to rounds rs w = Inr (Some (n, w')) \<and>
         hk_errno w' = err \<and> hk_tinfo w' ti = None)"
proof (induction rounds arbitrary: xs rs w)
  case (Cons r rounds)
  show ?case
  proof (cases "do_io_calls rs")
    case None
    then show ?thesis by (simp add: do_io_calls_blocking [of rs xs] do_io_round_def)
  next
    case (Some ne)
    obtain n err where ne: "ne = (n, err)" by (cases ne)
    note calls = Some [unfolded ne]
    show ?thesis
    proof (cases "n = -1 \<and> err = EAGAIN")
      case False
      then show ?thesis
        by (auto simp: do_io_calls_blocking [of rs xs] calls do_io_round_def Let_def drop_tinfo_def cong del: obind_cong)
    next
      case True
      let ?timer = "if to = -1 then None else Some (rd_timer r)"
      have sv: "served ep held ti q st fd event to (r # rounds) xs rs w" by fact
      have ready: "wait_ready ep ti st fd event to r w" and xs: "xs \<noteq> []"
        using sv True by (simp_all add: calls)
      then obtain x ys where xs: "xs = x # ys" by (cases xs) auto
      obtain w1 where w1: "do_io_wait ep (rd_now r) (rd_timer r) ti q st fd event to (w\<lparr>hk_errno := err\<rparr>) = Inr (Io_Yielded ?timer, w1)"
        using do_io_wait_runs [OF law Cons.prems(2) ready sl] by blast
      obtain w2 where w2: "rd_others r w1 = Inr w2" and woken: "woken ep held ti to r x w2"
        using sv True w1 by (cases "rd_others r w1") (simp_all add: calls xs)
      obtain w3 where w3: "do_io_resume ?timer ti w2 = Inr (if x then Some (-1) else None, w3)"
        and out: "x \<longrightarrow> hk_errno w3 = ETIMEDOUT \<and> hk_tinfo w3 ti = None"
        using do_io_resume_runs [OF law woken] by blast
      have round: "do_io_round ep (rd_now r) (rd_timer r) ti q st fd event to rs w = Inr (Some (Io_Yielded ?timer, w1))"
        using True w1 by (simp add: do_io_round_def calls Let_def cong del: obind_cong)
      have loop: "do_io_loop ep ti q st fd event to (r # rounds) rs w =
          (if x then Inr (Some (-1, w3)) else do_io_loop ep ti q st fd event to rounds (after_calls rs) w3)"
        by (simp add: round w2 w3 cong del: obind_cong)
      have spec: "blocking_io rs xs = (if x then Some (-1, ETIMEDOUT) else blocking_io (after_calls rs) ys)"
        using True by (subst do_io_calls_blocking) (simp add: calls xs)
      show ?thesis
      proof (cases x)
        case True
        with loop out spec show ?thesis by (simp del: do_io_loop.simps)
      next
        case False
        have "served ep held ti q st fd event to rounds ys (after_calls rs) w3"
          using sv True w1 w2 w3 False by (simp add: calls xs)
        moreover have "hook_inv ep held w3"
          using do_io_resume_inv [OF _ w3] woken by (simp add: woken_def)
        moreover have "length (after_calls rs) \<le> length rounds"
          using after_calls_length [of rs] Cons.prems(3) by simp
        ultimately show ?thesis
          unfolding spec loop if_not_P [OF False] by (rule Cons.IH)
      qed
    qed
  qed
qed simp

section \<open>The idle loop\<close>

text \<open>What a turn of \<open>IOManager::idle\<close> meets: two clock readings, an address, and what \<open>epoll_wait\<close> gives.\<close>

record idle_input =
  in_now1 :: millis
  in_now2 :: millis
  in_probe :: nat
  in_waits :: "(int \<times> bool) list"
  in_events :: "(event_data \<times> event_bits) list"

text \<open>The loop, the yields of the idle fiber left out; \<open>Idle_Ends\<close> leaves it, \<open>Idle_Waits\<close> stays in a turn.\<close>

fun idle_loop ::
  "'k epoll \<Rightarrow> idle_input list \<Rightarrow> ('u, 'k) io_manager \<Rightarrow> (idle_result list \<times> ('u, 'k) io_manager) outcome" where
  "idle_loop ep [] io = Inr ([], io)"
| "idle_loop ep (i # is) io =
     obind (io_idle_turn ep (in_now1 i) (in_now2 i) (in_probe i) (in_waits i) (in_events i) io) (\<lambda>(r, io1).
       case r of
         Idle_Yields _ \<Rightarrow> obind (idle_loop ep is io1) (\<lambda>(rs, io2). Inr (r # rs, io2))
       | _ \<Rightarrow> Inr ([r], io1))"

text \<open>What idle turns append to the queue: callbacks only.\<close>

definition only_callbacks :: "('u, 'k) io_manager \<Rightarrow> ('u, 'k) io_manager \<Rightarrow> bool" where
  "only_callbacks io io' \<longleftrightarrow> (\<forall>s. im_schedulers io (im_this io) = Some s \<longrightarrow>
     (\<exists>s' ts. im_schedulers io' (im_this io) = Some s' \<and> m_tasks s' = m_tasks s @ ts \<and> (\<forall>t\<in>set ts. tk_fiber t = None)))"

lemma only_callbacks_refl: "only_callbacks io io"
  by (simp add: only_callbacks_def)

lemma only_callbacks_trans:
  assumes "only_callbacks a b" and "only_callbacks b c" and "io_same a b"
  shows "only_callbacks a c"
  unfolding only_callbacks_def
proof (intro allI impI)
  fix s assume "im_schedulers a (im_this a) = Some s"
  with assms(1) obtain s1 ts where 1: "im_schedulers b (im_this a) = Some s1" "m_tasks s1 = m_tasks s @ ts" "\<forall>t\<in>set ts. tk_fiber t = None"
    by (auto simp: only_callbacks_def)
  with assms(2,3) obtain s2 us where 2: "im_schedulers c (im_this a) = Some s2" "m_tasks s2 = m_tasks s1 @ us" "\<forall>t\<in>set us. tk_fiber t = None"
    unfolding only_callbacks_def by (auto simp: io_same_def)
  show "\<exists>s' vs. im_schedulers c (im_this a) = Some s' \<and> m_tasks s' = m_tasks s @ vs \<and> (\<forall>t\<in>set vs. tk_fiber t = None)"
    by (rule exI [of _ s2], rule exI [of _ "ts @ us"]) (use 1 2 in auto)
qed

lemma idle_turn_callbacks:
  fixes io :: "('u, 'k) io_manager"
  assumes "io_idle_turn ep now1 now2 a ws evs io = Inr (res, io')"
  shows "only_callbacks io io'"
  using assms
proof (cases rule: io_idle_turn_Inr)
  case (1 s)
  then show ?thesis by (simp add: only_callbacks_def)
next
  case (2 s ps cbs tm)
  let ?ts = "map (\<lambda>cb. task_of_cb cb None) (filter (\<lambda>cb. cb \<noteq> None) cbs)"
  have "im_schedulers io' = (im_schedulers io)(im_this io \<mapsto> fold (\<lambda>t s. snd (schedule t s)) (map (\<lambda>cb. task_of_cb cb None) cbs) s)"
    using post_callbacks_Inr [OF 2(6)] 2(1) by simp
  moreover have "m_tasks (fold (\<lambda>t s. snd (schedule t s)) (map (\<lambda>cb. task_of_cb cb None) cbs) s) = m_tasks s @ ?ts"
    by (simp only: sq.pending_fold) (simp add: filter_map comp_def)
  ultimately show ?thesis using 2(1) by (auto simp: only_callbacks_def)
qed

lemma idle_loop_pending:
  assumes "idle_loop ep is io = Inr (rs, io')" and "m_pendingEventCount io \<noteq> 0"
  shows "io_same io io' \<and> only_callbacks io io' \<and> Idle_Ends \<notin> set rs"
  using assms
proof (induction "is" arbitrary: io rs)
  case Nil
  then show ?case by (simp add: only_callbacks_refl)
next
  case (Cons i "is")
  from Cons.prems(1) obtain r io1 where
    t: "io_idle_turn ep (in_now1 i) (in_now2 i) (in_probe i) (in_waits i) (in_events i) io = Inr (r, io1)"
    and rest: "(case r of Idle_Yields _ \<Rightarrow> obind (idle_loop ep is io1) (\<lambda>(rs, io2). Inr (r # rs, io2)) | _ \<Rightarrow> Inr ([r], io1)) = Inr (rs, io')"
    by (auto elim!: obind_InrE)
  have one: "io_same io io1" "only_callbacks io io1" by (rule io_idle_turn_same [OF t], rule idle_turn_callbacks [OF t])
  have ne: "r \<noteq> Idle_Ends" using t by (cases rule: io_idle_turn_Inr) (use Cons.prems(2) in auto)
  show ?case
  proof (cases r)
    case (Idle_Yields ps)
    with rest obtain rs' where l: "idle_loop ep is io1 = Inr (rs', io')" and rs: "rs = r # rs'" by (auto elim!: obind_InrE)
    have "io_same io1 io' \<and> only_callbacks io1 io' \<and> Idle_Ends \<notin> set rs'"
      by (rule Cons.IH [OF l]) (use Cons.prems(2) one(1) in \<open>simp add: io_same_def\<close>)
    then show ?thesis using one ne rs by (auto intro: io_same_trans only_callbacks_trans)
  qed (use rest one ne in auto)
qed

lemma do_io_entry_hooked:
  assumes inv: "hook_inv ep held w" and run: "do_io_entry px ti fd so w = Inr (Io_Hooked to, w1)"
  shows "to = -1" and "hk_io w1 = hk_io w" and "hk_iom w1 = hk_iom w" and "hook_inv ep held w1"
proof -
  have wf: "fd_wf (hk_fds w)" using inv by (simp add: hook_inv_def)
  have fd: "0 \<le> fd \<and> fd < 64"
  proof (rule ccontr)
    assume "\<not> (0 \<le> fd \<and> fd < 64)"
    then consider "fd < 0" | "64 \<le> fd" by linarith
    then show False
      by cases (use run wf in \<open>auto simp: do_io_entry_def hook_get_def fd_get_past_end fd_get_negative split: if_splits\<close>)
  qed
  note get = hook_get_in_table [OF wf conjunct1 [OF fd] conjunct2 [OF fd]]
  show "to = -1" "hk_io w1 = hk_io w" "hk_iom w1 = hk_iom w"
    using run by (auto simp: do_io_entry_def get fd_ctx_new_fields get_timeout_new split: if_splits)
  show "hook_inv ep held w1" by (rule do_io_entry_inv [OF inv run])
qed

text \<open>A wait without a time-out: what is registered.\<close>

lemma do_io_wait_registers:
  assumes law: "epoll_law ep" and inv: "hook_inv ep held w"
    and run: "do_io_wait ep now p ti q st fd event (-1) w = Inr (Io_Yielded timer, w')"
  shows "timer = None \<and> m_pendingEventCount (hk_io w') \<noteq> 0 \<and>
     (\<exists>sl. get_event_context event = Inr sl \<and> in_table fd (hk_io w') \<and> fc_events (m_fdContexts (hk_io w') ! nat fd) AND event \<noteq> 0 \<and>
       slot_ctx sl (m_fdContexts (hk_io w') ! nat fd) = event_context_of (Some (im_this (hk_io w'))) q None)"
proof -
  let ?io = "hk_io w"
  from run obtain rt io2 where add: "add_event ep (Some (im_this ?io)) q st fd event None ?io = Inr (rt, io2)" and rt: "rt \<noteq> -1"
    and t: "timer = None" and w': "hk_io w' = io2"
    by (cases rule: do_io_wait_Inr) (auto simp: arm_timeout_def)
  have r: "io_reach ep held ?io" using inv by (simp add: hook_inv_def)
  have core: "io_core ?io" using io_reach_wf [OF r law] by (simp add: io_wf_def)
  have core2: "io_core io2" using io_reach_wf [OF add_event_reach [OF r law add] law] by (simp add: io_wf_def)
  from add_event_set [OF core add rt] have e: "in_table fd io2" "fc_events (m_fdContexts io2 ! nat fd) AND event \<noteq> 0" by auto
  then have "m_fdContexts io2 ! nat fd \<in> set (m_fdContexts io2)" by (simp add: in_table_def)
  moreover have "fc_events (m_fdContexts io2 ! nat fd) \<noteq> 0" using e(2) by auto
  ultimately have "m_pendingEventCount io2 \<noteq> 0" using io_core_no_events [OF core2] by blast
  moreover from core add obtain sl where "get_event_context event = Inr sl"
    and "slot_ctx sl (m_fdContexts io2 ! nat fd) = event_context_of (Some (im_this ?io)) q None" and "im_this io2 = im_this ?io"
    by (cases rule: add_event_Inr) (use rt e in \<open>auto simp: event_set_def in_table_def\<close>)
  ultimately show ?thesis using t e w' by auto
qed

section \<open>Properties\<close>

text \<open>C15: \<open>do_io\<close> is a blocking call with a time-out. If each of its waits can begin and is ended by the rest of
  the program, by the event or by the time-out closure, then the function returns what the
  specification says, with its \<open>errno\<close>, its \<open>timer_info\<close> released; and has not returned as long as
  the specification waits. When no wait expires the result is the first one of the
  original function that is neither an interruption nor unavailable.\<close>

theorem do_io_blocks:
  assumes "reach (hook_start ep) (hook_step px ep held) w" and "epoll_law ep" and "io_call_event call = (event, so)"
    and "served ep held ti q st fd event to rounds xs rs w" and "length rs \<le> length rounds" and "length rs \<le> length xs"
  shows "(case blocking_io rs xs of
       None \<Rightarrow> do_io_loop ep ti q st fd event to rounds rs w = Inr None
     | Some (n, err) \<Rightarrow> \<exists>w'. do_io_loop ep ti q st fd event to rounds rs w = Inr (Some (n, w')) \<and>
         hk_errno w' = err \<and> hk_tinfo w' ti = None) \<and>
     (True \<notin> set xs \<longrightarrow> blocking_io rs xs = find is_answer rs)"
proof -
  have "\<exists>sl. get_event_context event = Inr sl" using assms(3) by (cases call) auto
  then obtain sl where "get_event_context event = Inr sl" by blast
  from do_io_loop_blocking [OF assms(2) this assms(4) hook_reach_inv [OF assms(1,2)] assms(5)] blocking_io_patient [OF _ assms(6)]
  show ?thesis by blast
qed

text \<open>C16: a hooked call that has to wait waits for ever. After \<open>do_io\<close> has given up control on a socket there
  is no time-out, whatever was set for the socket, and however many turns the idle loop makes,
  whatever \<open>epoll_wait\<close> reports: the event stays registered for the fiber, the loop appends only
  callbacks of timers to the task queue, never a fiber, and it never ends, so that \<open>stop\<close> waits
  too. Only code that cancels the event or closes the descriptor can help.\<close>

theorem hooked_wait_never_ends:
  assumes "reach (hook_start ep) (hook_step px ep held) w" and "epoll_law ep" and "io_call_event call = (event, so)"
    and "do_io_entry px ti fd so w = Inr (Io_Hooked to, w1)"
    and "do_io_round ep now p ti q st fd event to rs w1 = Inr (Some (Io_Yielded timer, w2))"
    and "idle_loop ep is (hk_io w2) = Inr (res, io')"
  shows "timer = None \<and> Idle_Ends \<notin> set res \<and> only_callbacks (hk_io w2) io' \<and>
     (\<exists>sl. get_event_context event = Inr sl \<and> fc_events (m_fdContexts io' ! nat fd) AND event \<noteq> 0 \<and>
       slot_ctx sl (m_fdContexts io' ! nat fd) = event_context_of (Some (im_this io')) q None)"
proof -
  note entry = do_io_entry_hooked [OF hook_reach_inv [OF assms(1,2)] assms(4)]
  from assms(5) obtain n err where "do_io_calls rs = Some (n, err)"
    and "do_io_wait ep now p ti q st fd event (-1) (w1\<lparr>hk_errno := err\<rparr>) = Inr (Io_Yielded timer, w2)"
    by (auto simp: do_io_round_def Let_def entry(1) split: option.splits if_splits elim!: obind_InrE)
  from do_io_wait_registers [OF assms(2) _ this(2), of held] entry(4)
  have reg: "timer = None" "m_pendingEventCount (hk_io w2) \<noteq> 0"
     "\<exists>sl. get_event_context event = Inr sl \<and> fc_events (m_fdContexts (hk_io w2) ! nat fd) AND event \<noteq> 0 \<and>
       slot_ctx sl (m_fdContexts (hk_io w2) ! nat fd) = event_context_of (Some (im_this (hk_io w2))) q None"
    by auto
  from idle_loop_pending [OF assms(6) reg(2)] reg(1,3) show ?thesis by (auto simp: io_same_def)
qed

section \<open>Samples\<close>

text \<open>Fiber 9 waits for descriptor 7 without a time-out.\<close>

definition sample_blocked :: "(nat hook_fn, int \<Rightarrow> event_bits option) io_manager" where
  "sample_blocked = fresh_io\<lparr>im_kernel := (im_kernel (fresh_io :: (nat hook_fn, int \<Rightarrow> event_bits option) io_manager))(7 \<mapsto> EPOLLET OR READ), m_pendingEventCount := 1,
     m_fdContexts := (m_fdContexts fresh_io)[7 := event_set Read_Slot READ (event_context_of (Some 0) 9 None) (fd_context_new 7)]\<rparr>"

lemma sample_blocked_add: "add_event sample_epoll (Some 0) 9 RUNNING 7 READ None fresh_io = Inr (0, sample_blocked)"
proof -
  let ?io = "fresh_io :: (nat hook_fn, int \<Rightarrow> event_bits option) io_manager"
  have t: "in_table 7 ?io" by (simp add: in_table_def sample_io_len)
  have c: "fd_context_new 7 = m_fdContexts ?io ! nat 7" by (simp add: sample_io_ctx)
  have kern: "im_kernel ?io 7 = None" and pend: "m_pendingEventCount ?io = 0" by (simp_all add: fresh_io_def)
  have r: "ep_ctl sample_epoll (im_kernel ?io) (add_op (fc_events (fd_context_new 7 :: nat hook_fn fd_context))) 7
      (EPOLLET OR fc_events (fd_context_new 7 :: nat hook_fn fd_context) OR READ) = (0, (im_kernel ?io)(7 \<mapsto> EPOLLET OR READ))"
    by (simp add: sample_epoll_def sample_ctl_def add_op_def fd_context_new_def event_defs kern)
  have "get_event_context READ = Inr Read_Slot" by simp
  from add_event_ok [OF t c this, of sample_epoll None RUNNING "Some 0" 9] r show ?thesis
    by (simp add: fd_context_new_def event_defs sample_blocked_def pend)
qed

lemma do_io_entry_socket:
  assumes inv: "hook_inv ep held w" and "hk_enable w" and fd: "0 \<le> fd" "fd < 64" and "px_fstat px (hk_px w) fd = Some True"
  shows "\<exists>w'. do_io_entry px ti fd so w = Inr (Io_Hooked (-1), w') \<and> hk_io w' = hk_io w \<and> hk_iom w' = hk_iom w"
proof -
  have wf: "fd_wf (hk_fds w)" using inv by (simp add: hook_inv_def)
  show ?thesis
    using assms by (simp add: do_io_entry_def hook_get_in_table [OF wf fd] fd_ctx_new_fields get_timeout_new)
qed

lemma sample_blocked_turn:
  "io_idle_turn sample_epoll 1000 1000 0 [(1, False)] [(Fd_Ctx 7, EPOLLIN)] sample_blocked = Inr (Idle_Yields [5], sample_blocked)"
proof -
  have "get_next_timer 1000 (im_timers sample_blocked) = (-1, im_timers sample_blocked)"
    by (simp add: get_next_timer_def sample_blocked_def fresh_io_def timer_manager_new_def)
  then have "io_stopping 1000 sample_blocked = Inr (False, -1, sample_blocked)"
    by (simp add: io_stopping_def own_scheduler_def sample_blocked_def fresh_io_def)
  moreover have "list_expired_cb 1000 0 [] (im_timers sample_blocked) = Inr ([], im_timers sample_blocked)"
    by (simp add: list_expired_cb_def sample_blocked_def fresh_io_def timer_manager_new_def)
  ultimately show ?thesis
    by (simp add: io_idle_turn_def clamp_timeout_def MAX_TIMEOUT_def del: handle_event.simps)
qed

text \<open>A turn in which \<open>epoll_wait\<close> reports that the descriptor can be read.\<close>

definition sample_input :: idle_input where
  "sample_input = \<lparr>in_now1 = 1000, in_now2 = 1000, in_probe = 0, in_waits = [(1, False)], in_events = [(Fd_Ctx 7, EPOLLIN)]\<rparr>"

theorem hooked_wait_never_ends_witness:
  "\<exists>w1 w2. do_io_entry sample_posix 0 7 SO_RECVTIMEO hook_sample = Inr (Io_Hooked (-1), w1) \<and>
     do_io_round sample_epoll 1000 0 0 9 RUNNING 7 READ (-1) [(-1, EAGAIN)] w1 = Inr (Some (Io_Yielded None, w2)) \<and>
     idle_loop sample_epoll [sample_input, sample_input] (hk_io w2) = Inr ([Idle_Yields [5], Idle_Yields [5]], sample_blocked) \<and>
     fc_events (m_fdContexts sample_blocked ! nat 7) AND READ \<noteq> 0"
proof -
  have inv: "hook_inv sample_epoll {} hook_sample" by (rule hook_reach_inv [OF hook_sample_reach sample_epoll_law])
  have en: "hk_enable hook_sample" "px_fstat sample_posix (hk_px hook_sample) 7 = Some True"
    by (simp_all add: hook_sample_def sample_posix_def)
  obtain w1 where e: "do_io_entry sample_posix 0 7 SO_RECVTIMEO hook_sample = Inr (Io_Hooked (-1), w1)"
    and w1: "hk_io w1 = fresh_io" "hk_iom w1"
    using do_io_entry_socket [OF inv en(1) _ _ en(2), of 0 SO_RECVTIMEO] by (auto simp: hook_sample_def)
  have th: "im_this (fresh_io :: (nat hook_fn, int \<Rightarrow> event_bits option) io_manager) = 0" by (simp add: fresh_io_def)
  have r: "do_io_round sample_epoll 1000 0 0 9 RUNNING 7 READ (-1) [(-1, EAGAIN)] w1 =
      Inr (Some (Io_Yielded None, w1\<lparr>hk_errno := EAGAIN, hk_io := sample_blocked\<rparr>))"
    by (simp add: do_io_round_def do_io_wait_def arm_timeout_def w1 th sample_blocked_add Let_def)
       (simp add: EAGAIN_def EINTR_def)
  have l: "idle_loop sample_epoll [sample_input, sample_input] sample_blocked = Inr ([Idle_Yields [5], Idle_Yields [5]], sample_blocked)"
    by (simp add: sample_input_def sample_blocked_turn)
  have c: "io_call_event Read = (READ, SO_RECVTIMEO)" by simp
  from hooked_wait_never_ends [OF hook_sample_reach sample_epoll_law c e r, of "[sample_input, sample_input]"] l e r
  show ?thesis by auto
qed

text \<open>A round whose wait, with a time-out of 100 ms, is ended by the event.\<close>

definition event_comes ::
  "(nat, int \<Rightarrow> event_bits option, int \<Rightarrow> cint) hook_world \<Rightarrow> (nat, int \<Rightarrow> event_bits option, int \<Rightarrow> cint) hook_world outcome" where
  "event_comes w = obind (cancel_event sample_epoll 7 READ (hk_io w)) (\<lambda>(_, io). Inr (w\<lparr>hk_io := io\<rparr>))"

definition sample_round :: "(nat, int \<Rightarrow> event_bits option, int \<Rightarrow> cint) io_round" where
  "sample_round = \<lparr>rd_now = 1000, rd_timer = 0, rd_others = event_comes\<rparr>"

lemma sample_cancel_wait:
  "\<exists>io. cancel_event sample_epoll 7 READ sample_wait = Inr (True, io) \<and> im_timers io = im_timers sample_wait"
proof (rule cancel_event_runs)
  show "io_core sample_wait" using sample_wait_wf by (simp add: io_wf_def)
  have "m_fdContexts sample_wait ! 7 = event_set Read_Slot READ (event_context_of (Some 0) 9 None) (fd_context_new 7)"
    by (simp add: sample_wait_def sample_armed_def sample_io_len)
  then show "fc_events (m_fdContexts sample_wait ! nat 7) AND READ \<noteq> 0"
    by (simp add: fd_context_new_def event_defs)
  show "in_table 7 sample_wait" by (simp add: in_table_def sample_wait_def sample_armed_def sample_io_len)
  show "tickle_ready sample_wait"
    by (simp add: tickle_ready_def sample_wait_def sample_armed_def fresh_io_def hasIdleThreads_def plain_scheduler_def caller_scheduler_def)
  show "fst (ep_ctl sample_epoll (im_kernel sample_wait) (del_op e) 7 ev) = 0" for e ev
    by (rule sample_wait_ctl) (simp add: del_op_def)
qed simp

lemma sample_served: "served sample_epoll {} 0 9 RUNNING 7 READ 100 [sample_round, sample_round] [False, False] [(-1, EAGAIN), (5, 0)] hook_sample"
proof -
  have io: "hk_io hook_sample = fresh_io" "hk_iom hook_sample" by (simp_all add: hook_sample_def)
  have "wait_ready sample_epoll 0 RUNNING 7 READ 100 sample_round hook_sample"
    by (simp add: wait_ready_def io sample_round_def in_table_def sample_io_len sample_io_ctx ms_in_range_def Let_def)
       (simp add: hook_sample_def fresh_io_def timer_manager_new_def tickle_ready_def hasIdleThreads_def plain_scheduler_def caller_scheduler_def
          sample_epoll_def sample_ctl_def add_op_def fd_context_new_def event_defs)
  moreover have "im_this sample_armed = 0" by (simp add: sample_armed_def fresh_io_def)
  then have "do_io_wait sample_epoll 1000 0 0 9 RUNNING 7 READ 100 (hook_sample\<lparr>hk_errno := EAGAIN\<rparr>) =
      Inr (Io_Yielded (Some 0), hook_sample\<lparr>hk_errno := EAGAIN, hk_io := sample_wait\<rparr>)"
    by (simp add: do_io_wait_def io sample_arm sample_wait_add)
  moreover obtain io where c: "cancel_event sample_epoll 7 READ sample_wait = Inr (True, io)" and tm: "im_timers io = im_timers sample_wait"
    using sample_cancel_wait by blast
  let ?w2 = "hook_sample\<lparr>hk_errno := EAGAIN, hk_io := io\<rparr>"
  have "event_comes (hook_sample\<lparr>hk_errno := EAGAIN, hk_io := sample_wait\<rparr>) = Inr ?w2"
    by (simp add: event_comes_def c)
  moreover have "io_reach sample_epoll {} io"
    by (rule reach_step [of _ _ sample_wait]) (use sample_wait_inv io_cancel [OF c] in \<open>simp_all add: hook_inv_def\<close>)
  then have "woken sample_epoll {} 0 100 sample_round False ?w2"
    using sample_wait_inv by (simp add: woken_def hook_inv_def sample_round_def tm) (simp add: hook_sample_def sample_wait_def sample_armed_def)
  ultimately show ?thesis
    by (simp add: sample_round_def EAGAIN_def EINTR_def split: sum.split option.split)
qed

theorem do_io_blocks_witness:
  "\<exists>w'. do_io_loop sample_epoll 0 9 RUNNING 7 READ 100 [sample_round, sample_round] [(-1, EAGAIN), (5, 0)] hook_sample = Inr (Some (5, w')) \<and>
     hk_errno w' = 0 \<and> hk_tinfo w' 0 = None"
proof -
  have c: "io_call_event Read = (READ, SO_RECVTIMEO)" by simp
  have l: "length [(-1 :: int, EAGAIN), (5, 0)] \<le> length [sample_round, sample_round]"
    "length [(-1 :: int, EAGAIN), (5, 0)] \<le> length [False, False]" by simp_all
  have "blocking_io [(-1, EAGAIN), (5, 0)] [False, False] = Some (5, 0)" by (simp add: EAGAIN_def EINTR_def)
  with do_io_blocks [OF hook_sample_reach sample_epoll_law c sample_served l] show ?thesis
    by (simp del: do_io_loop.simps blocking_io.simps)
qed

end
