(* ===== verification/Connect_Loop.thy ===== *)
theory Connect_Loop
  imports Do_Io_Loop
begin

text \<open>
  \<open>connect\<close> from its call to its return. The first part compares it, with whatever the rest
  of the program does while it waits, to a blocking call with a time-out of three seconds. The
  second composes its wait with the loop of \<open>IOManager::idle\<close>, the timers and the
  task queue, the only parts of the program that could end it.
\<close>

section \<open>The whole call\<close>

text \<open>
  \<open>conn\<close> is the result of the original \<open>connect\<close> and its \<open>errno\<close>, \<open>g\<close> what \<open>getsockopt(SO_ERROR)\<close>
  gives at the end (its result, the error it stores, its \<open>errno\<close>), \<open>rd_others r\<close> what happens between
  the \<open>yield\<close> and the moment the fiber continues.
\<close>

definition connect_call ::
  "'p posix \<Rightarrow> 'k epoll \<Rightarrow> ('a, 'k, 'p) io_round \<Rightarrow> nat \<Rightarrow> nat \<Rightarrow> fiber_state \<Rightarrow> int \<Rightarrow> int \<times> int \<Rightarrow> int \<times> int \<times> int
   \<Rightarrow> ('a, 'k, 'p) hook_world \<Rightarrow> (int \<times> ('a, 'k, 'p) hook_world) outcome" where
  "connect_call px ep r ti q st fd conn g w =
     obind (hook_connect px ep (rd_now r) (rd_timer r) ti q st fd conn w) (\<lambda>(c, w1).
       case c of
         Conn_Return n \<Rightarrow> Inr (n, w1)
       | Conn_Check \<Rightarrow> Inr (connect_check ti g w1)
       | Conn_Yielded timer \<Rightarrow> obind (rd_others r w1) (connect_resume timer ti g))"

text \<open>
  The specification: a result that is there is returned; otherwise the connection is waited for,
  and \<open>expired\<close> tells whether in vain.
\<close>

definition blocking_connect :: "int \<times> int \<Rightarrow> bool \<Rightarrow> int \<times> int \<times> int \<Rightarrow> int \<times> int" where
  "blocking_connect conn expired g =
     (if conn \<noteq> (-1, EINPROGRESS) then conn
      else if expired then (-1, ETIMEDOUT)
      else case g of (ret, error, err) \<Rightarrow> if ret = -1 then (-1, err) else if error = 0 then (0, 0) else (-1, error))"

text \<open>A socket of the table, looked up by a thread that has hooks.\<close>

definition hooked_socket :: "'p posix \<Rightarrow> int \<Rightarrow> ('a, 'k, 'p) hook_world \<Rightarrow> bool" where
  "hooked_socket px fd w \<longleftrightarrow> hk_enable w \<and> 0 \<le> fd \<and> fd < 64 \<and> px_fstat px (hk_px w) fd = Some True"

lemma hook_get_hooked:
  assumes "fd_wf (hk_fds w)" and "hooked_socket px fd w"
  obtains p c m k where "hook_get px fd False w = Inr (Some (p, c), w\<lparr>hk_px := k, hk_fds := m\<rparr>)"
    and "\<not> m_isClosed c" and "m_isSocket c" and "\<not> m_userNoBlock c"
  using assms by (auto simp: hooked_socket_def hook_get_in_table fd_ctx_new_fields)

lemma connect_at_once:
  assumes wf: "fd_wf (hk_fds w)" and s: "hooked_socket px fd w" and conn: "conn \<noteq> (-1, EINPROGRESS)"
  shows "\<exists>w1. hook_connect px ep now p ti q st fd conn w = Inr (Conn_Return (fst conn), w1) \<and> hk_errno w1 = snd conn"
proof -
  obtain y c m k where g: "hook_get px fd False w = Inr (Some (y, c), w\<lparr>hk_px := k, hk_fds := m\<rparr>)"
    and c: "\<not> m_isClosed c" "m_isSocket c" "\<not> m_userNoBlock c" by (rule hook_get_hooked [OF wf s])
  have "hk_enable w" using s by (simp add: hooked_socket_def)
  with g c conn show ?thesis
    by (cases conn) (auto simp: hook_connect_def connect_with_timeout_def Let_def)
qed

lemma connect_in_progress:
  assumes wf: "fd_wf (hk_fds w)" and s: "hooked_socket px fd w"
    and wait: "do_io_wait ep now p ti q st fd WRITE s_connect_timeout w1 = Inr (Io_Yielded timer, w2)"
    and w1: "hk_iom w1" "hk_io w1 = hk_io w" "hk_iom w"
  shows "\<exists>w3. hook_connect px ep now p ti q st fd (-1, EINPROGRESS) w = Inr (Conn_Yielded timer, w3) \<and>
     hk_io w3 = hk_io w2 \<and> hk_tinfo w3 ti = Some 0"
proof -
  obtain y c m k where g: "hook_get px fd False w = Inr (Some (y, c), w\<lparr>hk_px := k, hk_fds := m\<rparr>)"
    and c: "\<not> m_isClosed c" "m_isSocket c" "\<not> m_userNoBlock c" by (rule hook_get_hooked [OF wf s])
  have en: "hk_enable w" using s by (simp add: hooked_socket_def)
  from wait obtain io1 rt io2 where a: "arm_timeout now p ti fd WRITE s_connect_timeout (hk_io w) = Inr (timer, io1)"
    and add: "add_event ep (Some (im_this io1)) q st fd WRITE None io1 = Inr (rt, io2)" and rt: "rt \<noteq> -1" and io: "hk_io w2 = io2"
    by (cases rule: do_io_wait_Inr) (auto simp: w1)
  from add rt have "rt = 0"
    by (auto simp: add_event_def Let_def ctl_def split_beta outcome_simps split: if_splits option.splits)
  with g c en a add w1 show ?thesis
    by (simp add: hook_connect_def connect_with_timeout_def Let_def io)
qed

lemma connect_resume_runs:
  assumes law: "epoll_law ep" and w: "woken ep held ti s_connect_timeout r x w"
  shows "\<exists>w'. connect_resume (Some (rd_timer r)) ti g w = Inr (fst (blocking_connect (-1, EINPROGRESS) x g), w') \<and>
     (fst (blocking_connect (-1, EINPROGRESS) x g) = -1 \<longrightarrow> hk_errno w' = snd (blocking_connect (-1, EINPROGRESS) x g)) \<and>
     hk_tinfo w' ti = None"
proof -
  have "s_connect_timeout \<noteq> -1" by (simp add: s_connect_timeout_def)
  with do_io_resume_runs [OF law w] obtain w1 where
    r: "do_io_resume (Some (rd_timer r)) ti w = Inr (if x then Some (-1) else None, w1)"
    and x: "x \<longrightarrow> hk_errno w1 = ETIMEDOUT \<and> hk_tinfo w1 ti = None" by auto
  show ?thesis
  proof (cases x)
    case True
    with r x show ?thesis by (auto simp: connect_resume_def blocking_connect_def)
  next
    case False
    obtain ret error err where "g = (ret, error, err)" by (cases g) auto
    with r False show ?thesis
      by (auto simp: connect_resume_def blocking_connect_def connect_check_def drop_tinfo_def Let_def)
  qed
qed

section \<open>The wait and the idle loop\<close>

text \<open>What the expiry of timer \<open>p\<close> leads to.\<close>

definition callback_queued :: "'u sched_fn \<Rightarrow> ('u, 'k) io_manager \<Rightarrow> bool" where
  "callback_queued cb io \<longleftrightarrow> (\<exists>s. im_schedulers io (im_this io) = Some s \<and> task_of_cb (Some cb) None \<in> set (m_tasks s))"

lemma callback_stays: "callback_queued cb a \<Longrightarrow> only_callbacks a b \<Longrightarrow> io_same a b \<Longrightarrow> callback_queued cb b"
  by (auto simp: callback_queued_def only_callbacks_def io_same_def)

definition armed_at :: "nat \<Rightarrow> millis \<Rightarrow> 'u sched_fn \<Rightarrow> ('u, 'k) io_manager \<Rightarrow> bool" where
  "armed_at p d cb io \<longleftrightarrow> (\<exists>t. timer_store (im_timers io) p = Some t \<and> m_next t = d \<and> m_cb t = Some cb \<and> \<not> m_recurring t)"

lemma expired_armed:
  assumes "tm_wf m" and "timer_store m p = Some t" and "m_cb t \<noteq> None" and "\<not> rolled_back now m"
  shows "p \<in> set (expired_timers now m) \<longleftrightarrow> m_next t \<le> now"
  using assms by (auto simp: expired_timers_def tm_wf_def)

lemma list_expired_previous:
  assumes wf: "tm_wf m" and a: "a \<notin> dom (timer_store m)" and ne: "m_timers m \<noteq> []"
    and run: "list_expired_cb now a cbs m = Inr (cbs', m')"
  shows "m_previouseTime m' = now"
proof -
  let ?e = "expired_timers now m"
  let ?m = "m\<lparr>m_previouseTime := now, m_timers := filter (\<lambda>p. p \<notin> set ?e) (m_timers m)\<rparr>"
  have d: "set ?e \<subseteq> dom (timer_store ?m)" "distinct ?e" "set ?e \<inter> set (m_timers ?m) = {}"
    using wf expired_subset [of now m] tm_wf_distinct [OF wf] by (auto simp: tm_wf_def expired_timers_def)
  have s: "sorted_wrt (timer_cmp (timer_store ?m)) (m_timers ?m)"
    using sorted_wrt_filter [OF tm_wf_sorted [OF wf]] by simp
  from run have "fire_expired now ?e cbs ?m = Inr (cbs', m')" by (simp add: list_expired_eq [OF wf a ne])
  from fire_expired_spec [OF this s d] show ?thesis by simp
qed

text \<open>A turn keeps an armed timer until its deadline and queues its callback then.\<close>

lemma idle_turn_timer:
  fixes io :: "('u, 'k) io_manager"
  assumes wf: "tm_wf (im_timers io)" and a: "a \<notin> dom (timer_store (im_timers io))"
    and arm: "armed_at p d cb io" and prev: "m_previouseTime (im_timers io) \<le> now2"
    and run: "io_idle_turn ep now1 now2 a ws evs io = Inr (Idle_Yields ps, io')"
  shows "if d \<le> now2 then callback_queued cb io' else armed_at p d cb io' \<and> m_previouseTime (im_timers io') = now2"
    and "dom (timer_store (im_timers io')) = dom (timer_store (im_timers io))" and "tm_wf (im_timers io')"
  using run
proof (atomize (full), cases rule: io_idle_turn_Inr)
  case (2 s ps' cbs tm)
  obtain t where t: "timer_store (im_timers io) p = Some t" "m_next t = d" "m_cb t = Some cb" "\<not> m_recurring t"
    using arm by (auto simp: armed_at_def)
  let ?m = "snd (get_next_timer now1 (im_timers io))"
  have m: "tm_wf ?m" "a \<notin> dom (timer_store ?m)" using wf a by (simp_all add: get_next_timer_wf)
  have ne: "m_timers ?m \<noteq> []" using wf t by (auto simp: tm_wf_def)
  note ex = list_expired_Inr [OF m 2(5)]
  have roll: "\<not> rolled_back now2 (im_timers io)" using prev by (simp add: rolled_back_def)
  have mem: "p \<in> set (expired_timers now2 (im_timers io)) \<longleftrightarrow> d \<le> now2"
    using expired_armed [OF wf t(1) _ roll] t by simp
  have same: "io_same (io\<lparr>im_timers := tm\<rparr>) io'" "im_timers io' = tm"
    and sch: "im_schedulers io' = (im_schedulers io)(im_this io \<mapsto> fold (\<lambda>t s. snd (schedule t s)) (map (\<lambda>cb. task_of_cb cb None) cbs) s)"
    using post_callbacks_Inr [OF 2(6)] 2(1) by simp_all
  have q: "m_tasks (fold (\<lambda>t s. snd (schedule t s)) (map (\<lambda>cb. task_of_cb cb None) cbs) s) =
      m_tasks s @ map (\<lambda>cb. task_of_cb cb None) (filter (\<lambda>cb. cb \<noteq> None) cbs)"
    by (simp only: sq.pending_fold) (simp add: filter_map comp_def)
  have "callback_queued cb io'" if "d \<le> now2"
  proof -
    have "Some cb \<in> set cbs" using ex(1) mem that t by (force simp: callback_of_def)
    with sch q same(1) show ?thesis by (auto simp: callback_queued_def io_same_def)
  qed
  moreover have "armed_at p d cb io' \<and> m_previouseTime (im_timers io') = now2" if "\<not> d \<le> now2"
    using ex(2) mem that t list_expired_previous [OF m ne 2(5)] by (simp add: armed_at_def fire_store_def same(2))
  moreover have "dom (timer_store tm) = dom (timer_store (im_timers io))"
    using ex(2) by (auto simp: fire_store_def split: if_splits)
  ultimately show "(if d \<le> now2 then callback_queued cb io' else armed_at p d cb io' \<and> m_previouseTime (im_timers io') = now2) \<and>
     dom (timer_store (im_timers io')) = dom (timer_store (im_timers io)) \<and> tm_wf (im_timers io')"
    using ex(4) same(2) by simp
qed auto

lemma idle_loop_timer:
  assumes "idle_loop ep is io = Inr (res, io')" and "m_pendingEventCount io \<noteq> 0" and "Idle_Waits \<notin> set res"
    and "tm_wf (im_timers io)" and "\<forall>i\<in>set is. in_probe i \<notin> dom (timer_store (im_timers io))"
    and "armed_at p d cb io" and "sorted (m_previouseTime (im_timers io) # map in_now2 is)"
  shows "if \<exists>i\<in>set is. d \<le> in_now2 i then callback_queued cb io' else armed_at p d cb io'"
  using assms
proof (induction "is" arbitrary: io res)
  case (Cons i "is")
  from Cons.prems(1) obtain r io1 where
    t: "io_idle_turn ep (in_now1 i) (in_now2 i) (in_probe i) (in_waits i) (in_events i) io = Inr (r, io1)"
    and rest: "(case r of Idle_Yields _ \<Rightarrow> obind (idle_loop ep is io1) (\<lambda>(rs, io2). Inr (r # rs, io2)) | _ \<Rightarrow> Inr ([r], io1)) = Inr (res, io')"
    by (auto elim!: obind_InrE)
  have ne: "r \<noteq> Idle_Ends" using t by (cases rule: io_idle_turn_Inr) (use Cons.prems(2) in auto)
  then obtain ps rs where r: "r = Idle_Yields ps" and l: "idle_loop ep is io1 = Inr (rs, io')" and rs: "res = r # rs"
    using rest Cons.prems(3) by (cases r) (auto elim!: obind_InrE)
  have one: "io_same io io1" by (rule io_idle_turn_same [OF t])
  have pend: "m_pendingEventCount io1 \<noteq> 0" using one Cons.prems(2) by (simp add: io_same_def)
  have fresh: "in_probe i \<notin> dom (timer_store (im_timers io))" using Cons.prems(5) by simp
  have prev: "m_previouseTime (im_timers io) \<le> in_now2 i" using Cons.prems(7) by simp
  note turn = idle_turn_timer [OF Cons.prems(4) fresh Cons.prems(6) prev t [unfolded r]]
  show ?case
  proof (cases "d \<le> in_now2 i")
    case True
    with turn(1) idle_loop_pending [OF l pend] have "callback_queued cb io'" by (auto intro: callback_stays)
    with True show ?thesis by auto
  next
    case False
    have "sorted (m_previouseTime (im_timers io1) # map in_now2 is)" using Cons.prems(7) turn(1) False by simp
    moreover have "\<forall>j\<in>set is. in_probe j \<notin> dom (timer_store (im_timers io1))" using Cons.prems(5) turn(2) by simp
    moreover have "armed_at p d cb io1" "Idle_Waits \<notin> set rs" using turn(1) False Cons.prems(3) rs by auto
    ultimately have "if \<exists>i\<in>set is. d \<le> in_now2 i then callback_queued cb io' else armed_at p d cb io'"
      by (intro Cons.IH [OF l pend _ turn(3)]) simp_all
    with False show ?thesis by auto
  qed
qed simp

lemma idle_loop_reach:
  assumes "idle_loop ep is io = Inr (res, io')" and "io_reach ep held io" and "epoll_law ep"
    and "\<forall>i\<in>set is. in_probe i \<notin> dom (timer_store (im_timers io))"
  shows "io_reach ep held io' \<and> dom (timer_store (im_timers io')) = dom (timer_store (im_timers io))"
  using assms
proof (induction "is" arbitrary: io res)
  case (Cons i "is")
  from Cons.prems(1) obtain r io1 where
    t: "io_idle_turn ep (in_now1 i) (in_now2 i) (in_probe i) (in_waits i) (in_events i) io = Inr (r, io1)"
    and rest: "(case r of Idle_Yields _ \<Rightarrow> obind (idle_loop ep is io1) (\<lambda>(rs, io2). Inr (r # rs, io2)) | _ \<Rightarrow> Inr ([r], io1)) = Inr (res, io')"
    by (auto elim!: obind_InrE)
  have fresh: "in_probe i \<notin> dom (timer_store (im_timers io))" using Cons.prems(4) by simp
  have reach: "io_reach ep held io1" by (rule reach_step [OF Cons.prems(2) io_turn [OF fresh t]])
  have wf: "tm_wf (im_timers io)" by (rule io_wf_timers [OF io_reach_wf [OF Cons.prems(2,3)]])
  have dom: "dom (timer_store (im_timers io1)) = dom (timer_store (im_timers io))"
    using t
  proof (cases rule: io_idle_turn_Inr)
    case (2 s ps cbs tm)
    let ?m = "snd (get_next_timer (in_now1 i) (im_timers io))"
    have m: "tm_wf ?m" "in_probe i \<notin> dom (timer_store ?m)" using wf fresh by (simp_all add: get_next_timer_wf)
    have "im_timers io1 = tm" using post_callbacks_Inr [OF 2(6)] 2(1) by simp
    with list_expired_Inr(2) [OF m 2(5)] show ?thesis by (auto simp: fire_store_def split: if_splits)
  qed simp
  show ?case
  proof (cases r)
    case (Idle_Yields ps)
    with rest obtain rs where l: "idle_loop ep is io1 = Inr (rs, io')" by (auto elim!: obind_InrE)
    from Cons.IH [OF l reach Cons.prems(3)] Cons.prems(4) dom show ?thesis by simp
  qed (use rest reach dom in auto)
qed simp

abbreviation connect_closure :: "nat \<Rightarrow> int \<Rightarrow> 'a hook_fn sched_fn" where
  "connect_closure ti fd \<equiv> User_Fn (Wait_Timeout ti fd WRITE)"

lemma connect_registers:
  assumes law: "epoll_law ep" and inv: "hook_inv ep held w" and p: "fresh_timer p (hk_io w)"
    and run: "hook_connect px ep now p ti q st fd conn w = Inr (Conn_Yielded timer, w1)"
  shows "timer = Some p" and "armed_at p (now + 3000) (connect_closure ti fd) (hk_io w1)" and "hk_tinfo w1 ti = Some 0"
    and "in_table fd (hk_io w1)" and "im_this (hk_io w1) = im_this (hk_io w)" and "im_schedulers (hk_io w1) = im_schedulers (hk_io w)"
    and "m_pendingEventCount (hk_io w1) = m_pendingEventCount (hk_io w) + 1"
    and "fc_events (m_fdContexts (hk_io w) ! nat fd) AND WRITE = 0"
    and "m_fdContexts (hk_io w1) = (m_fdContexts (hk_io w))[nat fd :=
      event_set Write_Slot WRITE (event_context_of (Some (im_this (hk_io w))) q None) (m_fdContexts (hk_io w) ! nat fd)]"
proof (atomize (full), goal_cases)
  case 1
  let ?io = "hk_io w"
  have r: "io_reach ep held ?io" using inv by (simp add: hook_inv_def)
  note wf = io_wf_timers [OF io_reach_wf [OF r law]]
  from run obtain y c w0 io1 io2 where g: "hook_get px fd False w = Inr (Some (y, c), w0)"
    and a: "arm_timeout now p ti fd WRITE s_connect_timeout (hk_io w0) = Inr (timer, io1)"
    and add: "add_event ep (Some (im_this io1)) q st fd WRITE None io1 = Inr (0, io2)"
    and w1: "w1 = w0\<lparr>hk_errno := EINPROGRESS, hk_tinfo := (hk_tinfo w0)(ti \<mapsto> 0), hk_io := io2\<rparr>"
    unfolding hook_connect_def by (cases rule: connect_Inr) auto
  have w0: "hk_io w0 = ?io" by (rule hook_get_Inr(1) [OF g])
  from a have t: "timer = Some p" and ti: "timed now p 3000 (connect_closure ti fd) ?io = Inr io1"
    unfolding w0 by (auto elim!: arm_timeout_cases simp: s_connect_timeout_def)
  note arm = timed_same [OF wf p ti]
  have core: "io_core io1" using io_reach_wf [OF timed_reach [OF r p ti] law] by (simp add: io_wf_def)
  have armed: "armed_at p (now + 3000) (connect_closure ti fd) io1" using arm(4) by (simp add: armed_at_def)
  from core add show ?case
  proof (cases rule: add_event_Inr)
    case (2 sl)
    have "sl = Write_Slot" using 2(3) get_event_context_simps(2) by simp
    with 2 t w1 armed arm(1,5) show ?thesis by (auto simp: armed_at_def io_same_def in_table_def)
  qed simp
qed

text \<open>The closure, run in any later state with the same tables, and what the fiber then sees.\<close>

lemma connect_expires:
  assumes law: "epoll_law ep" and inv: "hook_inv ep held w" and p: "fresh_timer p (hk_io w)"
    and run: "hook_connect px ep now p ti q st fd conn w = Inr (Conn_Yielded timer, w1)"
    and same: "io_same (hk_io w1) io" and reach: "io_reach ep held io" and store: "p \<in> dom (timer_store (im_timers io))"
    and ctl: "\<And>op ev. op \<noteq> EPOLL_CTL_ADD \<Longrightarrow> fst (ep_ctl ep (im_kernel (hk_io w1)) op fd ev) = 0" and ready: "tickle_ready io"
  shows "\<exists>w2 w3. wait_timeout ep ti fd WRITE (w1\<lparr>hk_io := io\<rparr>) = Inr w2 \<and> connect_resume timer ti g w2 = Inr (-1, w3) \<and>
     hk_errno w3 = ETIMEDOUT \<and> hk_tinfo w3 ti = None \<and>
     m_fdContexts (hk_io w3) = m_fdContexts (hk_io w) \<and> m_pendingEventCount (hk_io w3) = m_pendingEventCount (hk_io w) \<and>
     im_schedulers (hk_io w2) = (im_schedulers io)(im_this io :=
       map_option (\<lambda>s. snd (schedule (task_of_fiber (Some q) None) s)) (im_schedulers io (im_this io)))"
proof -
  note reg = connect_registers [OF law inv p run]
  let ?c = "m_fdContexts (hk_io w) ! nat fd" and ?x = "event_context_of (Some (im_this (hk_io w))) q None"
  have wf: "io_wf ep io" by (rule io_reach_wf [OF reach law])
  then have core: "io_core io" by (simp add: io_wf_def)
  have t: "in_table fd io" and k: "im_kernel io = im_kernel (hk_io w1)" and th: "im_this io = im_this (hk_io w)"
    and cs: "m_fdContexts io = (m_fdContexts (hk_io w))[nat fd := event_set Write_Slot WRITE ?x ?c]"
    and n: "m_pendingEventCount io = m_pendingEventCount (hk_io w) + 1"
    using same reg by (simp_all add: io_same_def in_table_def)
  have fd: "nat fd < length (m_fdContexts (hk_io w))" using t cs by (simp add: in_table_def)
  then have c: "m_fdContexts io ! nat fd = event_set Write_Slot WRITE ?x ?c" by (simp add: cs)
  have b: "fc_events (m_fdContexts io ! nat fd) AND WRITE \<noteq> 0" by (simp add: c or_and_self) (simp add: event_defs)
  have "fst (ep_ctl ep (im_kernel io) (del_op e) fd ev) = 0" for e ev
    unfolding k by (rule ctl) (simp add: del_op_def)
  from cancel_event_runs [OF core t b get_event_context_simps(2) ready this]
  obtain io3 where cancel: "cancel_event ep fd WRITE io = Inr (True, io3)" and tm: "im_timers io3 = im_timers io" by blast
  let ?w2 = "w1\<lparr>hk_tinfo := (hk_tinfo w1)(ti \<mapsto> ETIMEDOUT), hk_io := io3\<rparr>"
  have w2: "wait_timeout ep ti fd WRITE (w1\<lparr>hk_io := io\<rparr>) = Inr ?w2"
    by (simp add: wait_timeout_def reg(3) cancel)
  have "timer_store (im_timers io3) p \<noteq> None" using store by (auto simp: tm)
  with timer_cancel_runs [of "im_timers io3" p] io_wf_timers [OF wf] tm
  obtain bo m where "timer_cancel p (im_timers io3) = Inr (bo, m)" by auto
  then have w3: "connect_resume timer ti g ?w2 =
      Inr (-1, drop_tinfo ti (?w2\<lparr>hk_io := io3\<lparr>im_timers := m\<rparr>, hk_errno := ETIMEDOUT\<rparr>))"
    by (simp add: connect_resume_def do_io_resume_def reg(1) cancel_timer_def ETIMEDOUT_def Let_def)
  have okc: "ctx_ok (alive (hk_io w)) ?c"
    using io_core_ctx(1) [of "hk_io w" fd] io_reach_wf [of ep held "hk_io w"] law inv t cs
    by (simp add: hook_inv_def io_wf_def in_table_def)
  from core cancel have "m_fdContexts io3 = m_fdContexts (hk_io w) \<and> m_pendingEventCount io3 = m_pendingEventCount (hk_io w) \<and>
     im_schedulers io3 = (im_schedulers io)(im_this io :=
       map_option (\<lambda>s. snd (schedule (task_of_fiber (Some q) None) s)) (im_schedulers io (im_this io)))"
  proof (cases rule: cancel_event_True)
    case (1 sl pp)
    have sl: "sl = Write_Slot" using 1(2) get_event_context_simps(2) by simp
    have x: "slot_ctx Write_Slot (event_set Write_Slot WRITE ?x ?c) = ?x" by (simp add: event_set_def)
    have task: "event_task ?x = task_of_fiber (Some q) None"
      by (simp add: event_task_def event_context_of_def)
    have pp: "pp = im_this io" using 1(5) unfolding c sl x by (simp add: event_context_of_def th)
    show ?thesis
      using 1(3,4,7) unfolding c n sl x pp event_set_cleared [OF okc get_event_context_simps(2) reg(8)] by (simp add: cs event_task_def event_context_of_def)
  qed
  with w2 w3 show ?thesis by (simp add: drop_tinfo_def)
qed

section \<open>Properties\<close>

text \<open>C17: \<open>connect\<close> is a blocking call with a time-out. On a socket of the table, by a thread that has hooks, a result
  that is there at once is returned with its \<open>errno\<close>. If the connection is in progress, the wait
  can begin and the rest of the program ends it, then \<open>connect\<close> returns what \<open>SO_ERROR\<close> says, or
  fails with \<open>ETIMEDOUT\<close> if the time-out closure has run, and its \<open>timer_info\<close> is released.\<close>

theorem connect_blocks:
  fixes w :: "('a, 'k, 'p) hook_world"
  assumes "reach (hook_start ep) (hook_step px ep held) w" and "epoll_law ep" and "hooked_socket px fd w"
    and "conn = (-1, EINPROGRESS) \<Longrightarrow> wait_ready ep ti st fd WRITE s_connect_timeout r (w\<lparr>hk_tinfo := (hk_tinfo w)(ti \<mapsto> 0)\<rparr>)"
    and "\<And>timer w1. hook_connect px ep (rd_now r) (rd_timer r) ti q st fd (-1, EINPROGRESS) w = Inr (Conn_Yielded timer, w1) \<Longrightarrow>
      \<exists>w2. rd_others r w1 = Inr w2 \<and> woken ep held ti s_connect_timeout r expired w2"
  shows "\<exists>n err w'. blocking_connect conn expired g = (n, err) \<and>
     connect_call px ep r ti q st fd conn g w = Inr (n, w') \<and> (n = -1 \<longrightarrow> hk_errno w' = err) \<and>
     (conn = (-1, EINPROGRESS) \<longrightarrow> hk_tinfo w' ti = None)"
proof (cases "conn = (-1, EINPROGRESS)")
  case False
  have "fd_wf (hk_fds w)" using hook_reach_inv [OF assms(1,2)] by (simp add: hook_inv_def)
  from connect_at_once [OF this assms(3) False] obtain w1 where
    "hook_connect px ep (rd_now r) (rd_timer r) ti q st fd conn w = Inr (Conn_Return (fst conn), w1)" "hk_errno w1 = snd conn" by blast
  with False show ?thesis
    by (intro exI [of _ "fst conn"] exI [of _ "snd conn"] exI [of _ w1]) (simp add: connect_call_def blocking_connect_def)
next
  case True
  let ?w = "w\<lparr>hk_tinfo := (hk_tinfo w)(ti \<mapsto> 0)\<rparr>"
  have inv: "hook_inv ep held w" by (rule hook_reach_inv [OF assms(1,2)])
  have ready: "wait_ready ep ti st fd WRITE s_connect_timeout r ?w" by (rule assms(4) [OF True])
  have inv': "hook_inv ep held ?w" using inv by (simp add: hook_inv_def)
  have to: "s_connect_timeout \<noteq> -1" by (simp add: s_connect_timeout_def)
  from do_io_wait_runs [OF assms(2) inv' ready get_event_context_simps(2)] to obtain w0 where
    "do_io_wait ep (rd_now r) (rd_timer r) ti q st fd WRITE s_connect_timeout (?w\<lparr>hk_errno := 0\<rparr>) = Inr (Io_Yielded (Some (rd_timer r)), w0)"
    by fastforce
  from connect_in_progress [OF _ assms(3) this] inv ready obtain w1 where
    c: "hook_connect px ep (rd_now r) (rd_timer r) ti q st fd (-1, EINPROGRESS) w = Inr (Conn_Yielded (Some (rd_timer r)), w1)"
    by (auto simp: hook_inv_def wait_ready_def)
  from assms(5) [OF c] obtain w2 where w2: "rd_others r w1 = Inr w2" and woken: "woken ep held ti s_connect_timeout r expired w2" by blast
  obtain n err where b: "blocking_connect (-1, EINPROGRESS) expired g = (n, err)" by fastforce
  have call: "connect_call px ep r ti q st fd (-1, EINPROGRESS) g w = connect_resume (Some (rd_timer r)) ti g w2"
    by (simp add: connect_call_def c w2)
  from connect_resume_runs [OF assms(2) woken, of g] show ?thesis
    unfolding True call b by auto
qed

text \<open>C18: a hooked \<open>connect\<close> that has to wait never succeeds. Let the manager's idle loop run, with the clock not going
  back and every \<open>epoll_wait\<close> returning, whatever it reports about the socket. Until three seconds have passed the
  fiber stays registered, the loop adds no fiber to the queue and the timer stays armed; the first turn
  after that, and no earlier one, queues the closure. The closure puts the fiber back on the queue, and then
  \<open>connect\<close> fails with \<open>ETIMEDOUT\<close>, whatever \<open>SO_ERROR\<close> would say, with the event tables as before.\<close>

theorem hooked_connect_times_out:
  fixes w :: "('a, 'k, 'p) hook_world"
  assumes "reach (hook_start ep) (hook_step px ep held) w" and "epoll_law ep" and "fresh_timer p (hk_io w)"
    and "hook_connect px ep now p ti q st fd conn w = Inr (Conn_Yielded timer, w1)"
    and "idle_loop ep is (hk_io w1) = Inr (res, io)" and "Idle_Waits \<notin> set res"
    and "\<forall>i\<in>set is. in_probe i \<notin> dom (timer_store (im_timers (hk_io w1)))"
    and "sorted (m_previouseTime (im_timers (hk_io w1)) # map in_now2 is)"
    and "\<And>op ev. op \<noteq> EPOLL_CTL_ADD \<Longrightarrow> fst (ep_ctl ep (im_kernel (hk_io w1)) op fd ev) = 0" and "tickle_ready io"
  shows "io_same (hk_io w1) io \<and> only_callbacks (hk_io w1) io \<and> Idle_Ends \<notin> set res \<and>
     (if \<exists>i\<in>set is. now + 3000 \<le> in_now2 i then callback_queued (connect_closure ti fd) io
      else armed_at p (now + 3000) (connect_closure ti fd) io) \<and>
     (\<exists>w2 w3. wait_timeout ep ti fd WRITE (w1\<lparr>hk_io := io\<rparr>) = Inr w2 \<and> connect_resume timer ti g w2 = Inr (-1, w3) \<and>
        hk_errno w3 = ETIMEDOUT \<and> hk_tinfo w3 ti = None \<and>
        m_fdContexts (hk_io w3) = m_fdContexts (hk_io w) \<and> m_pendingEventCount (hk_io w3) = m_pendingEventCount (hk_io w) \<and>
        im_schedulers (hk_io w2) = (im_schedulers io)(im_this io :=
          map_option (\<lambda>s. snd (schedule (task_of_fiber (Some q) None) s)) (im_schedulers io (im_this io))))"
proof -
  have inv: "hook_inv ep held w" by (rule hook_reach_inv [OF assms(1,2)])
  note reg = connect_registers [OF assms(2) inv assms(3,4)]
  have r1: "io_reach ep held (hk_io w1)"
    using connect_inv [OF assms(2) inv assms(3) assms(4) [unfolded hook_connect_def]] by (simp add: hook_inv_def)
  have core: "io_core (hk_io w1)" using io_reach_wf [OF r1 assms(2)] by (simp add: io_wf_def)
  have fd: "nat fd < length (m_fdContexts (hk_io w1))" using reg(4) by (simp add: in_table_def)
  then have "fc_events (m_fdContexts (hk_io w1) ! nat fd) AND WRITE = WRITE" unfolding reg(9) by (simp add: or_and_self)
  moreover have "WRITE \<noteq> 0" by (simp add: event_defs)
  ultimately have "fc_events (m_fdContexts (hk_io w1) ! nat fd) \<noteq> 0" by auto
  with io_core_no_events [OF core] nth_mem [OF fd] have pend: "m_pendingEventCount (hk_io w1) \<noteq> 0" by blast
  note loop = idle_loop_pending [OF assms(5) pend] and reach = idle_loop_reach [OF assms(5) r1 assms(2,7)]
  have "p \<in> dom (timer_store (im_timers io))" using reach reg(2) by (auto simp: armed_at_def)
  from connect_expires [OF assms(2) inv assms(3,4) _ _ this assms(9,10)] loop reach
    idle_loop_timer [OF assms(5) pend assms(6) io_wf_timers [OF io_reach_wf [OF r1 assms(2)]] assms(7) reg(2) assms(8)]
  show ?thesis by blast
qed

section \<open>Samples\<close>

text \<open>Fiber 9 connects socket 7 at time 1000.\<close>

definition conn_armed :: "(nat hook_fn, int \<Rightarrow> event_bits option) io_manager" where
  "conn_armed = fresh_io\<lparr>im_timers := (timer_manager_new 1000)\<lparr>
     timer_store := [0 \<mapsto> \<lparr>m_recurring = False, m_ms = 3000, m_next = 4000, m_cb = Some (connect_closure 0 7)\<rparr>],
     m_timers := [0], m_tickled := True\<rparr>\<rparr>"

definition conn_wait :: "(nat hook_fn, int \<Rightarrow> event_bits option) io_manager" where
  "conn_wait = conn_armed\<lparr>im_kernel := (im_kernel conn_armed)(7 \<mapsto> EPOLLET OR WRITE), m_pendingEventCount := 1,
     m_fdContexts := (m_fdContexts conn_armed)[7 := event_set Write_Slot WRITE (event_context_of (Some 0) 9 None) (fd_context_new 7)]\<rparr>"

lemma conn_arm: "arm_timeout 1000 0 0 7 WRITE s_connect_timeout fresh_io = Inr (Some 0, conn_armed)"
  by (simp add: arm_timeout_def add_timer_def timer_new_def ms_add_def add_timer_locked_def timer_manager_new_def
      set_insert_def set_lower_bound_def ms_in_range_def on_timer_inserted_at_front_def io_tickle_def own_scheduler_def hasIdleThreads_def Let_def
      fresh_io_def conn_armed_def plain_scheduler_def caller_scheduler_def s_connect_timeout_def
      del: upt_conv_Cons upt_Suc upt_rec_numeral cong del: obind_cong)

lemma conn_wait_add: "add_event sample_epoll (Some 0) 9 RUNNING 7 WRITE None conn_armed = Inr (0, conn_wait)"
proof -
  have ctxs: "m_fdContexts conn_armed = m_fdContexts fresh_io" and kern: "im_kernel conn_armed 7 = None"
    and pend: "m_pendingEventCount conn_armed = 0"
    by (simp_all add: conn_armed_def fresh_io_def)
  have t: "in_table 7 conn_armed" by (simp add: in_table_def ctxs sample_io_len)
  have c: "fd_context_new 7 = m_fdContexts conn_armed ! nat 7" by (simp add: ctxs sample_io_ctx)
  have r: "ep_ctl sample_epoll (im_kernel conn_armed) (add_op (fc_events (fd_context_new 7 :: nat hook_fn fd_context))) 7
      (EPOLLET OR fc_events (fd_context_new 7 :: nat hook_fn fd_context) OR WRITE) = (0, (im_kernel conn_armed)(7 \<mapsto> EPOLLET OR WRITE))"
    by (simp add: sample_epoll_def sample_ctl_def add_op_def fd_context_new_def event_defs kern)
  from add_event_ok [OF t c get_event_context_simps(2), of sample_epoll None RUNNING "Some 0" 9] r show ?thesis
    by (simp add: fd_context_new_def event_defs conn_wait_def pend)
qed

lemma conn_socket: "hooked_socket sample_posix 7 hook_sample"
  by (simp add: hooked_socket_def hook_sample_def sample_posix_def)

lemma conn_yields:
  "\<exists>w1. hook_connect sample_posix sample_epoll 1000 0 0 9 RUNNING 7 (-1, EINPROGRESS) hook_sample =
     Inr (Conn_Yielded (Some 0), w1) \<and> hk_io w1 = conn_wait"
proof -
  have wf: "fd_wf (hk_fds hook_sample)"
    using hook_reach_inv [OF hook_sample_reach sample_epoll_law] by (simp add: hook_inv_def)
  have io: "hk_io hook_sample = fresh_io" "hk_iom hook_sample" by (simp_all add: hook_sample_def)
  have "im_this conn_armed = 0" by (simp add: conn_armed_def fresh_io_def)
  then have "do_io_wait sample_epoll 1000 0 0 9 RUNNING 7 WRITE s_connect_timeout hook_sample =
      Inr (Io_Yielded (Some 0), hook_sample\<lparr>hk_io := conn_wait\<rparr>)"
    by (simp add: do_io_wait_def io conn_arm conn_wait_add)
  from connect_in_progress [OF wf conn_socket this io(2) refl io(2)] show ?thesis by auto
qed

lemma conn_wait_io: "im_this conn_wait = 0" "im_schedulers conn_wait = im_schedulers fresh_io" "im_timers conn_wait = im_timers conn_armed"
  by (simp_all add: conn_wait_def conn_armed_def fresh_io_def)

lemma conn_wait_ctl: "op \<noteq> EPOLL_CTL_ADD \<Longrightarrow> fst (ep_ctl sample_epoll (im_kernel conn_wait) op 7 ev) = 0"
  by (simp add: sample_epoll_def sample_ctl_def conn_wait_def)

lemma fresh_scheduler:
  "im_schedulers (fresh_io :: (nat hook_fn, int \<Rightarrow> event_bits option) io_manager) 0 =
     Some (plain_scheduler\<lparr>m_threads := [1], m_threadIds := [1]\<rparr>)"
  by (simp add: fresh_io_def)

text \<open>A turn of the idle loop at time 4000; \<open>epoll_wait\<close> reports that the socket can be written.\<close>

definition conn_input :: idle_input where
  "conn_input = \<lparr>in_now1 = 1000, in_now2 = 4000, in_probe = 1, in_waits = [(1, False)], in_events = [(Fd_Ctx 7, EPOLLOUT)]\<rparr>"

lemma conn_turn:
  "\<exists>io. idle_loop sample_epoll [conn_input] conn_wait = Inr ([Idle_Yields [3]], io) \<and> tickle_ready io"
proof -
  let ?tm = "im_timers conn_armed" and ?s = "plain_scheduler\<lparr>m_threads := [1], m_threadIds := [1]\<rparr> :: nat hook_fn scheduler"
  let ?m = "?tm\<lparr>m_tickled := False\<rparr>"
  have "get_next_timer 1000 ?tm = (3000, ?m)"
    by (simp add: get_next_timer_def conn_armed_def next_of_def)
  then have st: "io_stopping 1000 conn_wait = Inr (False, 3000, conn_wait\<lparr>im_timers := ?m\<rparr>)"
    by (simp add: io_stopping_def own_scheduler_def conn_wait_io fresh_scheduler)
  have wf: "tm_wf ?m" by (simp add: tm_wf_def conn_armed_def)
  have a: "1 \<notin> dom (timer_store ?m)" by (simp add: conn_armed_def)
  have ex: "expired_timers 4000 ?m = [0]" "callback_of ?m 0 = Some (connect_closure 0 7)"
    by (simp_all add: expired_timers_def rolled_back_def conn_armed_def next_of_def callback_of_def timer_manager_new_def)
  obtain cbs tm where e: "list_expired_cb 4000 1 [] ?m = Inr (cbs, tm)"
    using list_expired_total [OF wf a, of 4000 "[]"] ex by (auto simp: conn_armed_def)
  have cbs: "cbs = [Some (connect_closure 0 7)]"
    using list_expired_Inr(1) [OF wf a e] ex by simp
  let ?io = "conn_wait\<lparr>im_timers := tm\<rparr>"
  obtain io1 where post: "post (Some 0) (task_of_cb (Some (connect_closure 0 7)) None) ?io = Inr io1"
    by (simp add: post_def conn_wait_io fresh_scheduler Let_def io_tickle_def own_scheduler_def hasIdleThreads_def
        plain_scheduler_def caller_scheduler_def schedule_def schedule_no_lock_def)
  then have pc: "post_callbacks [Some (connect_closure 0 7)] ?io = Inr io1"
    by (simp add: conn_wait_io)
  have "tickle_ready io1"
    using post_callbacks_Inr [OF pc, of ?s]
    by (simp add: conn_wait_io fresh_scheduler io_same_def tickle_ready_def hasIdleThreads_def plain_scheduler_def caller_scheduler_def
        schedule_def schedule_no_lock_def Let_def)
  moreover have "io_idle_turn sample_epoll 1000 4000 1 [(1, False)] [(Fd_Ctx 7, EPOLLOUT)] conn_wait = Inr (Idle_Yields [3], io1)"
    unfolding io_idle_turn_def st using e pc by (simp add: cbs clamp_timeout_def MAX_TIMEOUT_def del: handle_event.simps)
  ultimately show ?thesis by (intro exI [of _ io1]) (simp add: conn_input_def)
qed

theorem hooked_connect_times_out_witness:
  "\<exists>w1 io w2 w3. hook_connect sample_posix sample_epoll 1000 0 0 9 RUNNING 7 (-1, EINPROGRESS) hook_sample =
       Inr (Conn_Yielded (Some 0), w1) \<and>
     idle_loop sample_epoll [conn_input] (hk_io w1) = Inr ([Idle_Yields [3]], io) \<and> callback_queued (connect_closure 0 7) io \<and>
     wait_timeout sample_epoll 0 7 WRITE (w1\<lparr>hk_io := io\<rparr>) = Inr w2 \<and>
     connect_resume (Some 0) 0 (0, 0, 0) w2 = Inr (-1, w3) \<and> hk_errno w3 = ETIMEDOUT"
proof -
  obtain w1 where c: "hook_connect sample_posix sample_epoll 1000 0 0 9 RUNNING 7 (-1, EINPROGRESS) hook_sample =
      Inr (Conn_Yielded (Some 0), w1)" and io1: "hk_io w1 = conn_wait" using conn_yields by blast
  obtain io where l: "idle_loop sample_epoll [conn_input] (hk_io w1) = Inr ([Idle_Yields [3]], io)" and ready: "tickle_ready io"
    using conn_turn io1 by auto
  have p: "fresh_timer 0 (hk_io hook_sample)" by (simp add: hook_sample_def fresh_io_def timer_manager_new_def)
  have waits: "Idle_Waits \<notin> set [Idle_Yields [3]]" by simp
  have probe: "\<forall>i\<in>set [conn_input]. in_probe i \<notin> dom (timer_store (im_timers (hk_io w1)))"
    by (simp add: io1 conn_wait_io conn_input_def conn_armed_def)
  have mono: "sorted (m_previouseTime (im_timers (hk_io w1)) # map in_now2 [conn_input])"
    by (simp add: io1 conn_wait_io conn_input_def conn_armed_def timer_manager_new_def)
  have ctl: "fst (ep_ctl sample_epoll (im_kernel (hk_io w1)) op 7 ev) = 0" if "op \<noteq> EPOLL_CTL_ADD" for op ev
    unfolding io1 by (rule conn_wait_ctl [OF that])
  have due: "\<exists>i\<in>set [conn_input]. 1000 + 3000 \<le> in_now2 i" by (simp add: conn_input_def)
  from hooked_connect_times_out [OF hook_sample_reach sample_epoll_law p c l waits probe mono ctl ready, of "(0, 0, 0)"] due c l
  show ?thesis by (simp only: if_True) blast
qed

text \<open>The connection is established after 100 ms, and something reports it.\<close>

definition connected ::
  "(nat, int \<Rightarrow> event_bits option, int \<Rightarrow> cint) hook_world \<Rightarrow> (nat, int \<Rightarrow> event_bits option, int \<Rightarrow> cint) hook_world outcome" where
  "connected w = obind (cancel_event sample_epoll 7 WRITE (hk_io w)) (\<lambda>(_, io). Inr (w\<lparr>hk_io := io\<rparr>))"

definition conn_round :: "(nat, int \<Rightarrow> event_bits option, int \<Rightarrow> cint) io_round" where
  "conn_round = \<lparr>rd_now = 1000, rd_timer = 0, rd_others = connected\<rparr>"

lemma conn_woken:
  assumes c: "hook_connect sample_posix sample_epoll 1000 0 0 9 RUNNING 7 (-1, EINPROGRESS) hook_sample = Inr (Conn_Yielded timer, w1)"
  shows "\<exists>w2. connected w1 = Inr w2 \<and> woken sample_epoll {} 0 s_connect_timeout conn_round False w2"
proof -
  have inv: "hook_inv sample_epoll {} hook_sample" by (rule hook_reach_inv [OF hook_sample_reach sample_epoll_law])
  have p: "fresh_timer 0 (hk_io hook_sample)" by (simp add: hook_sample_def fresh_io_def timer_manager_new_def)
  note reg = connect_registers [OF sample_epoll_law inv p c]
  have io1: "hk_io w1 = conn_wait" using conn_yields c by auto
  have inv1: "hook_inv sample_epoll {} w1"
    by (rule connect_inv [OF sample_epoll_law inv p c [unfolded hook_connect_def]])
  then have core: "io_core (hk_io w1)" using io_reach_wf [OF _ sample_epoll_law] by (auto simp: hook_inv_def io_wf_def)
  have ready: "tickle_ready (hk_io w1)"
    by (simp add: io1 tickle_ready_def conn_wait_io fresh_scheduler hasIdleThreads_def plain_scheduler_def caller_scheduler_def)
  have "m_fdContexts conn_wait ! nat 7 = event_set Write_Slot WRITE (event_context_of (Some 0) 9 None) (fd_context_new 7)"
    by (simp add: conn_wait_def conn_armed_def sample_io_len)
  then have b: "fc_events (m_fdContexts (hk_io w1) ! nat 7) AND WRITE \<noteq> 0"
    by (simp add: io1 fd_context_new_def event_defs)
  have "fst (ep_ctl sample_epoll (im_kernel (hk_io w1)) (del_op e) 7 ev) = 0" for e ev
    unfolding io1 by (rule conn_wait_ctl) (simp add: del_op_def)
  from cancel_event_runs [OF core reg(4) b get_event_context_simps(2) ready this]
  obtain io where cancel: "cancel_event sample_epoll 7 WRITE (hk_io w1) = Inr (True, io)" and tm: "im_timers io = im_timers (hk_io w1)" by blast
  have "io_reach sample_epoll {} io"
    by (rule reach_step [of _ _ "hk_io w1"]) (use inv1 io_cancel [OF cancel] in \<open>simp_all add: hook_inv_def\<close>)
  with inv1 reg(2,3) show ?thesis
    by (auto simp: connected_def cancel woken_def hook_inv_def tm conn_round_def armed_at_def)
qed

theorem connect_blocks_witness:
  "\<exists>w'. connect_call sample_posix sample_epoll conn_round 0 9 RUNNING 7 (-1, EINPROGRESS) (0, 0, 0) hook_sample = Inr (0, w') \<and>
     hk_tinfo w' 0 = None"
proof -
  have io: "hk_io hook_sample = fresh_io" "hk_iom hook_sample" by (simp_all add: hook_sample_def)
  have ready: "wait_ready sample_epoll 0 RUNNING 7 WRITE s_connect_timeout conn_round (hook_sample\<lparr>hk_tinfo := (hk_tinfo hook_sample)(0 \<mapsto> 0)\<rparr>)"
    by (simp add: wait_ready_def io conn_round_def in_table_def sample_io_len sample_io_ctx ms_in_range_def Let_def s_connect_timeout_def)
       (simp add: fresh_io_def timer_manager_new_def tickle_ready_def hasIdleThreads_def plain_scheduler_def caller_scheduler_def
          sample_epoll_def sample_ctl_def add_op_def fd_context_new_def event_defs)
  have "\<exists>w2. rd_others conn_round w1 = Inr w2 \<and> woken sample_epoll {} 0 s_connect_timeout conn_round False w2"
    if "hook_connect sample_posix sample_epoll (rd_now conn_round) (rd_timer conn_round) 0 9 RUNNING 7 (-1, EINPROGRESS) hook_sample =
      Inr (Conn_Yielded timer, w1)" for timer w1
    using conn_woken that by (simp add: conn_round_def)
  from connect_blocks [OF hook_sample_reach sample_epoll_law conn_socket ready this, where conn = "(-1, EINPROGRESS)" and g = "(0, 0, 0)"]
  show ?thesis by (auto simp: blocking_connect_def)
qed

end
