(* ===== verification/Io_Run.thy ===== *)
theory Io_Run
  imports Connect_Loop Worker_Loop
begin

text \<open>
  The loop of \<open>run\<close> on a thread of an I/O manager, whose \<open>idle\<close>, \<open>stopping\<close> and \<open>tickle\<close> are
  virtual: the queue, the timers, the pipe and the fibers together. As in the loop of a plain scheduler,
  what a callback does is a parameter, and the loop, which may run forever, is given a number of turns.
\<close>

section \<open>The loop\<close>

definition put_scheduler :: "'u scheduler \<Rightarrow> ('u, 'k) io_manager \<Rightarrow> ('u, 'k) io_manager" where
  "put_scheduler s io = io\<lparr>im_schedulers := (im_schedulers io)(im_this io \<mapsto> s)\<rparr>"

text \<open>
  Between the switch to a fiber and the switch back. \<open>fx f\<close> is what the callback \<open>f\<close> does to the
  manager before it returns. The idle fiber goes from one \<open>yield\<close> of its loop to the next, meeting \<open>i\<close>,
  or to its end; it stays in the turn, and with it the thread, if \<open>epoll_wait\<close> is always interrupted.
\<close>

definition io_exec ::
  "uc_api \<Rightarrow> 64 word \<Rightarrow> bool \<Rightarrow> nat \<Rightarrow> 'k epoll \<Rightarrow> idle_input
   \<Rightarrow> ('u sched_fn \<Rightarrow> ('u, 'k) io_manager \<Rightarrow> ('u, 'k) io_manager outcome) \<Rightarrow> run_after \<Rightarrow> run_locals
   \<Rightarrow> ('u, 'k) io_manager \<Rightarrow> 'u sched_fn fiber_world \<Rightarrow> thread_ctx
   \<Rightarrow> ('u sched_fn list \<times> ('u, 'k) io_manager \<times> 'u sched_fn fiber_world \<times> thread_ctx) outcome" where
  "io_exec u js jf np ep i fx a l io w tc =
     (if a = After_Idle then
        obind (io_idle_turn ep (in_now1 i) (in_now2 i) (in_probe i) (in_waits i) (in_events i) io) (\<lambda>(r, io1).
        obind (case r of
                 Idle_Ends \<Rightarrow> fiber_main_end u (idle_fiber l) w tc
               | Idle_Yields _ \<Rightarrow> (case t_fiber tc of None \<Rightarrow> Inl Null_Deref | Some q \<Rightarrow> fiber_yield u q w tc)
               | Idle_Waits \<Rightarrow> Inl Would_Block) (\<lambda>(w1, tc1). Inr ([], io1, w1, tc1)))
      else
        obind (fiber_main_begin u js jf np w tc) (\<lambda>(cur, fn, w1, tc1).
          case fn of
            None \<Rightarrow> Inl Null_Deref
          | Some f \<Rightarrow>
              obind (fx f io) (\<lambda>io1.
              obind (fiber_main_end u cur w1 tc1) (\<lambda>(w2, tc2). Inr ([f], io1, w2, tc2)))))"

text \<open>
  One turn: the functions executed, whether the loop ends, and the number of times the idle fiber has
  been resumed, which selects what it meets.
\<close>

definition io_run_turn ::
  "uc_api \<Rightarrow> 64 word \<Rightarrow> bool \<Rightarrow> 64 word \<Rightarrow> nat \<Rightarrow> (nat \<Rightarrow> bool) \<Rightarrow> 'k epoll \<Rightarrow> (nat \<Rightarrow> idle_input)
   \<Rightarrow> ('u sched_fn \<Rightarrow> ('u, 'k) io_manager \<Rightarrow> ('u, 'k) io_manager outcome) \<Rightarrow> nat \<Rightarrow> nat \<Rightarrow> run_locals
   \<Rightarrow> ('u, 'k) io_manager \<Rightarrow> 'u sched_fn fiber_world \<Rightarrow> thread_ctx
   \<Rightarrow> ('u sched_fn list \<times> bool \<times> nat \<times> run_locals \<times> ('u, 'k) io_manager \<times> 'u sched_fn fiber_world \<times> thread_ctx) outcome" where
  "io_run_turn u js jf stack np owned ep inp fx me k l io w tc =
     obind (own_scheduler io) (\<lambda>s.
       case run_lookup (fiber_running w) me s of (found, tickle_me, s1) \<Rightarrow>
       let task = (case found of Some t \<Rightarrow> t | None \<Rightarrow> task_reset); io1 = put_scheduler s1 io in
       obind (if tickle_me then io_tickle io1 else Inr io1) (\<lambda>io2.
       obind (own_scheduler io2) (\<lambda>s2.
       obind (run_dispatch u stack np task l s2 w tc) (\<lambda>(after, l1, s3, w1, tc1).
         case after of
           None \<Rightarrow> Inr ([], True, k, l1, put_scheduler s3 io2, w1, tc1)
         | Some a \<Rightarrow>
             obind (io_exec u js jf np ep (inp k) fx a l1 (put_scheduler s3 io2) w1 tc1) (\<lambda>(fs, io3, w2, tc2).
             obind (own_scheduler io3) (\<lambda>s4.
             obind (run_return owned a l1 s4 w2 tc2) (\<lambda>(l2, s5, w3, tc3).
               Inr (fs, False, if a = After_Idle then Suc k else k, l2, put_scheduler s5 io3, w3, tc3))))))))"

fun io_run_loop ::
  "nat \<Rightarrow> uc_api \<Rightarrow> 64 word \<Rightarrow> bool \<Rightarrow> 64 word \<Rightarrow> nat \<Rightarrow> (nat \<Rightarrow> bool) \<Rightarrow> 'k epoll \<Rightarrow> (nat \<Rightarrow> idle_input)
   \<Rightarrow> ('u sched_fn \<Rightarrow> ('u, 'k) io_manager \<Rightarrow> ('u, 'k) io_manager outcome) \<Rightarrow> nat \<Rightarrow> nat \<Rightarrow> run_locals
   \<Rightarrow> ('u, 'k) io_manager \<Rightarrow> 'u sched_fn fiber_world \<Rightarrow> thread_ctx
   \<Rightarrow> ('u sched_fn list \<times> bool \<times> nat \<times> run_locals \<times> ('u, 'k) io_manager \<times> 'u sched_fn fiber_world \<times> thread_ctx) outcome" where
  "io_run_loop 0 u js jf stack np owned ep inp fx me k l io w tc = Inr ([], False, k, l, io, w, tc)"
| "io_run_loop (Suc n) u js jf stack np owned ep inp fx me k l io w tc =
     obind (io_run_turn u js jf stack np owned ep inp fx me k l io w tc) (\<lambda>(fs, ended, k1, l1, io1, w1, tc1).
       if ended then Inr (fs, True, k1, l1, io1, w1, tc1)
       else obind (io_run_loop n u js jf stack np owned ep inp fx me k1 l1 io1 w1 tc1) (\<lambda>(gs, rest). Inr (fs @ gs, rest)))"

section \<open>One turn\<close>

lemma put_scheduler_simps [simp]:
  "im_schedulers (put_scheduler s io) = (im_schedulers io)(im_this io \<mapsto> s)"
  "im_this (put_scheduler s io) = im_this io" "im_timers (put_scheduler s io) = im_timers io"
  "im_pipe_room (put_scheduler s io) = im_pipe_room io" "m_pendingEventCount (put_scheduler s io) = m_pendingEventCount io"
  "put_scheduler s (put_scheduler s' io) = put_scheduler s io" "own_scheduler (put_scheduler s io) = Inr s"
  by (simp_all add: put_scheduler_def own_scheduler_def)

lemma put_scheduler_same: "im_schedulers io (im_this io) = Some s \<Longrightarrow> put_scheduler s io = io"
  by (simp add: put_scheduler_def fun_upd_idem)

lemma put_scheduler_alive: "im_schedulers io (im_this io) = Some s \<Longrightarrow> io_same io (put_scheduler s' io)"
  by (auto simp: io_same_def put_scheduler_def alive_def fun_eq_iff)

lemma io_tickle_busy: "own_scheduler io = Inr s \<Longrightarrow> \<not> hasIdleThreads s \<Longrightarrow> io_tickle io = Inr io"
  by (simp add: io_tickle_def)

text \<open>A callback: it works on the manager while its thread counts as active, and no byte goes into the pipe.\<close>

lemma io_turn_callback:
  fixes w :: "'u sched_fn fiber_world" and io :: "('u, 'k) io_manager"
  assumes wf: "worker_wf g (w, tc)" and e: "t_exec tc = Some g" and g: "fibers w g = Some fg"
    and s: "im_schedulers io (im_this io) = Some s" and q: "m_tasks s = t # ts" and loc: "local_cb me t" and cb: "tk_cb t = Some f"
    and idle: "m_idleThreadCount s = 0" and l: "cb_fiber l = None" and np: "fibers w np = None" and st: "stack \<noteq> 0"
    and u: "\<not> uc_swap_fails u" "\<not> uc_get_fails u" and own: "\<not> owned np"
  shows "\<exists>w'. io_run_turn u js jf stack np owned ep inp fx me k l io w tc =
       obind (fx f (put_scheduler (s\<lparr>m_tasks := ts, m_activeThreadCount := m_activeThreadCount s + 1\<rparr>) io)) (\<lambda>io1.
       obind (own_scheduler io1) (\<lambda>s1.
         Inr ([f], False, k, l, put_scheduler (s1\<lparr>m_activeThreadCount := m_activeThreadCount s1 - 1\<rparr>) io1, w', tc))) \<and>
     fibers w' = (fibers w)(g \<mapsto> fg\<lparr>m_ctx := Ctx_At g\<rparr>) \<and> s_fiber_count w' = s_fiber_count w"
proof -
  let ?s1 = "s\<lparr>m_tasks := ts, m_activeThreadCount := m_activeThreadCount s + 1\<rparr>"
  have "tk_fiber t = None" using loc by (simp add: local_cb_def)
  from callback_round [where u = u and owned = owned and s = ?s1, OF wf e g this cb l np st u own]
  obtain l1 w1 tc1 w2 w3 where d: "run_dispatch u stack np t l ?s1 w tc = Inr (Some After_Cb, l1, ?s1, w1, tc1)"
    and tc1: "t_exec tc1 = Some np" "t_fiber tc1 = Some np" "map_option m_fcb (fibers w1 np) = Some (Some f)"
    and e: "fiber_main_end u np w1 tc1 = Inr (w2, tc)"
    and r: "\<forall>s2. run_return owned After_Cb l1 s2 w2 tc =
       Inr (l, s2\<lparr>m_activeThreadCount := m_activeThreadCount s2 - 1\<rparr>, w3, tc)"
    and w3: "fibers w3 = (fibers w)(g \<mapsto> fg\<lparr>m_ctx := Ctx_At g\<rparr>)" "s_fiber_count w3 = s_fiber_count w"
    by blast
  have b: "fiber_main_begin u js jf np w1 tc1 = Inr (np, Some f, w1, tc1)"
    using tc1 by (auto simp: fiber_main_begin_def Fiber_GetThis_def)
  have "\<not> hasIdleThreads ?s1" using idle by (simp add: hasIdleThreads_def)
  then have tk: "(if b then io_tickle (put_scheduler ?s1 io) else Inr (put_scheduler ?s1 io)) = Inr (put_scheduler ?s1 io)" for b
    by (simp add: io_tickle_def)
  have "own_scheduler io = Inr s" using s by (simp add: own_scheduler_def)
  then have "io_run_turn u js jf stack np owned ep inp fx me k l io w tc =
       obind (fx f (put_scheduler ?s1 io)) (\<lambda>io1. obind (own_scheduler io1) (\<lambda>s1.
         Inr ([f], False, k, l, put_scheduler (s1\<lparr>m_activeThreadCount := m_activeThreadCount s1 - 1\<rparr>) io1, w3, tc)))"
    by (cases "fx f (put_scheduler ?s1 io)"; cases "own_scheduler (projr (fx f (put_scheduler ?s1 io)))")
       (simp_all add: io_run_turn_def lookup_local [OF q loc] Let_def tk d io_exec_def b e r)
  with w3 show ?thesis by blast
qed

text \<open>The idle fiber: one turn of its loop, with the thread counted as idle.\<close>

lemma io_turn_idle:
  fixes w :: "'u sched_fn fiber_world" and io :: "('u, 'k) io_manager"
  assumes wf: "worker_wf g (w, tc)" and e: "t_exec tc = Some g" and g: "fibers w g = Some fg"
    and s: "im_schedulers io (im_this io) = Some s" and q: "m_tasks s = []"
    and idle: "fibers w (idle_fiber l) = Some fi" "m_state fi = READY" "idle_fiber l \<noteq> g" and u: "\<not> uc_swap_fails u"
    and i: "inp k = i" "io_idle_turn ep (in_now1 i) (in_now2 i) (in_probe i) (in_waits i) (in_events i)
      (put_scheduler (s\<lparr>m_idleThreadCount := m_idleThreadCount s + 1\<rparr>) io) = Inr (r, io1)"
      "r \<noteq> Idle_Waits" "im_schedulers io1 (im_this io1) = Some s1"
  shows "\<exists>w'. io_run_turn u js jf stack np owned ep inp fx me k l io w tc =
       Inr ([], False, Suc k, l, put_scheduler (s1\<lparr>m_idleThreadCount := m_idleThreadCount s1 - 1\<rparr>) io1, w', tc) \<and>
     fibers w' = (fibers w)(g \<mapsto> fg\<lparr>m_ctx := Ctx_At g\<rparr>, idle_fiber l \<mapsto>
       (if r = Idle_Ends then fi\<lparr>m_fcb := None, m_state := TERMINATED, m_ctx := Ctx_At (idle_fiber l)\<rparr>
        else fi\<lparr>m_ctx := Ctx_At (idle_fiber l)\<rparr>)) \<and> s_fiber_count w' = s_fiber_count w"
proof -
  have tc: "t_scheduler_fiber tc = Some g" "t_thread_fiber tc = Some g" "t_fiber tc = Some g"
    using wf e by (auto simp: worker_wf_def)
  let ?s1 = "s\<lparr>m_idleThreadCount := m_idleThreadCount s + 1\<rparr>"
  let ?w1 = "w\<lparr>fibers := (fibers w)(idle_fiber l \<mapsto> fi\<lparr>m_state := RUNNING\<rparr>, g \<mapsto> fg\<lparr>m_ctx := Ctx_At g\<rparr>)\<rparr>"
  let ?tc1 = "tc\<lparr>t_fiber := Some (idle_fiber l), t_exec := Some (idle_fiber l)\<rparr>"
  have d: "run_dispatch u stack np task_reset l s w tc = Inr (Some After_Idle, l, ?s1, ?w1, ?tc1)"
    using idle worker_resume_eq [OF wf e idle(3,1,2) u g] by (simp add: run_dispatch_def task_reset_def)
  have flag: "m_runInScheduler fi" using wf idle by (auto simp: worker_wf_def task_ok_def)
  have own: "own_scheduler io = Inr s" "put_scheduler s io = io" "run_lookup (fiber_running w) me s = (None, False, s)"
    using s q by (simp_all add: own_scheduler_def put_scheduler_same run_lookup_def)
  have own1: "own_scheduler io1 = Inr s1" using i(4) by (simp add: own_scheduler_def)
  have leave: "fiber_yield u (idle_fiber l) w2 ?tc1 =
       Inr (w2\<lparr>fibers := (fibers w2)(idle_fiber l \<mapsto> f\<lparr>m_state := after_yield (m_state f), m_ctx := Ctx_At (idle_fiber l)\<rparr>)\<rparr>, tc)"
    if "fibers w2 = (fibers ?w1)(idle_fiber l \<mapsto> f)" "m_state f = RUNNING \<or> m_state f = TERMINATED" "m_runInScheduler f" for w2 f
    by (rule callback_leaves [where g = g and fg = "fg\<lparr>m_ctx := Ctx_At g\<rparr>"]) (use that tc e idle u in simp_all)
  show ?thesis
  proof (cases "r = Idle_Ends")
    case True
    let ?f = "fi\<lparr>m_fcb := None, m_state := TERMINATED\<rparr>"
    let ?w2 = "?w1\<lparr>fibers := (fibers ?w1)(idle_fiber l \<mapsto> ?f)\<rparr>"
    have "fiber_upd (idle_fiber l) (\<lambda>f. f\<lparr>m_fcb := None, m_state := TERMINATED\<rparr>) ?w1 = ?w2"
      using idle(3) by (simp add: fiber_upd_def fun_upd_twist)
    then have "fiber_main_end u (idle_fiber l) ?w1 ?tc1 =
        Inr (?w2\<lparr>fibers := (fibers ?w2)(idle_fiber l \<mapsto> ?f\<lparr>m_state := after_yield TERMINATED, m_ctx := Ctx_At (idle_fiber l)\<rparr>)\<rparr>, tc)"
      using leave [of ?w2 ?f] idle(3) flag by (simp add: fiber_main_end_def)
    then have x: "io_exec u js jf np ep i fx After_Idle l (put_scheduler ?s1 io) ?w1 ?tc1 =
        Inr ([], io1, ?w2\<lparr>fibers := (fibers ?w2)(idle_fiber l \<mapsto> ?f\<lparr>m_state := after_yield TERMINATED, m_ctx := Ctx_At (idle_fiber l)\<rparr>)\<rparr>, tc)"
      using True by (simp add: io_exec_def i(2))
    have "io_run_turn u js jf stack np owned ep inp fx me k l io w tc = Inr ([], False, Suc k, l,
        put_scheduler (s1\<lparr>m_idleThreadCount := m_idleThreadCount s1 - 1\<rparr>) io1,
        ?w2\<lparr>fibers := (fibers ?w2)(idle_fiber l \<mapsto> ?f\<lparr>m_state := after_yield TERMINATED, m_ctx := Ctx_At (idle_fiber l)\<rparr>)\<rparr>, tc)"
      by (simp add: io_run_turn_def own d x own1 i(1) run_return_def)
    with True idle(3) show ?thesis
      by (fastforce simp: after_yield_def fun_eq_iff)
  next
    case False
    let ?f = "fi\<lparr>m_state := RUNNING\<rparr>"
    let ?w3 = "?w1\<lparr>fibers := (fibers ?w1)(idle_fiber l \<mapsto> ?f\<lparr>m_state := after_yield RUNNING, m_ctx := Ctx_At (idle_fiber l)\<rparr>)\<rparr>"
    have "fiber_yield u (idle_fiber l) ?w1 ?tc1 = Inr (?w3, tc)"
      using leave [of ?w1 ?f] idle(3) flag by (simp add: fun_upd_twist)
    moreover obtain ps where "r = Idle_Yields ps" using False i(3) by (cases r) auto
    ultimately have x: "io_exec u js jf np ep i fx After_Idle l (put_scheduler ?s1 io) ?w1 ?tc1 = Inr ([], io1, ?w3, tc)"
      by (simp add: io_exec_def i(2))
    have "io_run_turn u js jf stack np owned ep inp fx me k l io w tc = Inr ([], False, Suc k, l,
        put_scheduler (s1\<lparr>m_idleThreadCount := m_idleThreadCount s1 - 1\<rparr>) io1, ?w3, tc)"
      by (simp add: io_run_turn_def own d x own1 i(1) run_return_def)
    moreover have "fi\<lparr>m_state := READY, m_ctx := Ctx_At (idle_fiber l)\<rparr> = fi\<lparr>m_ctx := Ctx_At (idle_fiber l)\<rparr>" using idle(2) by (cases fi) simp
    ultimately show ?thesis using False idle(3)
      by (fastforce simp: after_yield_def fun_eq_iff)
  qed
qed

lemma io_turn_exit:
  assumes "im_schedulers io (im_this io) = Some s" and "m_tasks s = []" and "map_option m_state (fibers w (idle_fiber l)) = Some TERMINATED"
  shows "io_run_turn u js jf stack np owned ep inp fx me k l io w tc = Inr ([], True, k, l, io, w, tc)"
  using assms by (auto simp: io_run_turn_def own_scheduler_def run_lookup_def run_dispatch_def task_reset_def put_scheduler_same)

section \<open>Timers that fire once\<close>

text \<open>Deadlines and callbacks of the armed timers, earliest first.\<close>

definition armed_list :: "'u sched_fn timer_manager \<Rightarrow> (millis \<times> 'u sched_fn) list" where
  "armed_list m = map (\<lambda>p. (next_of (timer_store m) p, the (callback_of m p))) (m_timers m)"

definition one_shots :: "'u sched_fn timer_manager \<Rightarrow> bool" where
  "one_shots m \<longleftrightarrow> tm_wf m \<and>
     (\<forall>p\<in>set (m_timers m). \<exists>t. timer_store m p = Some t \<and> \<not> m_recurring t \<and> m_cb t \<noteq> None)"

lemma armed_list_Nil [simp]: "armed_list m = [] \<longleftrightarrow> m_timers m = []"
  by (simp add: armed_list_def)

lemma length_armed_list: "length (armed_list m) = length (m_timers m)"
  by (simp add: armed_list_def)

lemma length_split_while: "length (takeWhile P xs) + length (dropWhile P xs) = length xs"
  by (induction xs) simp_all

lemma fire_one_shots:
  "\<forall>p\<in>set ps. \<exists>t. timer_store m p = Some t \<and> \<not> m_recurring t \<Longrightarrow> distinct ps \<Longrightarrow>
   fire_expired now ps cbs m =
     Inr (cbs @ map (callback_of m) ps, m\<lparr>timer_store := fire_store now ps (timer_store m)\<rparr>)"
proof (induction ps arbitrary: cbs m)
  case Nil
  then show ?case by (simp add: fire_store_def)
next
  case (Cons p ps)
  from Cons.prems obtain t where t: "timer_store m p = Some t" "\<not> m_recurring t" by auto
  let ?m = "m\<lparr>timer_store := (timer_store m)(p \<mapsto> t\<lparr>m_cb := None\<rparr>)\<rparr>"
  have "fire_expired now ps (cbs @ [m_cb t]) ?m =
      Inr ((cbs @ [m_cb t]) @ map (callback_of ?m) ps, ?m\<lparr>timer_store := fire_store now ps (timer_store ?m)\<rparr>)"
    by (rule Cons.IH) (use Cons.prems in auto)
  moreover have "map (callback_of ?m) ps = map (callback_of m) ps" using Cons.prems(2) by (auto simp: callback_of_def)
  moreover have "fire_store now ps (timer_store ?m) = fire_store now (p # ps) (timer_store m)"
    using t Cons.prems(2) by (auto simp: fire_store_def fired_def fun_eq_iff)
  ultimately show ?case using t by (simp add: callback_of_def)
qed

lemma armed_split:
  assumes "tm_wf m" and "\<not> rolled_back now m"
  shows "expired_timers now m = takeWhile (\<lambda>p. next_of (timer_store m) p \<le> now) (m_timers m)"
    and "filter (\<lambda>p. p \<notin> set (expired_timers now m)) (m_timers m) = dropWhile (\<lambda>p. next_of (timer_store m) p \<le> now) (m_timers m)"
proof -
  let ?P = "\<lambda>p. next_of (timer_store m) p \<le> now"
  show t: "expired_timers now m = takeWhile ?P (m_timers m)"
    using assms by (simp add: expired_timers_def sorted_takeWhile_filter [OF tm_wf_sorted])
  have "filter (\<lambda>p. p \<notin> set (take (length (takeWhile ?P (m_timers m))) (m_timers m))) (m_timers m) =
      drop (length (takeWhile ?P (m_timers m))) (m_timers m)"
    by (rule filter_notin_take [OF tm_wf_distinct [OF assms(1)]])
  then show "filter (\<lambda>p. p \<notin> set (expired_timers now m)) (m_timers m) = dropWhile ?P (m_timers m)"
    by (simp add: t takeWhile_eq_take [symmetric] dropWhile_eq_drop)
qed

text \<open>Collecting what is due splits the list.\<close>

lemma expire_one_shots:
  assumes one: "one_shots m" and ne: "m_timers m \<noteq> []" and a: "a \<notin> dom (timer_store m)" and roll: "\<not> rolled_back now m"
  shows "\<exists>m'. list_expired_cb now a [] m = Inr (map (\<lambda>(d, f). Some f) (takeWhile (\<lambda>(d, f). d \<le> now) (armed_list m)), m') \<and>
     one_shots m' \<and> armed_list m' = dropWhile (\<lambda>(d, f). d \<le> now) (armed_list m) \<and>
     dom (timer_store m') = dom (timer_store m) \<and> m_previouseTime m' = now"
proof -
  have wf: "tm_wf m" using one by (simp add: one_shots_def)
  let ?P = "\<lambda>p. next_of (timer_store m) p \<le> now"
  let ?e = "expired_timers now m"
  let ?m = "m\<lparr>m_previouseTime := now, m_timers := filter (\<lambda>p. p \<notin> set ?e) (m_timers m)\<rparr>"
  let ?m' = "?m\<lparr>timer_store := fire_store now ?e (timer_store m)\<rparr>"
  note sp = armed_split [OF wf roll]
  have e: "\<forall>p\<in>set ?e. \<exists>t. timer_store m p = Some t \<and> \<not> m_recurring t"
    using one expired_subset [of now m] unfolding one_shots_def by blast
  have "distinct ?e" using tm_wf_distinct [OF wf] by (simp add: expired_timers_def)
  then have run: "list_expired_cb now a [] m = Inr (map (callback_of m) ?e, ?m')"
    unfolding list_expired_eq [OF wf a ne]
    by (subst fire_one_shots) (use e in \<open>auto simp: callback_of_def [abs_def]\<close>)
  have cb: "callback_of m p = Some (the (callback_of m p))" if "p \<in> set (m_timers m)" for p
    using one that by (auto simp: one_shots_def callback_of_def)
  have "map (callback_of m) ?e = map (\<lambda>p. Some (the (callback_of m p))) ?e"
    by (rule map_cong [OF refl]) (use cb expired_subset in blast)
  also have "\<dots> = map (\<lambda>(d, f). Some f) (takeWhile (\<lambda>(d, f). d \<le> now) (armed_list m))"
    by (simp add: armed_list_def takeWhile_map sp(1) comp_def)
  finally have "map (callback_of m) ?e = map (\<lambda>(d, f). Some f) (takeWhile (\<lambda>(d, f). d \<le> now) (armed_list m))" .
  moreover have "one_shots ?m'"
    using one list_expired_Inr(4) [OF wf a run] by (auto simp: one_shots_def fire_store_def)
  moreover have "armed_list ?m' = dropWhile (\<lambda>(d, f). d \<le> now) (armed_list m)"
  proof -
    have "armed_list ?m' = map (\<lambda>p. (next_of (timer_store m) p, the (callback_of m p))) (filter (\<lambda>p. p \<notin> set ?e) (m_timers m))"
      by (auto simp: armed_list_def fire_store_def next_of_def callback_of_def)
    then show ?thesis by (simp only: sp(2)) (simp add: armed_list_def dropWhile_map comp_def)
  qed
  moreover have "dom (timer_store ?m') = dom (timer_store m)" by (auto simp: fire_store_def split: if_splits)
  ultimately show ?thesis using run by (intro exI [of _ ?m']) simp
qed

section \<open>The idle turn\<close>

definition wait_returns :: "idle_input \<Rightarrow> bool" where
  "wait_returns i \<longleftrightarrow> list_ex (\<lambda>(rt, eintr). \<not> (rt < 0 \<and> eintr)) (in_waits i)"

lemma idle_wait_returns: "list_ex (\<lambda>(rt, eintr). \<not> (rt < 0 \<and> eintr)) ws \<Longrightarrow> \<exists>ps. idle_wait 0 t ws = Some (ps, 0)"
proof (induction ws arbitrary: t)
  case (Cons x ws)
  obtain rt e where x: "x = (rt, e)" by (cases x) auto
  show ?case
  proof (cases "rt < 0 \<and> e")
    case True
    with Cons x obtain ps where "idle_wait 0 (clamp_timeout t) ws = Some (ps, 0)" by fastforce
    with True x show ?thesis by (simp add: Let_def)
  next
    case False
    then show ?thesis by (auto simp: x Let_def)
  qed
qed simp

definition queued_fns :: "'u sched_fn list \<Rightarrow> 'u sched_task list" where
  "queued_fns fs = map (\<lambda>f. task_of_cb (Some f) None) fs"

lemma post_behind:
  assumes "im_schedulers io (im_this io) = Some s" and "m_tasks s \<noteq> []"
  shows "post_callbacks (map Some fs) io = Inr (put_scheduler (s\<lparr>m_tasks := m_tasks s @ queued_fns fs\<rparr>) io)"
  using assms
proof (induction fs arbitrary: io s)
  case Nil
  then show ?case by (simp add: queued_fns_def put_scheduler_same)
next
  case (Cons f fs)
  let ?s = "s\<lparr>m_tasks := m_tasks s @ [task_of_cb (Some f) None]\<rparr>"
  from Cons.prems have "post (Some (im_this io)) (task_of_cb (Some f) None) io = Inr (put_scheduler ?s io)"
    by (simp add: post_def schedule_def schedule_no_lock_def Let_def put_scheduler_def)
  with Cons.IH [of "put_scheduler ?s io" ?s] show ?case by (simp add: queued_fns_def)
qed

text \<open>What is due costs one byte of the pipe, however much it is.\<close>

lemma post_due:
  assumes s: "im_schedulers io (im_this io) = Some s" and q: "m_tasks s = []" and idle: "hasIdleThreads s"
  shows "post_callbacks (map Some fs) io =
     (if fs = [] then Inr io
      else if im_pipe_room io = 0 then Inl Would_Block
      else Inr (put_scheduler (s\<lparr>m_tasks := queued_fns fs\<rparr>) (io\<lparr>im_pipe_room := im_pipe_room io - 1\<rparr>)))"
proof (cases fs)
  case (Cons f gs)
  let ?s = "s\<lparr>m_tasks := [task_of_cb (Some f) None]\<rparr>"
  have "hasIdleThreads ?s" using idle by (simp add: hasIdleThreads_def)
  then have p: "post (Some (im_this io)) (task_of_cb (Some f) None) io =
      (if im_pipe_room io = 0 then Inl Would_Block else Inr (put_scheduler ?s (io\<lparr>im_pipe_room := im_pipe_room io - 1\<rparr>)))"
    using s q by (simp add: post_def schedule_def schedule_no_lock_def Let_def put_scheduler_def io_tickle_def own_scheduler_def)
  show ?thesis
    using p post_behind [of "put_scheduler ?s (io\<lparr>im_pipe_room := im_pipe_room io - 1\<rparr>)" ?s gs]
    by (simp add: Cons queued_fns_def)
qed simp

lemma next_timer_keeps:
  assumes "one_shots m"
  shows "one_shots (snd (get_next_timer now m))" and "armed_list (snd (get_next_timer now m)) = armed_list m"
    and "rolled_back now' (snd (get_next_timer now m)) = rolled_back now' m"
proof -
  have "m_previouseTime (snd (get_next_timer now m)) = m_previouseTime m"
    by (simp add: get_next_timer_def Let_def split: list.split)
  then show "rolled_back now' (snd (get_next_timer now m)) = rolled_back now' m" by (simp add: rolled_back_def)
  show "one_shots (snd (get_next_timer now m))" "armed_list (snd (get_next_timer now m)) = armed_list m"
    using assms get_next_timer_wf [of m now] by (simp_all add: one_shots_def armed_list_def callback_of_def)
qed

abbreviation due_by :: "millis \<Rightarrow> millis \<times> 'u sched_fn \<Rightarrow> bool" where
  "due_by now \<equiv> \<lambda>(d, f). d \<le> now"

lemma idle_turn_due:
  fixes io :: "('u, 'k) io_manager"
  assumes s: "im_schedulers io (im_this io) = Some s" and q: "m_tasks s = []" and idle: "hasIdleThreads s"
    and one: "one_shots (im_timers io)" and ne: "m_timers (im_timers io) \<noteq> []"
    and a: "in_probe i \<notin> dom (timer_store (im_timers io))" and roll: "\<not> rolled_back (in_now2 i) (im_timers io)"
    and w: "wait_returns i" and room: "0 < im_pipe_room io"
  defines "due \<equiv> takeWhile (due_by (in_now2 i)) (armed_list (im_timers io))"
  shows "\<exists>ps m'. io_idle_turn ep (in_now1 i) (in_now2 i) (in_probe i) (in_waits i) (in_events i) io =
       Inr (Idle_Yields ps, put_scheduler (s\<lparr>m_tasks := queued_fns (map snd due)\<rparr>)
         (io\<lparr>im_timers := m', im_pipe_room := im_pipe_room io - of_bool (due \<noteq> [])\<rparr>)) \<and>
     one_shots m' \<and> armed_list m' = dropWhile (due_by (in_now2 i)) (armed_list (im_timers io)) \<and>
     dom (timer_store m') = dom (timer_store (im_timers io)) \<and> m_previouseTime m' = in_now2 i"
proof -
  let ?n = "get_next_timer (in_now1 i) (im_timers io)"
  note k = next_timer_keeps [OF one, where now = "in_now1 i"]
  have "m_timers (snd ?n) \<noteq> []" "in_probe i \<notin> dom (timer_store (snd ?n))" "\<not> rolled_back (in_now2 i) (snd ?n)"
    using ne a roll k(3) by (simp_all only: get_next_timer_keeps not_False_eq_True)
  from expire_one_shots [OF k(1) this] obtain m' where
    e: "list_expired_cb (in_now2 i) (in_probe i) [] (snd ?n) = Inr (map (\<lambda>(d, f). Some f) due, m')"
    and m': "one_shots m'" "armed_list m' = dropWhile (due_by (in_now2 i)) (armed_list (im_timers io))"
      "dom (timer_store m') = dom (timer_store (im_timers io))" "m_previouseTime m' = in_now2 i"
    by (auto simp: due_def k(2))
  have "tm_wf (im_timers io)" using one by (simp add: one_shots_def)
  then have "fst ?n \<noteq> ms_none" using tsrc.next_none ne by blast
  then have st: "io_stopping (in_now1 i) io = Inr (False, fst ?n, io\<lparr>im_timers := snd ?n\<rparr>)"
    by (simp add: io_stopping_def own_scheduler_def s split_beta)
  obtain ps where ps: "idle_wait 0 (fst ?n) (in_waits i) = Some (ps, 0)"
    using idle_wait_returns w unfolding wait_returns_def by blast
  have cbs: "map (\<lambda>(d, f). Some f) due = map Some (map snd due)" by (simp add: case_prod_unfold comp_def)
  have same: "s\<lparr>m_tasks := queued_fns []\<rparr> = s" using q by (simp add: queued_fns_def)
  have "post_callbacks (map (\<lambda>(d, f). Some f) due) (io\<lparr>im_timers := m'\<rparr>) =
      Inr (put_scheduler (s\<lparr>m_tasks := queued_fns (map snd due)\<rparr>)
         (io\<lparr>im_timers := m', im_pipe_room := im_pipe_room io - of_bool (due \<noteq> [])\<rparr>))"
    unfolding cbs using s q idle room
    by (subst post_due [of _ s]) (auto simp: put_scheduler_def same fun_upd_idem)
  then have "io_idle_turn ep (in_now1 i) (in_now2 i) (in_probe i) (in_waits i) (in_events i) io =
       Inr (Idle_Yields ps, put_scheduler (s\<lparr>m_tasks := queued_fns (map snd due)\<rparr>)
         (io\<lparr>im_timers := m', im_pipe_room := im_pipe_room io - of_bool (due \<noteq> [])\<rparr>))"
    by (simp add: io_idle_turn_def st ps e)
  with m' show ?thesis by blast
qed

lemma idle_turn_ends:
  assumes "im_schedulers io (im_this io) = Some s" and "scheduler_stopping s" and "m_timers (im_timers io) = []" and "m_pendingEventCount io = 0"
  shows "io_idle_turn ep now1 now2 a ws evs io = Inr (Idle_Ends, io\<lparr>im_timers := snd (get_next_timer now1 (im_timers io))\<rparr>)"
proof -
  have "fst (get_next_timer now1 (im_timers io)) = ms_none" using assms(3) by (simp add: get_next_timer_def)
  with assms show ?thesis by (simp add: io_idle_turn_def io_stopping_def own_scheduler_def split_beta)
qed

section \<open>What the loop should do\<close>

text \<open>
  A queue, a list of timers and a clock: functions are executed first in, first out, with what they
  schedule at the end of the queue; whenever the queue is empty, what the clock's next reading makes due
  is queued, earliest deadline first. It is over when nothing is queued and no timer is left.
\<close>

fun timed_run ::
  "('u sched_fn \<Rightarrow> 'u sched_fn list) \<Rightarrow> (nat \<Rightarrow> millis) \<Rightarrow> nat \<Rightarrow> nat \<Rightarrow> 'u sched_fn list \<Rightarrow> (millis \<times> 'u sched_fn) list \<Rightarrow> 'u sched_fn list" where
  "timed_run b clock 0 k fs ts = []"
| "timed_run b clock (Suc n) k (f # fs) ts = f # timed_run b clock n k (fs @ b f) ts"
| "timed_run b clock (Suc n) k [] [] = []"
| "timed_run b clock (Suc n) k [] (t # ts) =
     timed_run b clock n (Suc k) (map snd (takeWhile (due_by (clock k)) (t # ts))) (dropWhile (due_by (clock k)) (t # ts))"

text \<open>Enough turns: one for each function, one for each reading of the clock until all timers are due.\<close>

definition all_due :: "(nat \<Rightarrow> millis) \<Rightarrow> nat \<Rightarrow> nat \<Rightarrow> (millis \<times> 'u sched_fn) list \<Rightarrow> bool" where
  "all_due clock k K ts \<longleftrightarrow> ts = [] \<or> k \<le> K \<and> (\<forall>x\<in>set ts. due_by (clock K) x)"

lemma all_due_Suc:
  assumes "all_due clock k K ts"
  shows "all_due clock (Suc k) K (dropWhile (due_by (clock k)) ts)"
proof (cases "dropWhile (due_by (clock k)) ts = []")
  case False
  then have "ts \<noteq> []" "\<not> (\<forall>x\<in>set ts. due_by (clock k) x)" by (auto simp: dropWhile_eq_Nil_conv)
  with assms have "k \<noteq> K" "k \<le> K" "\<forall>x\<in>set ts. due_by (clock K) x" by (auto simp: all_due_def)
  then show ?thesis using set_dropWhileD [of _ "due_by (clock k)" ts] by (auto simp: all_due_def)
qed (simp add: all_due_def)

lemma timed_run_plain:
  "\<forall>f. b f = [] \<Longrightarrow> all_due clock k K ts \<Longrightarrow> length fs + length ts + (Suc K - k) < n \<Longrightarrow> timed_run b clock n k fs ts = fs @ map snd ts"
proof (induction b clock n k fs ts rule: timed_run.induct)
  case (2 b clock n k f fs ts)
  then show ?case by simp
next
  case (4 b clock n k t ts)
  let ?d = "takeWhile (due_by (clock k)) (t # ts)" and ?r = "dropWhile (due_by (clock k)) (t # ts)"
  have kK: "k \<le> K" using "4.prems"(2) by (simp add: all_due_def)
  have len: "length ?d + length ?r = length (t # ts)" by (rule length_split_while)
  have "timed_run b clock n (Suc k) (map snd ?d) ?r = map snd ?d @ map snd ?r"
    by (rule "4.IH") (use all_due_Suc [OF "4.prems"(2)] "4.prems"(1,3) kK len in simp_all)
  then show ?case by (simp only: timed_run.simps map_append [symmetric] takeWhile_dropWhile_id append_Nil)
qed simp_all

section \<open>Draining\<close>

text \<open>What a callback schedules on its own manager.\<close>

fun post_tasks :: "'u sched_task list \<Rightarrow> ('u, 'k) io_manager \<Rightarrow> ('u, 'k) io_manager outcome" where
  "post_tasks [] io = Inr io"
| "post_tasks (t # ts) io = obind (post (Some (im_this io)) t io) (post_tasks ts)"

lemma post_tasks_busy:
  "im_schedulers io (im_this io) = Some s \<Longrightarrow> \<not> hasIdleThreads s \<Longrightarrow>
   post_tasks ts io = Inr (put_scheduler (fold (\<lambda>t s. snd (schedule t s)) ts s) io)"
proof (induction ts arbitrary: io s)
  case Nil
  then show ?case by (simp add: put_scheduler_same)
next
  case (Cons t ts)
  let ?s = "snd (schedule t s)"
  have i: "\<not> hasIdleThreads ?s"
    using Cons.prems(2) by (simp add: hasIdleThreads_def schedule_def schedule_no_lock_def Let_def)
  have "post (Some (im_this io)) t io = Inr (put_scheduler ?s io)"
    using Cons.prems(1) i by (simp add: post_def Let_def put_scheduler_def io_tickle_def own_scheduler_def)
  with Cons.IH [of "put_scheduler ?s io" ?s] i show ?case by simp
qed

definition draining :: "nat \<Rightarrow> 'u scheduler \<Rightarrow> ('u, 'k) io_manager \<Rightarrow> bool" where
  "draining me s io \<longleftrightarrow> im_schedulers io (im_this io) = Some s \<and> m_stopping s \<and> m_activeThreadCount s = 0 \<and>
     m_idleThreadCount s = 0 \<and> queued_cbs me (m_tasks s) \<and> m_pendingEventCount io = 0 \<and>
     one_shots (im_timers io) \<and> length (m_timers (im_timers io)) \<le> im_pipe_room io"

text \<open>What the idle turns meet: a clock that does not go back, fresh addresses, a wait that returns.\<close>

definition idle_inputs :: "(nat \<Rightarrow> idle_input) \<Rightarrow> nat \<Rightarrow> 'u sched_fn timer_manager \<Rightarrow> bool" where
  "idle_inputs inp k m \<longleftrightarrow> mono (\<lambda>j. in_now2 (inp j)) \<and> m_previouseTime m \<le> in_now2 (inp k) \<and>
     (\<forall>j. wait_returns (inp j) \<and> in_probe (inp j) \<notin> dom (timer_store m))"

text \<open>
  The fibers between two turns: the scheduling fiber \<open>g\<close> and the idle fiber may have saved another
  context, all others are untouched, none has come or gone. At the end the idle fiber has ended.
\<close>

definition same_but_context :: "nat \<Rightarrow> 'cb fiber_world \<Rightarrow> 'cb fiber_world \<Rightarrow> bool" where
  "same_but_context p w w' \<longleftrightarrow>
     map_option (m_ctx_update (\<lambda>_. Ctx_None)) (fibers w' p) = map_option (m_ctx_update (\<lambda>_. Ctx_None)) (fibers w p)"

definition fibers_kept :: "nat \<Rightarrow> run_locals \<Rightarrow> 'cb fiber_world \<Rightarrow> 'cb fiber_world \<Rightarrow> bool" where
  "fibers_kept g l w w' \<longleftrightarrow> s_fiber_count w' = s_fiber_count w \<and>
     same_but_context g w w' \<and> same_but_context (idle_fiber l) w w' \<and>
     (\<forall>p. p \<noteq> g \<and> p \<noteq> idle_fiber l \<longrightarrow> fibers w' p = fibers w p)"

definition fibers_ended :: "nat \<Rightarrow> run_locals \<Rightarrow> 'cb fiber_world \<Rightarrow> 'cb fiber_world \<Rightarrow> bool" where
  "fibers_ended g l w w' \<longleftrightarrow> s_fiber_count w' = s_fiber_count w \<and> same_but_context g w w' \<and>
     (\<exists>fi. fibers w (idle_fiber l) = Some fi \<and>
        fibers w' (idle_fiber l) = Some (fi\<lparr>m_fcb := None, m_state := TERMINATED, m_ctx := Ctx_At (idle_fiber l)\<rparr>)) \<and>
     (\<forall>p. p \<noteq> g \<and> p \<noteq> idle_fiber l \<longrightarrow> fibers w' p = fibers w p)"

lemma fibers_keptI:
  assumes "s_fiber_count w' = s_fiber_count w" and "fibers w g = Some fg"
    and "fibers w' = (fibers w)(g \<mapsto> fg\<lparr>m_ctx := c\<rparr>) \<or>
      fibers w (idle_fiber l) = Some fi \<and> idle_fiber l \<noteq> g \<and> fibers w' = (fibers w)(g \<mapsto> fg\<lparr>m_ctx := c\<rparr>, idle_fiber l \<mapsto> fi\<lparr>m_ctx := c'\<rparr>)"
  shows "fibers_kept g l w w'"
  using assms by (auto simp: fibers_kept_def same_but_context_def)

lemma same_but_context_ended:
  assumes "same_but_context p w w1" and "fibers w1 p = Some f1"
  shows "\<exists>f. fibers w p = Some f \<and> f\<lparr>m_fcb := None, m_state := TERMINATED, m_ctx := c\<rparr> = f1\<lparr>m_fcb := None, m_state := TERMINATED, m_ctx := c\<rparr>"
proof -
  from assms obtain f where f: "fibers w p = Some f" "m_ctx_update (\<lambda>_. Ctx_None) f1 = m_ctx_update (\<lambda>_. Ctx_None) f"
    by (cases "fibers w p") (auto simp: same_but_context_def)
  then show ?thesis by (cases f; cases f1) simp
qed

lemma fibers_kept_ended: "fibers_kept g l w w1 \<Longrightarrow> fibers_ended g l w1 w' \<Longrightarrow> fibers_ended g l w w'"
  using same_but_context_ended [of "idle_fiber l" w w1 _ "Ctx_At (idle_fiber l)"]
  by (auto simp: fibers_kept_def fibers_ended_def) (auto simp: same_but_context_def)

definition drained ::
  "nat \<Rightarrow> run_locals \<Rightarrow> ('u, 'k) io_manager \<Rightarrow> 'u sched_fn fiber_world \<Rightarrow> ('u, 'k) io_manager \<Rightarrow> 'u sched_fn fiber_world \<Rightarrow> bool" where
  "drained g l io w io' w' \<longleftrightarrow> io_same io io' \<and> m_timers (im_timers io') = [] \<and>
     im_pipe_room io \<le> im_pipe_room io' + length (m_timers (im_timers io)) \<and>
     (\<exists>s'. im_schedulers io' (im_this io') = Some s' \<and> m_tasks s' = [] \<and> m_activeThreadCount s' = 0 \<and> m_idleThreadCount s' = 0) \<and>
     fibers_ended g l w w'"

lemma turn_ready_idled:
  assumes "turn_ready g np l w tc" and "fibers w g = Some fg" and "fibers w (idle_fiber l) = Some fi"
    and "fibers w' = (fibers w)(g \<mapsto> fg\<lparr>m_ctx := Ctx_At g\<rparr>, idle_fiber l \<mapsto> fi\<lparr>m_ctx := Ctx_At (idle_fiber l)\<rparr>)"
  shows "turn_ready g np l w' tc"
  using assms by (auto simp: turn_ready_def worker_wf_def task_ok_def ctx_target_def)

lemma io_turn_fails:
  fixes w :: "'u sched_fn fiber_world" and io :: "('u, 'k) io_manager"
  assumes r: "turn_ready g np l w tc" and s: "im_schedulers io (im_this io) = Some s" and q: "m_tasks s = []" and u: "\<not> uc_swap_fails u"
    and i: "io_idle_turn ep (in_now1 (inp k)) (in_now2 (inp k)) (in_probe (inp k)) (in_waits (inp k)) (in_events (inp k))
      (put_scheduler (s\<lparr>m_idleThreadCount := m_idleThreadCount s + 1\<rparr>) io) = Inl x"
  shows "io_run_turn u js jf stack np owned ep inp fx me k l io w tc = Inl x"
proof -
  have wf: "worker_wf g (w, tc)" and e: "t_exec tc = Some g"
    using r by (simp_all add: turn_ready_def)
  obtain fg where g: "fibers w g = Some fg" using wf e by (auto simp: worker_wf_def)
  obtain fi where fi: "fibers w (idle_fiber l) = Some fi" "m_state fi = READY" "idle_fiber l \<noteq> g"
    using r by (auto simp: turn_ready_def)
  have own: "own_scheduler io = Inr s" "put_scheduler s io = io" "run_lookup (fiber_running w) me s = (None, False, s)"
    using s q by (simp_all add: own_scheduler_def put_scheduler_same run_lookup_def)
  obtain w1 tc1 where "run_dispatch u stack np task_reset l s w tc = Inr (Some After_Idle, l, s\<lparr>m_idleThreadCount := m_idleThreadCount s + 1\<rparr>, w1, tc1)"
    using fi worker_resume_eq [OF wf e fi(3,1,2) u g] by (simp add: run_dispatch_def task_reset_def)
  then show ?thesis by (simp add: io_run_turn_def own io_exec_def i)
qed

text \<open>A turn that yields, by the effect of the idle fiber on the manager.\<close>

lemma io_turn_yields:
  fixes w :: "'u sched_fn fiber_world" and io :: "('u, 'k) io_manager"
  assumes r: "turn_ready g np l w tc" and s: "im_schedulers io (im_this io) = Some s" and q: "m_tasks s = []" and u: "\<not> uc_swap_fails u"
    and i: "io_idle_turn ep (in_now1 (inp k)) (in_now2 (inp k)) (in_probe (inp k)) (in_waits (inp k)) (in_events (inp k))
      (put_scheduler (s\<lparr>m_idleThreadCount := m_idleThreadCount s + 1\<rparr>) io) = Inr (Idle_Yields ps, io1)"
    and s1: "im_schedulers io1 (im_this io1) = Some s1"
  shows "\<exists>w'. io_run_turn u js jf stack np owned ep inp fx me k l io w tc =
      Inr ([], False, Suc k, l, put_scheduler (s1\<lparr>m_idleThreadCount := m_idleThreadCount s1 - 1\<rparr>) io1, w', tc) \<and>
      turn_ready g np l w' tc \<and> fibers_kept g l w w'"
proof -
  have wf: "worker_wf g (w, tc)" and e: "t_exec tc = Some g"
    using r by (simp_all add: turn_ready_def)
  obtain fg where g: "fibers w g = Some fg" using wf e by (auto simp: worker_wf_def)
  obtain fi where fi: "fibers w (idle_fiber l) = Some fi" "m_state fi = READY" "idle_fiber l \<noteq> g"
    using r by (auto simp: turn_ready_def)
  have "Idle_Yields ps \<noteq> Idle_Waits" by simp
  from io_turn_idle [where fx = fx and u = u and io = io and s = s and js = js and jf = jf and stack = stack and np = np and
      owned = owned and me = me and inp = inp and k = k and i = "inp k", OF wf e g s q fi u refl i this s1]
  obtain w' where "io_run_turn u js jf stack np owned ep inp fx me k l io w tc =
      Inr ([], False, Suc k, l, put_scheduler (s1\<lparr>m_idleThreadCount := m_idleThreadCount s1 - 1\<rparr>) io1, w', tc)"
    and w': "fibers w' = (fibers w)(g \<mapsto> fg\<lparr>m_ctx := Ctx_At g\<rparr>, idle_fiber l \<mapsto> fi\<lparr>m_ctx := Ctx_At (idle_fiber l)\<rparr>)" "s_fiber_count w' = s_fiber_count w"
    by auto
  with turn_ready_idled [OF r g fi(1) w'(1)] fibers_keptI [OF w'(2) g, of _ l fi] fi show ?thesis by blast
qed

text \<open>A turn with a callback, and one that collects what is due, keep all this.\<close>

lemma callback_draining:
  fixes io :: "('u, 'k) io_manager" and w :: "'u sched_fn fiber_world"
  assumes d: "draining me s io" and r: "turn_ready g np l w tc" and q: "m_tasks s = t # ts"
    and st: "stack \<noteq> 0" and u: "\<not> uc_swap_fails u" "\<not> uc_get_fails u" and own: "\<not> owned np"
    and body: "\<And>f. list_all (local_cb me) (body f)"
  shows "\<exists>f w'. tk_cb t = Some f \<and>
     io_run_turn u js jf stack np owned ep inp (\<lambda>f. post_tasks (body f)) me k l io w tc =
       Inr ([f], False, k, l, put_scheduler (after_cb body f ts s) io, w', tc) \<and>
     draining me (after_cb body f ts s) (put_scheduler (after_cb body f ts s) io) \<and>
     turn_ready g np l w' tc \<and> fibers_kept g l w w'"
proof -
  have wf: "worker_wf g (w, tc)" and e: "t_exec tc = Some g" and l: "cb_fiber l = None" and np: "fibers w np = None"
    using r by (simp_all add: turn_ready_def)
  obtain fg where g: "fibers w g = Some fg" using wf e by (auto simp: worker_wf_def)
  from d obtain f where t: "local_cb me t" "tk_cb t = Some f" and ts: "queued_cbs me ts"
    by (auto simp: draining_def q queued_cbs_Cons)
  have s: "im_schedulers io (im_this io) = Some s" "m_idleThreadCount s = 0" using d by (simp_all add: draining_def)
  let ?s1 = "s\<lparr>m_tasks := ts, m_activeThreadCount := m_activeThreadCount s + 1\<rparr>"
  have "post_tasks (body f) (put_scheduler ?s1 io) =
      Inr (put_scheduler (fold (\<lambda>t s. snd (schedule t s)) (body f) ?s1) (put_scheduler ?s1 io))"
    by (rule post_tasks_busy) (use s in \<open>simp_all add: hasIdleThreads_def\<close>)
  with io_turn_callback [where fx = "\<lambda>f. post_tasks (body f)" and u = u and io = io and s = s and owned = owned and js = js and jf = jf and ep = ep and inp = inp and k = k, OF wf e g s(1) q t s(2) l np st u own] obtain w' where
    turn: "io_run_turn u js jf stack np owned ep inp (\<lambda>f. post_tasks (body f)) me k l io w tc =
       Inr ([f], False, k, l, put_scheduler (after_cb body f ts s) io, w', tc)"
    and w': "fibers w' = (fibers w)(g \<mapsto> fg\<lparr>m_ctx := Ctx_At g\<rparr>)" "s_fiber_count w' = s_fiber_count w"
    by (auto simp: after_cb_def Let_def)
  have "draining me (after_cb body f ts s) (put_scheduler (after_cb body f ts s) io)"
    using d ts by (simp add: draining_def queued_cbs_append queued_cbs_filter [OF body])
  with turn t(2) fibers_keptI [OF w'(2) g] turn_ready_parked [OF r g w'(1)] w'(1) show ?thesis by blast
qed

lemma due_draining:
  fixes io :: "('u, 'k) io_manager" and w :: "'u sched_fn fiber_world"
  assumes d: "draining me s io" and r: "turn_ready g np l w tc" and q: "m_tasks s = []"
    and ne: "m_timers (im_timers io) \<noteq> []" and i: "idle_inputs inp k (im_timers io)" and u: "\<not> uc_swap_fails u"
  defines "due \<equiv> takeWhile (due_by (in_now2 (inp k))) (armed_list (im_timers io))"
  shows "\<exists>s1 io1 w'. io_run_turn u js jf stack np owned ep inp fx me k l io w tc = Inr ([], False, Suc k, l, io1, w', tc) \<and>
     draining me s1 io1 \<and> turn_ready g np l w' tc \<and> fibers_kept g l w w' \<and> m_tasks s1 = queued_fns (map snd due) \<and>
     armed_list (im_timers io1) = dropWhile (due_by (in_now2 (inp k))) (armed_list (im_timers io)) \<and>
     idle_inputs inp (Suc k) (im_timers io1) \<and> io_same io io1 \<and>
     im_pipe_room io \<le> im_pipe_room io1 + length due"
proof -
  have s: "im_schedulers io (im_this io) = Some s" "m_idleThreadCount s = 0" and one: "one_shots (im_timers io)"
    and room: "length (m_timers (im_timers io)) \<le> im_pipe_room io" using d by (simp_all add: draining_def)
  let ?s1 = "s\<lparr>m_idleThreadCount := m_idleThreadCount s + 1\<rparr>" and ?i = "inp k"
  let ?io = "put_scheduler ?s1 io"
  have "in_probe ?i \<notin> dom (timer_store (im_timers ?io))" "\<not> rolled_back (in_now2 ?i) (im_timers ?io)" "wait_returns ?i"
    using i by (auto simp: idle_inputs_def rolled_back_def)
  moreover have "hasIdleThreads ?s1" using s(2) by (simp add: hasIdleThreads_def)
  moreover have "0 < im_pipe_room ?io" using ne room by (cases "m_timers (im_timers io)") auto
  ultimately obtain ps m' where
    turn: "io_idle_turn ep (in_now1 ?i) (in_now2 ?i) (in_probe ?i) (in_waits ?i) (in_events ?i) ?io =
       Inr (Idle_Yields ps, put_scheduler (?s1\<lparr>m_tasks := queued_fns (map snd due)\<rparr>)
         (?io\<lparr>im_timers := m', im_pipe_room := im_pipe_room ?io - of_bool (due \<noteq> [])\<rparr>))"
    and m': "one_shots m'" "armed_list m' = dropWhile (due_by (in_now2 ?i)) (armed_list (im_timers io))"
      "dom (timer_store m') = dom (timer_store (im_timers io))" "m_previouseTime m' = in_now2 ?i"
    using idle_turn_due [where ep = ep and io = ?io and s = ?s1 and i = ?i] q one ne by (auto simp: due_def)
  let ?s2 = "s\<lparr>m_tasks := queued_fns (map snd due)\<rparr>"
  let ?io1 = "put_scheduler (?s1\<lparr>m_tasks := queued_fns (map snd due)\<rparr>)
         (?io\<lparr>im_timers := m', im_pipe_room := im_pipe_room ?io - of_bool (due \<noteq> [])\<rparr>)"
  obtain w' where t: "io_run_turn u js jf stack np owned ep inp fx me k l io w tc = Inr ([], False, Suc k, l, put_scheduler ?s2 ?io1, w', tc)"
    and w': "turn_ready g np l w' tc" "fibers_kept g l w w'"
    using io_turn_yields [where inp = inp and k = k and js = js and jf = jf and stack = stack and owned = owned and fx = fx and me = me,
        OF r s(1) q u turn, of "?s1\<lparr>m_tasks := queued_fns (map snd due)\<rparr>"] by auto
  have len: "length (m_timers m') + length due = length (m_timers (im_timers io))"
    using arg_cong [OF m'(2), of length] length_split_while [of "due_by (in_now2 ?i)" "armed_list (im_timers io)"]
    by (simp add: length_armed_list due_def)
  then have "draining me ?s2 (put_scheduler ?s2 ?io1)"
    using d m'(1) by (cases due) (auto simp: draining_def queued_cbs_def queued_fns_def local_cb_def)
  moreover have "idle_inputs inp (Suc k) (im_timers (put_scheduler ?s2 ?io1))"
    using i m' monoD [of "\<lambda>j. in_now2 (inp j)" k "Suc k"] by (auto simp: idle_inputs_def)
  moreover have "io_same io (put_scheduler ?s2 ?io1)"
    using s(1) by (auto simp: io_same_def put_scheduler_def alive_def fun_eq_iff)
  moreover have "im_pipe_room io \<le> im_pipe_room (put_scheduler ?s2 ?io1) + length due" by (cases due) simp_all
  ultimately show ?thesis
    using t w' m'(2)
    by (intro exI [of _ ?s2] exI [of _ "put_scheduler ?s2 ?io1"] exI [of _ w']) simp
qed

text \<open>The turn in which the idle fiber ends.\<close>

lemma end_drained:
  fixes io :: "('u, 'k) io_manager" and w :: "'u sched_fn fiber_world"
  assumes d: "draining me s io" and r: "turn_ready g np l w tc" and q: "m_tasks s = []"
    and none: "m_timers (im_timers io) = []" and u: "\<not> uc_swap_fails u"
  shows "\<exists>io1 w'. io_run_turn u js jf stack np owned ep inp fx me k l io w tc = Inr ([], False, Suc k, l, io1, w', tc) \<and>
     drained g l io w io1 w'"
proof -
  have wf: "worker_wf g (w, tc)" and e: "t_exec tc = Some g"
    using r by (simp_all add: turn_ready_def)
  obtain fg where g: "fibers w g = Some fg" using wf e by (auto simp: worker_wf_def)
  obtain fi where fi: "fibers w (idle_fiber l) = Some fi" "m_state fi = READY" "idle_fiber l \<noteq> g"
    using r by (auto simp: turn_ready_def)
  have s: "im_schedulers io (im_this io) = Some s" using d by (simp add: draining_def)
  let ?s1 = "s\<lparr>m_idleThreadCount := m_idleThreadCount s + 1\<rparr>" and ?i = "inp k"
  let ?io = "put_scheduler ?s1 io"
  let ?io1 = "?io\<lparr>im_timers := snd (get_next_timer (in_now1 ?i) (im_timers ?io))\<rparr>"
  have turn: "io_idle_turn ep (in_now1 ?i) (in_now2 ?i) (in_probe ?i) (in_waits ?i) (in_events ?i) ?io = Inr (Idle_Ends, ?io1)"
    by (rule idle_turn_ends [where s = ?s1]) (use d q none in \<open>simp_all add: draining_def scheduler_stopping_def\<close>)
  obtain w' where t: "io_run_turn u js jf stack np owned ep inp fx me k l io w tc = Inr ([], False, Suc k, l, put_scheduler s ?io1, w', tc)"
    and w': "fibers w' = (fibers w)(g \<mapsto> fg\<lparr>m_ctx := Ctx_At g\<rparr>, idle_fiber l \<mapsto>
       fi\<lparr>m_fcb := None, m_state := TERMINATED, m_ctx := Ctx_At (idle_fiber l)\<rparr>)" "s_fiber_count w' = s_fiber_count w"
    using io_turn_idle [where fx = fx and u = u and io = io and s = s and js = js and jf = jf and stack = stack and np = np and
        owned = owned and me = me and inp = inp and k = k and i = "inp k", OF wf e g s q fi u refl turn] by auto
  have "fibers_ended g l w w'" using w' g fi by (simp add: fibers_ended_def same_but_context_def)
  then have "drained g l io w (put_scheduler s ?io1) w'"
    using d none q by (auto simp: drained_def draining_def io_same_def put_scheduler_def alive_def fun_eq_iff)
  with t show ?thesis by blast
qed

lemma drained_after:
  assumes "drained g l io1 w1 io' w'" and "io_same io io1" and "fibers_kept g l w w1"
    and "im_pipe_room io + length (m_timers (im_timers io1)) \<le> im_pipe_room io1 + length (m_timers (im_timers io))"
  shows "drained g l io w io' w'"
  using assms by (auto simp: drained_def intro: io_same_trans fibers_kept_ended)

abbreviation scheduled_fns :: "('u sched_fn \<Rightarrow> 'u sched_task list) \<Rightarrow> 'u sched_fn \<Rightarrow> 'u sched_fn list" where
  "scheduled_fns body \<equiv> \<lambda>f. List.map_filter tk_cb (body f)"

lemma map_filter_queued_fns: "List.map_filter tk_cb (queued_fns fs) = fs"
  by (induction fs) (simp_all add: queued_fns_def map_filter_simps)

lemma sum_split_while:
  "sum_list (map W (map snd (takeWhile P xs))) + sum_list (map W (map snd (dropWhile P xs))) = (sum_list (map W (map snd xs)) :: nat)"
  by (induction xs) simp_all

lemma io_run_loop_drains:
  fixes io :: "('u, 'k) io_manager" and w :: "'u sched_fn fiber_world" and body :: "'u sched_fn \<Rightarrow> 'u sched_task list" and inp :: "nat \<Rightarrow> idle_input"
  assumes st: "stack \<noteq> 0" and u: "\<not> uc_swap_fails u" "\<not> uc_get_fails u" and own: "\<not> owned np"
    and W: "work_bound body W" and body: "\<And>f. list_all (local_cb me) (body f)"
  defines "b \<equiv> scheduled_fns body" and "clock \<equiv> \<lambda>j. in_now2 (inp j)"
  shows "turn_ready g np l w tc \<Longrightarrow> draining me s io \<Longrightarrow> idle_inputs inp k (im_timers io) \<Longrightarrow>
    all_due clock k K (armed_list (im_timers io)) \<Longrightarrow>
    sum_list (map W (List.map_filter tk_cb (m_tasks s))) + sum_list (map W (map snd (armed_list (im_timers io)))) + (Suc K - k) + 2 \<le> n \<Longrightarrow>
    \<exists>k' io' w'. io_run_loop n u js jf stack np owned ep inp (\<lambda>f. post_tasks (body f)) me k l io w tc =
        Inr (timed_run b clock n k (List.map_filter tk_cb (m_tasks s)) (armed_list (im_timers io)), True, k', l, io', w', tc) \<and>
      drained g l io w io' w'"
proof (induction n arbitrary: s io w k)
  case (Suc n)
  let ?ts = "armed_list (im_timers io)"
  show ?case
  proof (cases "m_tasks s")
    case (Cons t ts)
    obtain f w1 where f: "tk_cb t = Some f" and
      turn: "io_run_turn u js jf stack np owned ep inp (\<lambda>f. post_tasks (body f)) me k l io w tc =
         Inr ([f], False, k, l, put_scheduler (after_cb body f ts s) io, w1, tc)"
      and next': "draining me (after_cb body f ts s) (put_scheduler (after_cb body f ts s) io)" "turn_ready g np l w1 tc" "fibers_kept g l w w1"
      using callback_draining [where ep = ep and inp = inp and k = k and js = js and jf = jf and owned = owned and body = body, OF Suc.prems(2,1) Cons st u own body] by blast
    have fns: "List.map_filter tk_cb (m_tasks (after_cb body f ts s)) = List.map_filter tk_cb ts @ b f"
      by (simp add: map_filter_append map_filter_nonempty [OF body] b_def)
    have "sum_list (map W (b f)) < W f" using W by (simp add: work_bound_def b_def)
    with Suc.prems(5) have n: "sum_list (map W (List.map_filter tk_cb (m_tasks (after_cb body f ts s)))) + sum_list (map W (map snd ?ts)) + (Suc K - k) + 2 \<le> n"
      unfolding fns by (simp add: Cons f map_filter_simps)
    from Suc.IH [OF next'(2,1), of k] Suc.prems(3,4) n obtain k' io' w' where
      loop: "io_run_loop n u js jf stack np owned ep inp (\<lambda>f. post_tasks (body f)) me k l (put_scheduler (after_cb body f ts s) io) w1 tc =
        Inr (timed_run b clock n k (List.map_filter tk_cb ts @ b f) ?ts, True, k', l, io', w', tc)"
      and dr: "drained g l (put_scheduler (after_cb body f ts s) io) w1 io' w'"
      unfolding fns by auto
    have "im_schedulers io (im_this io) = Some s" using Suc.prems(2) by (simp add: draining_def)
    then have "drained g l io w io' w'"
      by (intro drained_after [OF dr _ next'(3)]) (simp_all add: put_scheduler_alive)
    with turn loop f show ?thesis by (simp add: Cons map_filter_simps)
  next
    case Nil
    show ?thesis
    proof (cases "m_timers (im_timers io) = []")
      case True
      obtain io1 w1 where turn: "io_run_turn u js jf stack np owned ep inp (\<lambda>f. post_tasks (body f)) me k l io w tc = Inr ([], False, Suc k, l, io1, w1, tc)"
        and dr: "drained g l io w io1 w1"
        using end_drained [OF Suc.prems(2,1) Nil True u(1)] by blast
      obtain m where m: "n = Suc m" using Suc.prems(5) by (cases n) auto
      obtain s1 where "im_schedulers io1 (im_this io1) = Some s1" "m_tasks s1 = []" "map_option m_state (fibers w1 (idle_fiber l)) = Some TERMINATED"
        using dr by (auto simp: drained_def fibers_ended_def)
      from io_turn_exit [OF this] turn dr True show ?thesis by (simp add: m Nil map_filter_simps armed_list_def)
    next
      case False
      let ?d = "takeWhile (due_by (clock k)) ?ts" and ?r = "dropWhile (due_by (clock k)) ?ts"
      obtain s1 io1 w1 where turn: "io_run_turn u js jf stack np owned ep inp (\<lambda>f. post_tasks (body f)) me k l io w tc = Inr ([], False, Suc k, l, io1, w1, tc)"
        and next': "draining me s1 io1" "turn_ready g np l w1 tc" "fibers_kept g l w w1" "m_tasks s1 = queued_fns (map snd ?d)"
          "armed_list (im_timers io1) = ?r" "idle_inputs inp (Suc k) (im_timers io1)" "io_same io io1" "im_pipe_room io \<le> im_pipe_room io1 + length ?d"
        using due_draining [OF Suc.prems(2,1) Nil False Suc.prems(3) u(1)] unfolding clock_def by blast
      have ne: "?ts \<noteq> []" using False by simp
      then have kK: "k \<le> K" using Suc.prems(4) by (simp add: all_due_def)
      have due: "all_due clock (Suc k) K (armed_list (im_timers io1))" using all_due_Suc [OF Suc.prems(4)] next'(5) by simp
      have fns: "List.map_filter tk_cb (m_tasks s1) = map snd ?d" by (simp only: next'(4) map_filter_queued_fns)
      have "sum_list (map W (map snd ?d)) + sum_list (map W (map snd ?r)) + (Suc K - Suc k) + 2 \<le> n"
        using Suc.prems(5) kK sum_split_while [of W "due_by (clock k)" ?ts] by (simp add: Nil map_filter_simps)
      from Suc.IH [OF next'(2,1,6) due] this obtain k' io' w' where
        loop: "io_run_loop n u js jf stack np owned ep inp (\<lambda>f. post_tasks (body f)) me (Suc k) l io1 w1 tc =
          Inr (timed_run b clock n (Suc k) (map snd ?d) ?r, True, k', l, io', w', tc)"
        and dr: "drained g l io1 w1 io' w'"
        unfolding fns next'(5) by blast
      have "length (m_timers (im_timers io1)) + length ?d = length (m_timers (im_timers io))"
        using length_split_while [of "due_by (clock k)" ?ts] arg_cong [OF next'(5), of length] by (simp add: length_armed_list)
      with next'(8) have "drained g l io w io' w'" by (intro drained_after [OF dr next'(7,3)]) simp
      moreover have "timed_run b clock (Suc n) k [] ?ts = timed_run b clock n (Suc k) (map snd ?d) ?r"
        using ne by (cases ?ts) simp_all
      ultimately show ?thesis using turn loop by (simp add: Nil map_filter_simps)
    qed
  qed
qed simp

section \<open>A timer that recurs\<close>

text \<open>
  The only timer of a manager: callback, period and next deadline. The manager's thread is between
  two turns.
\<close>

definition ticking :: "nat \<Rightarrow> 'u sched_fn \<Rightarrow> millis \<Rightarrow> millis \<Rightarrow> 'u sched_fn timer_manager \<Rightarrow> bool" where
  "ticking p f ms d m \<longleftrightarrow> tm_wf m \<and> m_timers m = [p] \<and>
     timer_store m p = Some \<lparr>m_recurring = True, m_ms = ms, m_next = d, m_cb = Some f\<rparr>"

definition ticker :: "nat \<Rightarrow> 'u sched_fn \<Rightarrow> millis \<Rightarrow> millis \<Rightarrow> 'u scheduler \<Rightarrow> ('u, 'k) io_manager \<Rightarrow> bool" where
  "ticker p f ms d s io \<longleftrightarrow> im_schedulers io (im_this io) = Some s \<and> m_idleThreadCount s = 0 \<and> ticking p f ms d (im_timers io)"

lemma expire_ticking:
  assumes m: "ticking p f ms d m" and a: "a \<notin> dom (timer_store m)"
  shows "\<not> rolled_back now m \<and> now < d \<Longrightarrow>
     \<exists>m'. list_expired_cb now a [] m = Inr ([], m') \<and> ticking p f ms d m' \<and> dom (timer_store m') = dom (timer_store m)"
    and "rolled_back now m \<or> d \<le> now \<Longrightarrow> ms_in_range (now + ms) \<Longrightarrow>
     \<exists>m'. list_expired_cb now a [] m = Inr ([Some f], m') \<and> ticking p f ms (now + ms) m' \<and> dom (timer_store m') = dom (timer_store m)"
    and "rolled_back now m \<or> d \<le> now \<Longrightarrow> \<not> ms_in_range (now + ms) \<Longrightarrow> \<exists>x. list_expired_cb now a [] m = Inl x"
proof -
  have wf: "tm_wf m" and t: "m_timers m = [p]" "timer_store m p = Some \<lparr>m_recurring = True, m_ms = ms, m_next = d, m_cb = Some f\<rparr>"
    using m by (simp_all add: ticking_def)
  have ne: "m_timers m \<noteq> []" using t by simp
  note eq = list_expired_eq [OF wf a ne, of now]
  {
    assume n: "\<not> rolled_back now m \<and> now < d"
    let ?m = "m\<lparr>m_previouseTime := now\<rparr>"
    have x: "list_expired_cb now a [] m = Inr ([], ?m)" using n t by (simp add: eq expired_timers_def)
    moreover have "ticking p f ms d ?m" using list_expired_Inr(4) [OF wf a x] t by (simp add: ticking_def)
    ultimately show "\<exists>m'. list_expired_cb now a [] m = Inr ([], m') \<and> ticking p f ms d m' \<and> dom (timer_store m') = dom (timer_store m)"
      by (intro exI [of _ ?m]) simp
  next
    assume n: "rolled_back now m \<or> d \<le> now"
    then have e: "expired_timers now m = [p]" using t by (auto simp: expired_timers_def)
    {
      assume r: "ms_in_range (now + ms)"
      then obtain m' where x: "list_expired_cb now a [] m = Inr ([Some f], m')"
        and m': "m_timers m' = [p]" "timer_store m' = (timer_store m)(p \<mapsto> \<lparr>m_recurring = True, m_ms = ms, m_next = now + ms, m_cb = Some f\<rparr>)"
        using t by (simp add: eq e ms_add_def set_insert_def Let_def)
      then have "ticking p f ms (now + ms) m'" using list_expired_Inr(4) [OF wf a x] by (simp add: ticking_def)
      moreover have "dom (timer_store m') = dom (timer_store m)" using m'(2) t(2) by auto
      ultimately show "\<exists>m'. list_expired_cb now a [] m = Inr ([Some f], m') \<and> ticking p f ms (now + ms) m' \<and> dom (timer_store m') = dom (timer_store m)"
        using x by blast
    next
      assume "\<not> ms_in_range (now + ms)"
      then show "\<exists>x. list_expired_cb now a [] m = Inl x" using t by (simp add: eq e ms_add_def)
    }
  }
qed

text \<open>The idle fiber's turn, in its four cases.\<close>

lemma ticking_next:
  assumes "ticking p f ms d m"
  shows "ticking p f ms d (snd (get_next_timer now m))" and "fst (get_next_timer now m) \<noteq> ms_none"
    and "rolled_back now' (snd (get_next_timer now m)) = rolled_back now' m"
proof -
  have wf: "tm_wf m" and ne: "m_timers m \<noteq> []" using assms by (simp_all add: ticking_def)
  show "ticking p f ms d (snd (get_next_timer now m))"
    using assms get_next_timer_wf [OF wf] by (simp add: ticking_def)
  show "fst (get_next_timer now m) \<noteq> ms_none" using tsrc.next_none [OF wf] ne by blast
  show "rolled_back now' (snd (get_next_timer now m)) = rolled_back now' m"
    by (simp add: rolled_back_def get_next_timer_def Let_def split: list.split)
qed

lemma idle_turn_ticks:
  fixes io :: "('u, 'k) io_manager" and ep :: "'k epoll"
  assumes s: "im_schedulers io (im_this io) = Some s" and q: "m_tasks s = []" and idle: "hasIdleThreads s"
    and m: "ticking p f ms d (im_timers io)" and a: "in_probe i \<notin> dom (timer_store (im_timers io))" and w: "wait_returns i"
  defines "turn \<equiv> io_idle_turn ep (in_now1 i) (in_now2 i) (in_probe i) (in_waits i) (in_events i) io"
    and "due \<equiv> rolled_back (in_now2 i) (im_timers io) \<or> d \<le> in_now2 i"
  shows "\<not> due \<Longrightarrow> \<exists>ps m'. turn = Inr (Idle_Yields ps, io\<lparr>im_timers := m'\<rparr>) \<and> ticking p f ms d m' \<and>
       dom (timer_store m') = dom (timer_store (im_timers io))"
    and "due \<Longrightarrow> ms_in_range (in_now2 i + ms) \<Longrightarrow> 0 < im_pipe_room io \<Longrightarrow>
     \<exists>ps m'. turn = Inr (Idle_Yields ps, put_scheduler (s\<lparr>m_tasks := queued_fns [f]\<rparr>) (io\<lparr>im_timers := m', im_pipe_room := im_pipe_room io - 1\<rparr>)) \<and>
       ticking p f ms (in_now2 i + ms) m' \<and> dom (timer_store m') = dom (timer_store (im_timers io))"
    and "due \<Longrightarrow> ms_in_range (in_now2 i + ms) \<Longrightarrow> im_pipe_room io = 0 \<Longrightarrow> turn = Inl Would_Block"
    and "due \<Longrightarrow> \<not> ms_in_range (in_now2 i + ms) \<Longrightarrow> \<exists>x. turn = Inl x"
proof -
  let ?n = "get_next_timer (in_now1 i) (im_timers io)"
  note k = ticking_next [OF m, where now = "in_now1 i"]
  have st: "io_stopping (in_now1 i) io = Inr (False, fst ?n, io\<lparr>im_timers := snd ?n\<rparr>)"
    using k(2) by (simp add: io_stopping_def own_scheduler_def s split_beta)
  obtain ps where ps: "idle_wait 0 (fst ?n) (in_waits i) = Some (ps, 0)"
    using idle_wait_returns w unfolding wait_returns_def by blast
  have a': "in_probe i \<notin> dom (timer_store (snd ?n))" using a by (simp only: get_next_timer_keeps not_False_eq_True)
  note ex = expire_ticking [OF k(1) a', where now = "in_now2 i", unfolded k(3) get_next_timer_keeps]
  have run: "turn = obind (list_expired_cb (in_now2 i) (in_probe i) [] (snd ?n)) (\<lambda>(cbs, m').
      obind (post_callbacks cbs (io\<lparr>im_timers := m'\<rparr>)) (\<lambda>io2. Inr (Idle_Yields ps, io2)))"
    by (simp add: turn_def io_idle_turn_def st ps)
  have due': "due \<longleftrightarrow> \<not> (\<not> rolled_back (in_now2 i) (im_timers io) \<and> in_now2 i < d)" by (auto simp: due_def)
  {
    assume "\<not> due"
    then obtain m' where "list_expired_cb (in_now2 i) (in_probe i) [] (snd ?n) = Inr ([], m')" "ticking p f ms d m'"
      "dom (timer_store m') = dom (timer_store (im_timers io))" using ex(1) due' by blast
    then show "\<exists>ps m'. turn = Inr (Idle_Yields ps, io\<lparr>im_timers := m'\<rparr>) \<and> ticking p f ms d m' \<and>
       dom (timer_store m') = dom (timer_store (im_timers io))" by (intro exI [of _ ps] exI [of _ m']) (simp add: run)
  next
    assume due and r: "ms_in_range (in_now2 i + ms)"
    then obtain m' where x: "list_expired_cb (in_now2 i) (in_probe i) [] (snd ?n) = Inr ([Some f], m')" and m': "ticking p f ms (in_now2 i + ms) m'"
      "dom (timer_store m') = dom (timer_store (im_timers io))" using ex(2) due_def by blast
    have p: "post_callbacks [Some f] (io\<lparr>im_timers := m'\<rparr>) =
       (if im_pipe_room io = 0 then Inl Would_Block
        else Inr (put_scheduler (s\<lparr>m_tasks := queued_fns [f]\<rparr>) (io\<lparr>im_timers := m', im_pipe_room := im_pipe_room io - 1\<rparr>)))"
      using post_due [of "io\<lparr>im_timers := m'\<rparr>" s "[f]"] s q idle by simp
    {
      assume "0 < im_pipe_room io"
      with x m' p show "\<exists>ps m'. turn = Inr (Idle_Yields ps, put_scheduler (s\<lparr>m_tasks := queued_fns [f]\<rparr>) (io\<lparr>im_timers := m', im_pipe_room := im_pipe_room io - 1\<rparr>)) \<and>
       ticking p f ms (in_now2 i + ms) m' \<and> dom (timer_store m') = dom (timer_store (im_timers io))"
        unfolding run by (intro exI [of _ ps] exI [of _ m']) (simp del: post_callbacks.simps)
    next
      assume "im_pipe_room io = 0"
      with x p show "turn = Inl Would_Block" unfolding run by (simp del: post_callbacks.simps)
    }
  next
    assume due and "\<not> ms_in_range (in_now2 i + ms)"
    then show "\<exists>x. turn = Inl x" using ex(3) due_def by (auto simp: run)
  }
qed

definition tick_inputs :: "(nat \<Rightarrow> idle_input) \<Rightarrow> 'u sched_fn timer_manager \<Rightarrow> bool" where
  "tick_inputs inp m \<longleftrightarrow> (\<forall>j. wait_returns (inp j) \<and> in_probe (inp j) \<notin> dom (timer_store m))"

lemma tick_turn:
  fixes w :: "'u sched_fn fiber_world" and io :: "('u, 'k) io_manager" and ep :: "'k epoll"
    and k me :: nat and fx owned stack jf js
  assumes tk: "ticker p f ms d s io" and q: "m_tasks s = []" and r: "turn_ready g np l w tc" and i: "tick_inputs inp (im_timers io)"
    and u: "\<not> uc_swap_fails u"
  defines "turn \<equiv> io_run_turn u js jf stack np owned ep inp fx me k l io w tc" and "now \<equiv> in_now2 (inp k)"
    and "due \<equiv> rolled_back (in_now2 (inp k)) (im_timers io) \<or> d \<le> in_now2 (inp k)"
  shows "\<not> due \<Longrightarrow> \<exists>io1 w'. turn = Inr ([], False, Suc k, l, io1, w', tc) \<and> turn_ready g np l w' tc \<and> ticker p f ms d s io1 \<and>
       tick_inputs inp (im_timers io1) \<and> im_pipe_room io1 = im_pipe_room io"
    and "due \<Longrightarrow> ms_in_range (now + ms) \<Longrightarrow> 0 < im_pipe_room io \<Longrightarrow>
     \<exists>s1 io1 w'. turn = Inr ([], False, Suc k, l, io1, w', tc) \<and> turn_ready g np l w' tc \<and> ticker p f ms (now + ms) s1 io1 \<and>
       m_tasks s1 = queued_fns [f] \<and> tick_inputs inp (im_timers io1) \<and> im_pipe_room io1 = im_pipe_room io - 1"
    and "due \<Longrightarrow> ms_in_range (now + ms) \<Longrightarrow> im_pipe_room io = 0 \<Longrightarrow> turn = Inl Would_Block"
    and "due \<Longrightarrow> \<not> ms_in_range (now + ms) \<Longrightarrow> \<exists>x. turn = Inl x"
proof -
  let ?s1 = "s\<lparr>m_idleThreadCount := m_idleThreadCount s + 1\<rparr>" and ?i = "inp k"
  let ?io = "put_scheduler ?s1 io"
  have s: "im_schedulers io (im_this io) = Some s" "m_idleThreadCount s = 0" and m: "ticking p f ms d (im_timers ?io)"
    using tk by (simp_all add: ticker_def)
  have a: "in_probe ?i \<notin> dom (timer_store (im_timers ?io))" "wait_returns ?i" using i by (simp_all add: tick_inputs_def)
  have idle: "hasIdleThreads ?s1" "m_tasks ?s1 = []" "im_schedulers ?io (im_this ?io) = Some ?s1"
    using s(2) q by (simp_all add: hasIdleThreads_def)
  note ticks = idle_turn_ticks [OF idle(3,2,1) m a, of ep]
  have due: "due \<longleftrightarrow> rolled_back (in_now2 ?i) (im_timers ?io) \<or> d \<le> in_now2 ?i" by (simp add: due_def)
  note yields = io_turn_yields [where inp = inp and k = k and js = js and jf = jf and stack = stack and owned = owned and fx = fx and me = me, OF r s(1) q u]
  {
    assume "\<not> due"
    then obtain ps m' where t: "io_idle_turn ep (in_now1 ?i) (in_now2 ?i) (in_probe ?i) (in_waits ?i) (in_events ?i) ?io = Inr (Idle_Yields ps, ?io\<lparr>im_timers := m'\<rparr>)"
      and m': "ticking p f ms d m'" "dom (timer_store m') = dom (timer_store (im_timers io))" using ticks(1) due by auto
    obtain w' where "turn = Inr ([], False, Suc k, l, put_scheduler s (?io\<lparr>im_timers := m'\<rparr>), w', tc)" "turn_ready g np l w' tc"
      using yields [OF t, of ?s1] by (auto simp: turn_def)
    then show "\<exists>io1 w'. turn = Inr ([], False, Suc k, l, io1, w', tc) \<and> turn_ready g np l w' tc \<and> ticker p f ms d s io1 \<and>
       tick_inputs inp (im_timers io1) \<and> im_pipe_room io1 = im_pipe_room io"
      using m' i s(2) by (intro exI [of _ "put_scheduler s (?io\<lparr>im_timers := m'\<rparr>)"] exI [of _ w']) (simp add: ticker_def tick_inputs_def)
  next
    assume due and "ms_in_range (now + ms)" and "0 < im_pipe_room io"
    let ?s2 = "s\<lparr>m_tasks := queued_fns [f]\<rparr>" and ?s3 = "?s1\<lparr>m_tasks := queued_fns [f]\<rparr>"
    obtain ps m' where t: "io_idle_turn ep (in_now1 ?i) (in_now2 ?i) (in_probe ?i) (in_waits ?i) (in_events ?i) ?io =
        Inr (Idle_Yields ps, put_scheduler ?s3 (?io\<lparr>im_timers := m', im_pipe_room := im_pipe_room io - 1\<rparr>))"
      and m': "ticking p f ms (now + ms) m'" "dom (timer_store m') = dom (timer_store (im_timers io))"
      using ticks(2) due \<open>due\<close> \<open>ms_in_range (now + ms)\<close> \<open>0 < im_pipe_room io\<close> by (auto simp: now_def)
    let ?io1 = "put_scheduler ?s2 (put_scheduler ?s3 (?io\<lparr>im_timers := m', im_pipe_room := im_pipe_room io - 1\<rparr>))"
    obtain w' where "turn = Inr ([], False, Suc k, l, ?io1, w', tc)" "turn_ready g np l w' tc"
      using yields [OF t, of ?s3] by (auto simp: turn_def)
    then show "\<exists>s1 io1 w'. turn = Inr ([], False, Suc k, l, io1, w', tc) \<and> turn_ready g np l w' tc \<and> ticker p f ms (now + ms) s1 io1 \<and>
       m_tasks s1 = queued_fns [f] \<and> tick_inputs inp (im_timers io1) \<and> im_pipe_room io1 = im_pipe_room io - 1"
      using m' i s(2) by (intro exI [of _ ?s2] exI [of _ ?io1] exI [of _ w']) (simp add: ticker_def tick_inputs_def)
  next
    assume due and "ms_in_range (now + ms)" and "im_pipe_room io = 0"
    with ticks(3) due show "turn = Inl Would_Block"
      unfolding turn_def by (intro io_turn_fails [where inp = inp and k = k, OF r s(1) q u]) (simp add: now_def)
  next
    assume due and "\<not> ms_in_range (now + ms)"
    with ticks(4) due obtain x where "io_idle_turn ep (in_now1 ?i) (in_now2 ?i) (in_probe ?i) (in_waits ?i) (in_events ?i) ?io = Inl x"
      by (auto simp: now_def)
    then show "\<exists>x. turn = Inl x" unfolding turn_def using io_turn_fails [where inp = inp and k = k, OF r s(1) q u] by blast
  }
qed

lemma tick_callback:
  fixes w :: "'u sched_fn fiber_world" and io :: "('u, 'k) io_manager"
  assumes tk: "ticker p f ms d s io" and q: "m_tasks s = queued_fns [f]" and r: "turn_ready g np l w tc"
    and st: "stack \<noteq> 0" and u: "\<not> uc_swap_fails u" "\<not> uc_get_fails u" and own: "\<not> owned np"
  shows "\<exists>s1 io1 w'. io_run_turn u js jf stack np owned ep inp (\<lambda>_. Inr) me k l io w tc = Inr ([f], False, k, l, io1, w', tc) \<and>
     turn_ready g np l w' tc \<and> ticker p f ms d s1 io1 \<and> m_tasks s1 = [] \<and>
     im_timers io1 = im_timers io \<and> im_pipe_room io1 = im_pipe_room io"
proof -
  have wf: "worker_wf g (w, tc)" and e: "t_exec tc = Some g" and l: "cb_fiber l = None" and np: "fibers w np = None"
    using r by (simp_all add: turn_ready_def)
  obtain fg where g: "fibers w g = Some fg" using wf e by (auto simp: worker_wf_def)
  have s: "im_schedulers io (im_this io) = Some s" "m_idleThreadCount s = 0" using tk by (simp_all add: ticker_def)
  have t: "m_tasks s = task_of_cb (Some f) None # []" "local_cb me (task_of_cb (Some f) None)" "tk_cb (task_of_cb (Some f) None) = Some f"
    using q by (simp_all add: queued_fns_def local_cb_def)
  let ?s1 = "s\<lparr>m_tasks := [], m_activeThreadCount := m_activeThreadCount s + 1\<rparr>"
  let ?s2 = "?s1\<lparr>m_activeThreadCount := m_activeThreadCount ?s1 - 1\<rparr>"
  obtain w' where "io_run_turn u js jf stack np owned ep inp (\<lambda>_. Inr) me k l io w tc = Inr ([f], False, k, l, put_scheduler ?s2 io, w', tc)"
    and w': "fibers w' = (fibers w)(g \<mapsto> fg\<lparr>m_ctx := Ctx_At g\<rparr>)"
    using io_turn_callback [where fx = "\<lambda>_. Inr" and u = u and io = io and s = s and owned = owned and js = js and jf = jf and ep = ep and
        inp = inp and k = k, OF wf e g s(1) t s(2) l np st u own] by auto
  then show ?thesis
    using tk turn_ready_parked [OF r g w'] by (intro exI [of _ ?s2] exI [of _ "put_scheduler ?s2 io"] exI [of _ w']) (simp add: ticker_def)
qed

text \<open>Whatever the clock says, the callback is executed at most as often as the pipe has room.\<close>

lemma tick_loop_bound:
  fixes w :: "'u sched_fn fiber_world" and io :: "('u, 'k) io_manager"
  assumes st: "stack \<noteq> 0" and u: "\<not> uc_swap_fails u" "\<not> uc_get_fails u" and own: "\<not> owned np"
  shows "ticker p f ms d s io \<Longrightarrow> m_tasks s = [] \<or> m_tasks s = queued_fns [f] \<Longrightarrow> turn_ready g np l w tc \<Longrightarrow>
    tick_inputs inp (im_timers io) \<Longrightarrow>
    io_run_loop n u js jf stack np owned ep inp (\<lambda>_. Inr) me k l io w tc = Inr (fs, ended, rest) \<Longrightarrow>
    \<not> ended \<and> (\<exists>m \<le> im_pipe_room io + length (m_tasks s). fs = replicate m f)"
proof (induction n arbitrary: d s io w k fs)
  case (Suc n)
  let ?turn = "io_run_turn u js jf stack np owned ep inp (\<lambda>_. Inr) me k l io w tc"
  show ?case
  proof (cases "m_tasks s = []")
    case True
    note turn = tick_turn [OF Suc.prems(1) True Suc.prems(3,4) u(1), of k js jf stack owned ep "\<lambda>_. Inr" me]
    have "?turn \<noteq> Inl x" for x using Suc.prems(5) by auto
    with turn(3,4) have "(\<not> (rolled_back (in_now2 (inp k)) (im_timers io) \<or> d \<le> in_now2 (inp k))) \<or>
       ((rolled_back (in_now2 (inp k)) (im_timers io) \<or> d \<le> in_now2 (inp k)) \<and> ms_in_range (in_now2 (inp k) + ms) \<and> 0 < im_pipe_room io)" by blast
    then show ?thesis
    proof
      assume "\<not> (rolled_back (in_now2 (inp k)) (im_timers io) \<or> d \<le> in_now2 (inp k))"
      from turn(1) [OF this] obtain io1 w1 where t: "?turn = Inr ([], False, Suc k, l, io1, w1, tc)" "turn_ready g np l w1 tc" "ticker p f ms d s io1"
        "tick_inputs inp (im_timers io1)" "im_pipe_room io1 = im_pipe_room io" by blast
      from Suc.prems(5) t(1) have "io_run_loop n u js jf stack np owned ep inp (\<lambda>_. Inr) me (Suc k) l io1 w1 tc = Inr (fs, ended, rest)"
        by (auto elim!: obind_InrE)
      from Suc.IH [OF t(3) _ t(2,4) this] True t(5) show ?thesis by simp
    next
      assume due: "(rolled_back (in_now2 (inp k)) (im_timers io) \<or> d \<le> in_now2 (inp k)) \<and> ms_in_range (in_now2 (inp k) + ms) \<and> 0 < im_pipe_room io"
      obtain s1 io1 w1 where t: "?turn = Inr ([], False, Suc k, l, io1, w1, tc)" "turn_ready g np l w1 tc" "ticker p f ms (in_now2 (inp k) + ms) s1 io1"
        "m_tasks s1 = queued_fns [f]" "tick_inputs inp (im_timers io1)" "im_pipe_room io1 = im_pipe_room io - 1" using turn(2) [OF conjunct1 [OF due] conjunct1 [OF conjunct2 [OF due]] conjunct2 [OF conjunct2 [OF due]]] by auto
      from Suc.prems(5) t(1) have "io_run_loop n u js jf stack np owned ep inp (\<lambda>_. Inr) me (Suc k) l io1 w1 tc = Inr (fs, ended, rest)"
        by (auto elim!: obind_InrE)
      from Suc.IH [OF t(3) _ t(2,5) this] True t(4,6) due show ?thesis by (simp add: queued_fns_def)
    qed
  next
    case False
    with Suc.prems(2) have q: "m_tasks s = queued_fns [f]" by blast
    from tick_callback [OF Suc.prems(1) q Suc.prems(3) st u, of owned js jf ep inp me k] own obtain s1 io1 w1 where
      t: "?turn = Inr ([f], False, k, l, io1, w1, tc)" "turn_ready g np l w1 tc" "ticker p f ms d s1 io1"
      "m_tasks s1 = []" "im_timers io1 = im_timers io" "im_pipe_room io1 = im_pipe_room io" by blast
    from Suc.prems(5) t(1) obtain gs where "io_run_loop n u js jf stack np owned ep inp (\<lambda>_. Inr) me k l io1 w1 tc = Inr (gs, ended, rest)" "fs = f # gs"
      by (auto elim!: obind_InrE)
    from Suc.IH [OF t(3) _ t(2) _ this(1)] Suc.prems(4) t(4-6) this(2) have "\<not> ended" "\<exists>m\<le>im_pipe_room io. gs = replicate m f" by auto
    then obtain m where "m \<le> im_pipe_room io" "gs = replicate m f" by blast
    with \<open>fs = f # gs\<close> \<open>\<not> ended\<close> show ?thesis by (intro conjI exI [of _ "Suc m"]) (simp_all add: q queued_fns_def)
  qed
qed simp

text \<open>If the timer is due whenever the idle fiber looks, exactly as often, and then the thread blocks.\<close>

lemma tick_loop_blocks:
  fixes w :: "'u sched_fn fiber_world" and io :: "('u, 'k) io_manager"
  assumes st: "stack \<noteq> 0" and u: "\<not> uc_swap_fails u" "\<not> uc_get_fails u" and own: "\<not> owned np"
    and step: "\<And>j. in_now2 (inp j) + ms \<le> in_now2 (inp (Suc j))"
  shows "ticker p f ms d s io \<Longrightarrow> m_tasks s = [] \<Longrightarrow> turn_ready g np l w tc \<Longrightarrow> tick_inputs inp (im_timers io) \<Longrightarrow>
    d \<le> in_now2 (inp k) \<Longrightarrow> (\<And>j. k \<le> j \<Longrightarrow> j \<le> k + im_pipe_room io \<Longrightarrow> ms_in_range (in_now2 (inp j) + ms)) \<Longrightarrow>
    (if n \<le> 2 * im_pipe_room io
     then \<exists>rest. io_run_loop n u js jf stack np owned ep inp (\<lambda>_. Inr) me k l io w tc = Inr (replicate (n div 2) f, False, rest)
     else io_run_loop n u js jf stack np owned ep inp (\<lambda>_. Inr) me k l io w tc = Inl Would_Block)"
proof (induction "im_pipe_room io" arbitrary: d s io w k n)
  case 0
  from tick_turn(3) [OF 0(2-5) u(1), of k js jf stack owned ep "\<lambda>_. Inr" me] 0(1,6,7)
  have "io_run_turn u js jf stack np owned ep inp (\<lambda>_. Inr) me k l io w tc = Inl Would_Block" by simp
  with 0(1) show ?case by (cases n) simp_all
next
  case (Suc r)
  from tick_turn(2) [OF Suc.prems(1-4) u(1), of k js jf stack owned ep "\<lambda>_. Inr" me] Suc.prems(5,6) Suc.hyps(2) obtain s1 io1 w1 where
    t1: "io_run_turn u js jf stack np owned ep inp (\<lambda>_. Inr) me k l io w tc = Inr ([], False, Suc k, l, io1, w1, tc)" "turn_ready g np l w1 tc"
      "ticker p f ms (in_now2 (inp k) + ms) s1 io1" "m_tasks s1 = queued_fns [f]" "tick_inputs inp (im_timers io1)" "im_pipe_room io1 = r"
    by force
  from tick_callback [OF t1(3,4,2) st u, of owned js jf ep inp me "Suc k"] own obtain s2 io2 w2 where
    t2: "io_run_turn u js jf stack np owned ep inp (\<lambda>_. Inr) me (Suc k) l io1 w1 tc = Inr ([f], False, Suc k, l, io2, w2, tc)" "turn_ready g np l w2 tc"
      "ticker p f ms (in_now2 (inp k) + ms) s2 io2" "m_tasks s2 = []" "im_timers io2 = im_timers io1" "im_pipe_room io2 = r"
    using t1(6) by auto
  have i: "tick_inputs inp (im_timers io2)" using t1(5) t2(5) by simp
  have range: "ms_in_range (in_now2 (inp j) + ms)" if "Suc k \<le> j" "j \<le> Suc k + im_pipe_room io2" for j
    using Suc.prems(6) [of j] Suc.hyps(2) t2(6) that by simp
  note IH = Suc.hyps(1) [OF t2(6) [symmetric] t2(3,4,2) i step range]
  consider "n = 0" | "n = 1" | m where "n = Suc (Suc m)" by (cases n; cases "n - 1") auto
  then show ?case
  proof cases
    case 3
    with IH [of m] Suc.hyps(2) t1(1) t2(1,6) show ?thesis by auto
  qed (use Suc.hyps(2) t1(1) in auto)
qed

section \<open>Properties\<close>

text \<open>A worker at the top of the loop of \<open>run\<close>, its idle fiber waiting in its \<open>yield\<close> or not yet begun.\<close>

definition between_turns :: "nat \<Rightarrow> nat \<Rightarrow> run_locals \<Rightarrow> 'u sched_fn fiber_world \<Rightarrow> thread_ctx \<Rightarrow> bool" where
  "between_turns g np l w tc \<longleftrightarrow> t_exec tc = Some g \<and> cb_fiber l = None \<and> fibers w np = None \<and>
     idle_fiber l \<noteq> g \<and> map_option m_state (fibers w (idle_fiber l)) = Some READY"

lemma between_turns_ready:
  "reach (worker_start g) (worker_step g) (w, tc) \<Longrightarrow> between_turns g np l w tc \<Longrightarrow> turn_ready g np l w tc"
  using worker_safe.reach_inv by (simp add: turn_ready_def between_turns_def)

text \<open>C8: an I/O manager that is to stop waits for its timers. Its thread, the only one that executes its
  tasks, asked to stop while callbacks it may execute are queued (which do not yield and schedule only
  a bounded amount of such callbacks) and timers that fire once are armed, with no event registered and a
  byte free in the pipe for each timer, leaves the loop of \<open>run\<close> if the clock does not go back and eventually
  passes the deadlines and \<open>epoll_wait\<close> returns. It has executed what a queue with a clock executes: the queued
  callbacks and what they schedule, then, whenever nothing is queued, the callbacks of the timers that are due,
  none before its deadline, earliest first; if callbacks schedule nothing these are simply the queue and then
  the timers by deadline. The queue and the timers are empty, the counters back, the event tables
  untouched. The idle fiber has ended, the scheduling fiber differs at most in its saved context, every other
  fiber is exactly as before, and no fiber has come or gone. (A recurring timer, an event or a full pipe
  keeps the thread, as other properties show.)\<close>

theorem io_manager_drains:
  fixes io :: "('u, 'k) io_manager" and w :: "'u sched_fn fiber_world"
  assumes "reach (worker_start g) (worker_step g) (w, tc)" and "between_turns g np l w tc"
    and "stack \<noteq> 0" and "\<not> uc_swap_fails u" and "\<not> uc_get_fails u" and "\<not> owned np"
    and "draining me s io" and "idle_inputs inp k (im_timers io)" and "all_due (\<lambda>j. in_now2 (inp j)) k K (armed_list (im_timers io))"
    and "work_bound body W" and "\<And>f. list_all (local_cb me) (body f)"
    and "sum_list (map W (List.map_filter tk_cb (m_tasks s))) + sum_list (map W (map snd (armed_list (im_timers io)))) + (Suc K - k) + 2 \<le> n"
  shows "\<exists>fs k' io' w'. io_run_loop n u js jf stack np owned ep inp (\<lambda>f. post_tasks (body f)) me k l io w tc =
       Inr (fs, True, k', l, io', w', tc) \<and>
     fs = timed_run (scheduled_fns body) (\<lambda>j. in_now2 (inp j)) n k (List.map_filter tk_cb (m_tasks s)) (armed_list (im_timers io)) \<and>
     ((\<forall>f. body f = []) \<longrightarrow> fs = List.map_filter tk_cb (m_tasks s) @ map snd (armed_list (im_timers io))) \<and>
     drained g l io w io' w'"
proof -
  let ?q = "List.map_filter tk_cb (m_tasks s)" and ?ts = "armed_list (im_timers io)"
  note run = io_run_loop_drains [where owned = owned and inp = inp and k = k, OF assms(3-6,10,11) between_turns_ready [OF assms(1,2)] assms(7-9,12)]
  have "timed_run (scheduled_fns body) (\<lambda>j. in_now2 (inp j)) n k ?q ?ts = ?q @ map snd ?ts" if no: "\<forall>f. body f = []"
  proof (rule timed_run_plain [OF _ assms(9)])
    have "length fs \<le> sum_list (map W fs)" for fs :: "'u sched_fn list"
    proof (induction fs)
      case (Cons f fs)
      have "0 < W f" using assms(10) by (auto simp: work_bound_def dest!: spec [of _ f])
      with Cons show ?case by simp
    qed simp
    from this [of ?q] this [of "map snd ?ts"] show "length ?q + length ?ts + (Suc K - k) < n" using assms(12) by simp
  qed (use no in \<open>simp add: map_filter_simps\<close>)
  with run show ?thesis by fast
qed

text \<open>C9: a recurring timer blocks its manager. Let one recurring timer be armed whose callback leaves the manager
  alone, and the queue be empty. Whatever the clock does and however often the thread turns, the loop of \<open>run\<close> does not end,
  not even after a stop, and as long as it goes on the callback has been executed at most as often as the
  pipe had room at the start. If the timer is due whenever the idle fiber looks, the number is exact: two
  turns for each execution until the pipe is full, and then the thread blocks in \<open>tickle\<close> for ever.\<close>

theorem recurring_timer_blocks:
  fixes io :: "('u, 'k) io_manager" and w :: "'u sched_fn fiber_world"
  assumes "reach (worker_start g) (worker_step g) (w, tc)" and "between_turns g np l w tc"
    and "stack \<noteq> 0" and "\<not> uc_swap_fails u" and "\<not> uc_get_fails u" and "\<not> owned np"
    and "ticker p f ms d s io" and "m_tasks s = []" and "tick_inputs inp (im_timers io)"
  shows "(io_run_loop n u js jf stack np owned ep inp (\<lambda>_. Inr) me k l io w tc = Inr (fs, ended, rest) \<longrightarrow>
       \<not> ended \<and> (\<exists>m\<le>im_pipe_room io. fs = replicate m f)) \<and>
     (d \<le> in_now2 (inp k) \<and> (\<forall>j. in_now2 (inp j) + ms \<le> in_now2 (inp (Suc j))) \<and>
        (\<forall>j. k \<le> j \<and> j \<le> k + im_pipe_room io \<longrightarrow> ms_in_range (in_now2 (inp j) + ms)) \<longrightarrow>
      (if n \<le> 2 * im_pipe_room io
       then \<exists>rest. io_run_loop n u js jf stack np owned ep inp (\<lambda>_. Inr) me k l io w tc = Inr (replicate (n div 2) f, False, rest)
       else io_run_loop n u js jf stack np owned ep inp (\<lambda>_. Inr) me k l io w tc = Inl Would_Block))"
proof -
  note ready = between_turns_ready [OF assms(1,2)]
  show ?thesis
    using tick_loop_bound [where owned = owned and inp = inp and k = k and n = n and js = js and jf = jf and ep = ep and me = me and
        fs = fs and ended = ended and rest = rest, OF assms(3-7) _ ready assms(9)]
      tick_loop_blocks [where owned = owned and inp = inp and k = k and n = n and js = js and jf = jf and ep = ep and me = me,
        OF assms(3-6) _ assms(7,8) ready assms(9)] assms(8)
    by auto
qed

section \<open>Samples\<close>

text \<open>
  A thread with one callback queued and timers at 1010 and 1030, the first of which schedules
  another callback; the idle fiber reads the clock at 1000, 1020, 1040 and so on.
\<close>

definition every20 :: "nat \<Rightarrow> idle_input" where
  "every20 j = \<lparr>in_now1 = 1000, in_now2 = 1000 + 20 * int j, in_probe = 0, in_waits = [(0, False)], in_events = []\<rparr>"

abbreviation stop_sched :: "nat sched_task list \<Rightarrow> nat scheduler" where
  "stop_sched ts \<equiv> plain_scheduler\<lparr>m_tasks := ts, m_stopping := True\<rparr>"

definition io_stop_tm :: "(nat, int \<Rightarrow> event_bits option) io_manager" where
  "io_stop_tm = put_scheduler (stop_sched [task_of_cb (Some (User_Fn 3)) None]) sample_io_tm"

abbreviation looping_locals :: run_locals where
  "looping_locals \<equiv> \<lparr>idle_fiber = 9, cb_fiber = None\<rparr>"

lemma sample_between: "between_turns 0 7 looping_locals sample_looping sample_tc"
  by (simp add: between_turns_def sample_tc_def sample_looping_def sample_pool_def)

theorem io_manager_drains_witness:
  "\<exists>k' io' w'. io_run_loop 9 no_fail 0 True 4096 7 (\<lambda>_. False) sample_epoll every20 (\<lambda>f. post_tasks (sample_body f)) 5 0 looping_locals
       io_stop_tm sample_looping sample_tc =
     Inr ([User_Fn 3, User_Fn 1, User_Fn 2, User_Fn 2], True, k', looping_locals, io', w', sample_tc) \<and>
     m_timers (im_timers io') = [] \<and> fibers_ended 0 looping_locals sample_looping w'"
proof -
  let ?s = "stop_sched [task_of_cb (Some (User_Fn 3)) None]"
  let ?W = "\<lambda>f. if f = User_Fn (1::nat) then 2 else (1::nat)"
  have W: "work_bound sample_body ?W" by (simp add: work_bound_def sample_body_def map_filter_simps)
  have body: "list_all (local_cb 5) (sample_body f)" for f by (simp add: sample_body_def local_cb_def)
  have tm: "im_timers io_stop_tm = sample_tm" by (simp add: io_stop_tm_def sample_io_tm_def)
  have armed: "armed_list sample_tm = [(1010, User_Fn 1), (1030, User_Fn 2)]"
    by (simp add: armed_list_def sample_tm_def next_of_def callback_of_def)
  have wf: "tm_wf sample_tm" by (simp add: tm_wf_def sample_tm_def timer_cmp_iff less_timer_key_def next_of_def)
  have d: "draining 5 ?s io_stop_tm"
    unfolding draining_def tm
    by (simp add: io_stop_tm_def sample_io_tm_def fresh_io_def plain_scheduler_def caller_scheduler_def queued_cbs_def local_cb_def
        one_shots_def wf) (simp add: sample_tm_def)
  have i: "idle_inputs every20 0 (im_timers io_stop_tm)"
    unfolding tm by (auto simp: idle_inputs_def every20_def wait_returns_def sample_tm_def mono_def)
  have due: "all_due (\<lambda>j. in_now2 (every20 j)) 0 2 (armed_list (im_timers io_stop_tm))"
    unfolding tm armed by (simp add: all_due_def every20_def)
  have q: "List.map_filter tk_cb (m_tasks ?s) = [User_Fn 3]" by (simp add: map_filter_simps)
  have "timed_run (scheduled_fns sample_body) (\<lambda>j. in_now2 (every20 j)) 9 0 [User_Fn 3] [(1010, User_Fn 1), (1030, User_Fn 2)] =
      [User_Fn 3, User_Fn 1, User_Fn 2, User_Fn 2]"
    by (simp add: numeral_eq_Suc sample_body_def map_filter_simps every20_def)
  with io_manager_drains [OF sample_looping_reach sample_between, of 4096 no_fail "\<lambda>_. False" 5 ?s io_stop_tm every20 0 2 sample_body ?W 9 0 True sample_epoll]
    d i due W body show ?thesis
    unfolding tm armed q by (simp add: no_fail_def drained_def) blast
qed

text \<open>A timer with a period of 20 and room for two bytes.\<close>

definition tick_tm :: "nat sched_fn timer_manager" where
  "tick_tm = \<lparr>timer_store = [1 \<mapsto> \<lparr>m_recurring = True, m_ms = 20, m_next = 1000, m_cb = Some (User_Fn 1)\<rparr>],
     m_timers = [1], m_tickled = False, m_previouseTime = 1000\<rparr>"

definition io_tick :: "(nat, int \<Rightarrow> event_bits option) io_manager" where
  "io_tick = put_scheduler (stop_sched []) (fresh_io\<lparr>im_timers := tick_tm\<rparr>)"

theorem recurring_timer_blocks_witness:
  "(\<exists>rest. io_run_loop 4 no_fail 0 True 4096 7 (\<lambda>_. False) sample_epoll every20 (\<lambda>_. Inr) 5 0 looping_locals io_tick sample_looping sample_tc =
       Inr ([User_Fn 1, User_Fn 1], False, rest)) \<and>
   io_run_loop 5 no_fail 0 True 4096 7 (\<lambda>_. False) sample_epoll every20 (\<lambda>_. Inr) 5 0 looping_locals io_tick sample_looping sample_tc = Inl Would_Block"
proof -
  have tm: "im_timers io_tick = tick_tm" and room: "im_pipe_room io_tick = 2" by (simp_all add: io_tick_def fresh_io_def)
  have t: "ticker 1 (User_Fn 1) 20 1000 (stop_sched []) io_tick"
    unfolding ticker_def tm
    by (simp add: io_tick_def plain_scheduler_def caller_scheduler_def ticking_def tick_tm_def tm_wf_def)
  have i: "tick_inputs every20 (im_timers io_tick)"
    unfolding tm by (simp add: tick_inputs_def every20_def wait_returns_def tick_tm_def)
  have clock: "1000 \<le> in_now2 (every20 0) \<and> (\<forall>j. in_now2 (every20 j) + 20 \<le> in_now2 (every20 (Suc j))) \<and>
      (\<forall>j. 0 \<le> j \<and> j \<le> 0 + im_pipe_room io_tick \<longrightarrow> ms_in_range (in_now2 (every20 j) + 20))"
    unfolding room by (auto simp: every20_def ms_in_range_def)
  have e: "m_tasks (stop_sched []) = []" by simp
  have u: "(4096 :: 64 word) \<noteq> 0" "\<not> uc_swap_fails no_fail" "\<not> uc_get_fails no_fail" "\<not> False" by (simp_all add: no_fail_def)
  note run = recurring_timer_blocks [OF sample_looping_reach sample_between u t e i, THEN conjunct2, rule_format, OF clock]
  have "(4 div 2 :: nat) = Suc (Suc 0)" by simp
  then have "replicate (4 div 2) (User_Fn (1::nat)) = [User_Fn 1, User_Fn 1]" by (simp only: replicate.simps)
  with run [of 4 0 True sample_epoll 5] run [of 5 0 True sample_epoll 5] show ?thesis
    by (simp add: room del: io_run_loop.simps)
qed

end
