(* ===== verification/Hook_Init.thy ===== *)
theory Hook_Init
  imports Hook
begin

text \<open>
  How Hook.cpp finds the functions it replaces: one pointer for each, null until the static
  initialiser has looked all of them up by name. \<open>dlsym\<close> is a parameter: the function found behind
  the library itself, if any.
\<close>

section \<open>The hooked functions\<close>

datatype hooked = H_sleep | H_socket | H_connect | H_accept | H_read | H_readv | H_recv | H_recvfrom | H_recvmsg
  | H_write | H_writev | H_send | H_sendto | H_sendmsg | H_close | H_fcntl | H_ioctl | H_getsockopt | H_setsockopt

text \<open>\<open>HOOK_FUN(XX)\<close>: the functions in its order, and \<open>#name\<close>.\<close>

definition hook_fun :: "hooked list" where
  "hook_fun = [H_sleep, H_socket, H_connect, H_accept, H_read, H_readv, H_recv, H_recvfrom, H_recvmsg,
     H_write, H_writev, H_send, H_sendto, H_sendmsg, H_close, H_fcntl, H_ioctl, H_getsockopt, H_setsockopt]"

fun hooked_name :: "hooked \<Rightarrow> string" where
  "hooked_name H_sleep = ''sleep''"
| "hooked_name H_socket = ''socket''"
| "hooked_name H_connect = ''connect''"
| "hooked_name H_accept = ''accept''"
| "hooked_name H_read = ''read''"
| "hooked_name H_readv = ''readv''"
| "hooked_name H_recv = ''recv''"
| "hooked_name H_recvfrom = ''recvfrom''"
| "hooked_name H_recvmsg = ''recvmsg''"
| "hooked_name H_write = ''write''"
| "hooked_name H_writev = ''writev''"
| "hooked_name H_send = ''send''"
| "hooked_name H_sendto = ''sendto''"
| "hooked_name H_sendmsg = ''sendmsg''"
| "hooked_name H_close = ''close''"
| "hooked_name H_fcntl = ''fcntl''"
| "hooked_name H_ioctl = ''ioctl''"
| "hooked_name H_getsockopt = ''getsockopt''"
| "hooked_name H_setsockopt = ''setsockopt''"

section \<open>Initialisation\<close>

text \<open>The pointers \<open>name_f\<close>, the static variable of \<open>hook_init\<close>, and the time-out of \<open>connect\<close>.\<close>

record 'f hook_lib =
  name_f :: "hooked \<Rightarrow> 'f option"
  is_inited :: bool
  connect_timeout :: millis

definition hook_lib_new :: "'f hook_lib" where
  "hook_lib_new = \<lparr>name_f = (\<lambda>_. None), is_inited = False, connect_timeout = -1\<rparr>"

definition hook_init :: "(string \<Rightarrow> 'f option) \<Rightarrow> 'f hook_lib \<Rightarrow> 'f hook_lib" where
  "hook_init dlsym s =
     (if is_inited s then s
      else fold (\<lambda>h s. s\<lparr>name_f := (name_f s)(h := dlsym (hooked_name h))\<rparr>) hook_fun s)"

text \<open>The constructor of \<open>s_hook_initer\<close>, before \<open>main\<close>.\<close>

definition hook_initer :: "(string \<Rightarrow> 'f option) \<Rightarrow> 'f hook_lib \<Rightarrow> 'f hook_lib" where
  "hook_initer dlsym s = (hook_init dlsym s)\<lparr>connect_timeout := s_connect_timeout\<rparr>"

text \<open>A call through a pointer; \<open>getsockopt\<close> is nothing else, whether hooks are enabled or not.\<close>

definition call_original :: "hooked \<Rightarrow> 'f hook_lib \<Rightarrow> 'f outcome" where
  "call_original h s = (case name_f s h of None \<Rightarrow> Inl Null_Deref | Some f \<Rightarrow> Inr f)"

definition hook_getsockopt :: "'f hook_lib \<Rightarrow> 'f outcome" where
  "hook_getsockopt s = call_original H_getsockopt s"

section \<open>What initialisation does\<close>

lemma hook_fun_all: "set hook_fun = UNIV" and hook_fun_distinct: "distinct hook_fun"
proof -
  have "h \<in> set hook_fun" for h by (cases h) (simp_all add: hook_fun_def)
  then show "set hook_fun = UNIV" by blast
qed (simp add: hook_fun_def)

lemma hooked_name_inj: "hooked_name g = hooked_name h \<Longrightarrow> g = h"
  by (cases g; cases h; simp)

lemma fold_name_f:
  fixes s :: "'f hook_lib"
  shows "fold (\<lambda>h s. s\<lparr>name_f := (name_f s)(h := F h)\<rparr>) hs s = s\<lparr>name_f := (\<lambda>h. if h \<in> set hs then F h else name_f s h)\<rparr>"
  by (induction hs arbitrary: s) (auto simp: fun_eq_iff)

lemma hook_init_eq: "\<not> is_inited s \<Longrightarrow> hook_init dlsym s = s\<lparr>name_f := dlsym \<circ> hooked_name\<rparr>"
  by (simp add: hook_init_def fold_name_f hook_fun_all comp_def)

text \<open>Before the static initialiser has run every wrapped call is a call through a null
  pointer and \<open>connect\<close> has no time-out. Afterwards each of the 19 pointers is what the loader finds for
  its own name, no name being used twice, so that a call is a null call exactly for a function the loader does
  not find; the time-out is three seconds. Because nothing ever sets \<open>is_inited\<close>, calling
  \<open>hook_init\<close> again looks everything up again, and what it finds then replaces what was found first.\<close>

lemma hook_init_binds:
  "call_original h (hook_lib_new :: 'f hook_lib) = Inl Null_Deref \<and> connect_timeout (hook_lib_new :: 'f hook_lib) = -1 \<and>
   call_original h (hook_initer dlsym hook_lib_new) = (case dlsym (hooked_name h) of None \<Rightarrow> Inl Null_Deref | Some f \<Rightarrow> Inr f) \<and>
   (hooked_name g = hooked_name h \<longleftrightarrow> g = h) \<and> distinct hook_fun \<and> set hook_fun = UNIV \<and> length hook_fun = 19 \<and>
   connect_timeout (hook_initer dlsym hook_lib_new) = 3000 \<and>
   hook_init dlsym' (hook_initer dlsym hook_lib_new) = hook_initer dlsym' (hook_lib_new :: 'f hook_lib) \<and>
   hook_getsockopt (hook_initer dlsym hook_lib_new) = call_original H_getsockopt (hook_initer dlsym hook_lib_new)"
  using hooked_name_inj hook_fun_all hook_fun_distinct
  by (auto simp: hook_initer_def hook_init_eq hook_lib_new_def call_original_def s_connect_timeout_def hook_fun_def hook_getsockopt_def)

end
