(* ===== verification/Pool_Stop.thy ===== *)
theory Pool_Stop
  imports Scheduler_Concurrent Coop_Loop
begin

text \<open>
  What a stop guarantees when several workers execute: if tasks are scheduled before the stop, and
  afterwards only by tasks, the first worker that ends its idle fiber finds everything done, and
  nothing is executed after that. \<open>testScheduler\<close> of test.cpp uses a scheduler in this way.
\<close>

section \<open>The discipline and its invariant\<close>

definition scheduled_by_tasks :: "'u pool \<Rightarrow> 'u sched_task \<Rightarrow> bool" where
  "scheduled_by_tasks s t \<longleftrightarrow> \<not> m_stopping (pl_sched s) \<or> (\<exists>i f. at_pc s i (On_Task f))"

definition leaving :: "'u worker \<Rightarrow> bool" where
  "leaving x \<longleftrightarrow> wk_idle_state x = TERMINATED \<or> wk_pc x = Exited"

definition stop_inv :: "'u pool \<Rightarrow> bool" where
  "stop_inv s \<longleftrightarrow> pool_counts s \<and> length (pl_workers s) < 2 ^ 64 \<and>
     ((\<exists>x\<in>set (pl_workers s). leaving x) \<longrightarrow> scheduler_stopping (pl_sched s))"

text \<open>While a worker has a task in hand the counter is not zero.\<close>

lemma active_not_stopping:
  assumes c: "pool_counts s" and len: "length (pl_workers s) < 2 ^ 64"
    and i: "i < length (pl_workers s)" and a: "worker_active (pl_workers s ! i)"
  shows "\<not> scheduler_stopping (pl_sched s)"
proof -
  let ?n = "count_if worker_active (pl_workers s)"
  have "?n < 2 ^ 64" unfolding count_if_def using len by (rule le_less_trans [OF length_filter_le])
  then have "unat (of_nat ?n :: 64 word) = ?n" by (simp add: unat_of_nat)
  moreover have "?n \<noteq> 0" using i a by (auto simp: count_if_zero_iff)
  ultimately have "(of_nat ?n :: 64 word) \<noteq> 0" by (metis unat_0)
  then show ?thesis using c by (simp add: scheduler_stopping_def pool_counts_def)
qed

lemma stopping_no_active:
  assumes "pool_counts s" and "length (pl_workers s) < 2 ^ 64" and "scheduler_stopping (pl_sched s)"
  shows "\<forall>x\<in>set (pl_workers s). \<not> worker_active x"
  using active_not_stopping [OF assms(1,2)] assms(3) by (auto simp: in_set_conv_nth)

lemma step_when_stopping:
  assumes "pool_step scheduled_by_tasks s s'" and "pool_counts s" and "length (pl_workers s) < 2 ^ 64"
    and "scheduler_stopping (pl_sched s)"
  shows "scheduler_stopping (pl_sched s') \<and> pl_pushed s' = pl_pushed s \<and> pl_started s' = pl_started s"
proof -
  have idle: "\<not> at_pc s i x" if "worker_active \<lparr>wk_id = a, wk_idle_state = b, wk_pc = x\<rparr>" for i x a b
    using stopping_no_active [OF assms(2-4)] that by (fastforce simp: at_pc_def worker_active_def)
  from assms(1) show ?thesis
  proof (cases rule: pool_step.cases)
    case (sc_schedule t)
    with assms(4) idle show ?thesis by (auto simp: scheduled_by_tasks_def scheduler_stopping_def worker_active_def)
  next
    case (sc_find i t k sch)
    from sc_find(3) obtain pre post where "m_tasks (pl_sched s) = pre @ t # post" by (rule run_lookup_Some)
    with assms(4) show ?thesis by (simp add: scheduler_stopping_def)
  next
    case (sc_none i k sch)
    with assms(4) show ?thesis by (auto dest: run_lookup_None)
  qed (use assms(4) idle in \<open>auto simp: scheduler_stopping_def worker_active_def\<close>)
qed

lemma leaving_upd:
  assumes "x \<in> set (xs[i := y])" and "leaving x" and "i < length xs" and "leaving y \<Longrightarrow> leaving (xs ! i)"
  shows "\<exists>x\<in>set xs. leaving x"
proof -
  have "x = y \<or> x \<in> set xs" using assms(1) set_update_subset_insert [of xs i y] by auto
  then show ?thesis using assms(2-4) nth_mem [OF assms(3)] by blast
qed

lemma step_leaving:
  assumes "pool_step G s s'" and "x \<in> set (pl_workers s')" and "leaving x"
  shows "(\<exists>x\<in>set (pl_workers s). leaving x) \<or> scheduler_stopping (pl_sched s)"
  using assms
proof (cases rule: pool_step.cases)
  case (sc_idle i)
  with assms(2,3) have "\<exists>x\<in>set (pl_workers s). leaving x"
    by (intro leaving_upd [of x "pl_workers s" i]) (auto simp: set_pc_def set_idle_def at_pc_def leaving_def)
  then show ?thesis ..
next
  case (sc_idle_yield i)
  with assms(2,3) have "\<exists>x\<in>set (pl_workers s). leaving x"
    by (intro leaving_upd [of x "pl_workers s" i]) (auto simp: set_pc_def set_idle_def at_pc_def leaving_def)
  then show ?thesis ..
qed (use assms(2,3) in \<open>auto simp: set_pc_def at_pc_def leaving_def elim!: leaving_upd [unfolded leaving_def, of _ "pl_workers s"]\<close>)

lemma pool_step_workers: "pool_step G s s' \<Longrightarrow> length (pl_workers s') = length (pl_workers s)"
  by (induction rule: pool_step.induct) simp_all

lemma stop_inv_step:
  assumes step: "pool_step scheduled_by_tasks s s'" and inv: "stop_inv s"
  shows "stop_inv s'"
proof -
  have c: "pool_counts s" "length (pl_workers s) < 2 ^ 64" using inv by (simp_all add: stop_inv_def)
  have "scheduler_stopping (pl_sched s')" if "x \<in> set (pl_workers s')" "leaving x" for x
  proof -
    have "scheduler_stopping (pl_sched s)" using step_leaving [OF step that] inv by (auto simp: stop_inv_def)
    from step_when_stopping [OF step c this] show ?thesis by blast
  qed
  with pool_counts_step [OF step c(1)] pool_step_workers [OF step] c(2) show ?thesis by (auto simp: stop_inv_def)
qed

interpretation stop_safe: safe_system "\<lambda>s. pool_start s \<and> length (pl_workers s) < 2 ^ 64" "pool_step scheduled_by_tasks" stop_inv
proof unfold_locales
  fix s :: "'u pool"
  assume "pool_start s \<and> length (pl_workers s) < 2 ^ 64"
  then show "stop_inv s" using pool_counts_start by (auto simp: stop_inv_def leaving_def pool_start_def)
qed (rule stop_inv_step)

text \<open>Once everything is done it stays done.\<close>

definition all_done :: "'u pool \<Rightarrow> 'u pool \<Rightarrow> bool" where
  "all_done s0 s \<longleftrightarrow> stop_inv s \<and> scheduler_stopping (pl_sched s) \<and> pl_pushed s = pl_pushed s0 \<and> pl_started s = pl_started s0"

interpretation done_safe: safe_system "\<lambda>s. s = s0 \<and> all_done s0 s" "pool_step scheduled_by_tasks" "all_done s0" for s0 :: "'u pool"
proof unfold_locales
  fix s s' :: "'u pool"
  assume "pool_step scheduled_by_tasks s s'" and "all_done s0 s"
  with step_when_stopping [of s s'] stop_inv_step [of s s'] show "all_done s0 s'" by (simp add: all_done_def stop_inv_def)
qed simp

section \<open>\<open>testScheduler\<close>\<close>

text \<open>
  Up to \<open>start\<close>: a scheduler of three threads that does not use its caller gets two functions and a
  fiber, allocated at \<open>fp\<close>. Afterwards the workers execute, while the caller goes on to
  schedule \<open>test_fiber4\<close> and to stop.
\<close>

definition testScheduler_begin ::
  "uc_api \<Rightarrow> 64 word \<Rightarrow> bool \<Rightarrow> 64 word \<Rightarrow> nat \<Rightarrow> nat \<Rightarrow> nat \<Rightarrow> nat \<Rightarrow> nat \<Rightarrow> nat option \<Rightarrow> (nat \<Rightarrow> nat)
   \<Rightarrow> demo_fiber sched_fn fiber_world \<Rightarrow> thread_ctx
   \<Rightarrow> (demo_fiber scheduler \<times> nat option \<times> demo_fiber sched_fn fiber_world \<times> thread_ctx) outcome" where
  "testScheduler_begin u js jf stack gp rp fp this me cur new_id w tc =
     obind (scheduler_new u js jf stack gp rp 3 False ''scheduler'' this me cur w tc) (\<lambda>(s, cur1, w1, tc1).
       let s1 = snd (schedule (task_of_cb (Some (User_Fn Test_Fiber1)) None) s);
           s2 = snd (schedule (task_of_cb (Some (User_Fn Test_Fiber2)) None) s1)
       in obind (fiber_new u stack fp (Some (User_Fn Test_Fiber3)) 0 True w1) (\<lambda>w2.
          obind (scheduler_start new_id (snd (schedule (task_of_fiber (Some fp) None) s2))) (\<lambda>s3.
            Inr (s3, cur1, w2, tc1))))"

definition testScheduler_end ::
  "uc_api \<Rightarrow> nat \<Rightarrow> nat option \<Rightarrow> demo_fiber scheduler \<Rightarrow> demo_fiber sched_fn fiber_world \<Rightarrow> thread_ctx
   \<Rightarrow> (bool \<times> nat \<times> demo_fiber scheduler \<times> demo_fiber sched_fn fiber_world \<times> thread_ctx) outcome" where
  "testScheduler_end u this cur s w tc =
     scheduler_stop u this cur (snd (schedule (task_of_cb (Some (User_Fn Test_Fiber4)) None) s)) w tc"

text \<open>The workers as they are when \<open>start\<close> has returned.\<close>

definition started_pool :: "nat \<Rightarrow> 'u scheduler \<Rightarrow> 'u pool" where
  "started_pool fp s = \<lparr>pl_sched = s, pl_fibers = [fp \<mapsto> READY],
     pl_workers = map (\<lambda>i. \<lparr>wk_id = i, wk_idle_state = READY, wk_pc = Looking\<rparr>) (m_threads s),
     pl_pushed = mset (m_tasks s), pl_started = {#}\<rparr>"

lemma testScheduler_begin_eq:
  assumes "testScheduler_begin u js jf stack gp rp fp this me cur new_id w tc = Inr (s, cur1, w1, tc1)"
  shows "m_tasks s = [task_of_cb (Some (User_Fn Test_Fiber1)) None, task_of_cb (Some (User_Fn Test_Fiber2)) None, task_of_fiber (Some fp) None]"
    and "m_threads s = map new_id [0..<3]" and "\<not> m_stopping s" and "m_activeThreadCount s = 0" and "m_idleThreadCount s = 0"
    and "\<exists>f. fibers w1 fp = Some f \<and> m_state f = READY" and "cur1 = cur" and "\<not> m_useCaller s" and "m_rootFiber s = None"
    and "m_threadCount s = 3"
  using assms
  by (auto simp: testScheduler_begin_def scheduler_new_def scheduler_start_def fiber_new_def schedule_def schedule_no_lock_def Let_def
      MYASSERT_def task_of_fiber_def task_of_cb_def task_empty_def outcome_simps split: if_splits)

text \<open>Its pool is one that scheduling from a fresh scheduler leads to.\<close>

lemma started_pool_reach:
  assumes "\<not> m_stopping s" and "m_activeThreadCount s = 0" and "m_idleThreadCount s = 0"
    and "m_tasks s = [task_of_cb (Some f) None, task_of_cb (Some g) None, task_of_fiber (Some fp) None]"
  shows "reach pool_start (pool_step scheduled_by_tasks) (started_pool fp s)"
proof -
  let ?R = "reach pool_start (pool_step scheduled_by_tasks)"
  let ?t1 = "task_of_cb (Some f) None" and ?t2 = "task_of_cb (Some g) None" and ?t3 = "task_of_fiber (Some fp) None :: 'a sched_task"
  define P where "P fs ts = \<lparr>pl_sched = s\<lparr>m_tasks := ts\<rparr>, pl_fibers = fs,
     pl_workers = map (\<lambda>i. \<lparr>wk_id = i, wk_idle_state = READY, wk_pc = Looking\<rparr>) (m_threads s),
     pl_pushed = mset ts, pl_started = {#}\<rparr>" for fs :: "nat \<rightharpoonup> fiber_state" and ts
  have push: "?R (P fs (ts @ [t]))" if "?R (P fs ts)" "\<not> task_empty t" "\<And>q. tk_fiber t = Some q \<Longrightarrow> fs q \<noteq> None" for fs ts t
  proof -
    have "scheduled_by_tasks (P fs ts) t" using assms(1) by (simp add: scheduled_by_tasks_def P_def)
    from sc_schedule [where G = scheduled_by_tasks, OF this] that(2,3)
    have "pool_step scheduled_by_tasks (P fs ts) (P fs (ts @ [t]))" by (simp add: P_def schedule_def schedule_no_lock_def Let_def)
    with that(1) show ?thesis by (rule reach_step)
  qed
  have "pool_start (P Map.empty [])" using assms by (auto simp: pool_start_def P_def)
  then have "?R (P Map.empty [])" by (rule reach_start)
  from push [OF this, of ?t1] have "?R (P Map.empty [?t1])" by simp
  from push [OF this, of ?t2] have "?R (P Map.empty [?t1, ?t2])" by simp
  moreover have "pool_step scheduled_by_tasks (P Map.empty [?t1, ?t2]) (P [fp \<mapsto> READY] [?t1, ?t2])"
    using sc_new_fiber [of "P Map.empty [?t1, ?t2]" fp scheduled_by_tasks] by (simp add: P_def)
  ultimately have "?R (P [fp \<mapsto> READY] [?t1, ?t2])" by (rule reach_step)
  from push [OF this, of ?t3] have "?R (P [fp \<mapsto> READY] [?t1, ?t2, ?t3])" by simp
  then show ?thesis by (simp add: started_pool_def P_def assms(4) [symmetric])
qed

text \<open>
  Whatever the three workers do, and whatever the caller schedules before it stops: when one of them
  has ended its idle fiber, the three first tasks are among those executed, and no other is left.
\<close>

lemma stop_inv_reach:
  "reach pool_start (pool_step scheduled_by_tasks) s \<Longrightarrow> length (pl_workers s) < 2 ^ 64 \<Longrightarrow> stop_inv s"
proof (induction rule: reach.induct)
  case (reach_start s)
  then show ?case using stop_safe.start_inv by blast
next
  case (reach_step s s')
  then show ?case using stop_inv_step pool_step_workers by metis
qed

lemma stop_inv_done:
  assumes "stop_inv s" and "x \<in> set (pl_workers s)" and "leaving x"
  shows "scheduler_stopping (pl_sched s)" and "pl_pushed s = pl_started s" and "\<forall>y\<in>set (pl_workers s). \<not> worker_active y"
proof -
  show st: "scheduler_stopping (pl_sched s)" using assms by (auto simp: stop_inv_def)
  show idle: "\<forall>y\<in>set (pl_workers s). \<not> worker_active y"
    by (rule stopping_no_active) (use assms(1) st in \<open>simp_all add: stop_inv_def\<close>)
  have "taken_task (wk_pc y) = {#}" if "\<not> worker_active y" for y :: "'a worker"
    using that by (cases "wk_pc y") (simp_all add: worker_active_def)
  with idle have "in_hand (pl_workers s) = {#}" by (intro in_hand_none) blast
  then show "pl_pushed s = pl_started s"
    using assms(1) st by (simp add: stop_inv_def pool_counts_def scheduler_stopping_def)
qed

lemma pushed_mono: "pool_step G s s' \<Longrightarrow> pl_pushed s \<subseteq># pl_pushed s'"
  by (induction rule: pool_step.induct) simp_all

lemma reach_pushed:
  assumes "reach ((=) s0) (pool_step G) s"
  shows "pl_pushed s0 \<subseteq># pl_pushed s \<and> (reach pool_start (pool_step G) s0 \<longrightarrow> reach pool_start (pool_step G) s) \<and>
     length (pl_workers s) = length (pl_workers s0)"
  using assms
proof (induction rule: reach.induct)
  case (reach_step s s')
  then show ?case
    using pushed_mono [of G s s'] pool_step_workers [of G s s'] by (auto intro: subset_mset.order_trans reach.reach_step)
qed simp

lemma testScheduler_all_started:
  assumes "testScheduler_begin u js jf stack gp rp fp this me cur new_id w tc = Inr (s, cur1, w1, tc1)"
    and run: "reach ((=) (started_pool fp s)) (pool_step scheduled_by_tasks) s'" and "x \<in> set (pl_workers s')" and "leaving x"
  shows "{#task_of_cb (Some (User_Fn Test_Fiber1)) None, task_of_cb (Some (User_Fn Test_Fiber2)) None, task_of_fiber (Some fp) None#}
       \<subseteq># pl_started s'" and "pl_pushed s' = pl_started s'"
proof -
  note b = testScheduler_begin_eq [OF assms(1)]
  have "reach pool_start (pool_step scheduled_by_tasks) (started_pool fp s)"
    by (rule started_pool_reach [OF b(3-5,1)])
  with reach_pushed [OF run] have r: "reach pool_start (pool_step scheduled_by_tasks) s'"
    and m: "mset (m_tasks s) \<subseteq># pl_pushed s'" and n: "length (pl_workers s') = 3"
    by (simp_all add: started_pool_def b(2))
  have "stop_inv s'" by (rule stop_inv_reach [OF r]) (simp add: n)
  from stop_inv_done(2) [OF this assms(3,4)] show "pl_pushed s' = pl_started s'" .
  with m show "{#task_of_cb (Some (User_Fn Test_Fiber1)) None, task_of_cb (Some (User_Fn Test_Fiber2)) None, task_of_fiber (Some fp) None#}
       \<subseteq># pl_started s'" by (simp add: b(1) add_mset_commute)
qed

section \<open>Properties\<close>

text \<open>C6: a stop loses no task. If tasks are scheduled before the stop, and after it only by tasks being executed, then, in every
  interleaving of any number of workers, once one worker has ended its idle fiber the queue is empty,
  every task that was ever scheduled has been started, each as often as it was scheduled, no worker has a task
  in hand or on its stack, and whatever happens afterwards, nothing is scheduled or started any more.\<close>

theorem stop_completes_all:
  assumes "reach pool_start (pool_step scheduled_by_tasks) s" and "length (pl_workers s) < 2 ^ 64"
    and "x \<in> set (pl_workers s)" and "leaving x"
  shows "m_tasks (pl_sched s) = [] \<and> pl_pushed s = pl_started s \<and> (\<forall>y\<in>set (pl_workers s). \<not> worker_active y) \<and>
     (\<forall>s'. reach ((=) s) (pool_step scheduled_by_tasks) s' \<longrightarrow>
        scheduler_stopping (pl_sched s') \<and> pl_pushed s' = pl_pushed s \<and> pl_started s' = pl_started s)"
proof -
  have inv: "stop_inv s" by (rule stop_inv_reach [OF assms(1,2)])
  note fin = stop_inv_done [OF inv assms(3,4)]
  have "all_done s s'" if "reach ((=) s) (pool_step scheduled_by_tasks) s'" for s'
    by (rule done_safe.reach_from_inv [OF that]) (simp add: all_done_def inv fin(1))
  with fin show ?thesis by (auto simp: all_done_def scheduler_stopping_def)
qed

text \<open>The sample: a worker has executed fiber 5, a stop was requested meanwhile, and its idle fiber ends.\<close>

definition ended_pool :: "nat pool" where
  "ended_pool = pool4\<lparr>pl_sched := sample_sched0\<lparr>m_stopping := True, m_idleThreadCount := 1\<rparr>, pl_fibers := [5 \<mapsto> TERMINATED],
     pl_workers := [\<lparr>wk_id = 1, wk_idle_state = TERMINATED, wk_pc = Idle_Returned\<rparr>, sample_worker 2]\<rparr>"

lemma ended_pool_reach: "reach pool_start (pool_step scheduled_by_tasks) ended_pool"
proof -
  let ?G = "scheduled_by_tasks" and ?w = "\<lambda>c. [(sample_worker 1)\<lparr>wk_pc := c\<rparr>, sample_worker 2]"
  let ?S = "sample_sched0\<lparr>m_stopping := True\<rparr>"
  let ?s5 = "pool4\<lparr>pl_sched := ?S\<lparr>m_activeThreadCount := 1\<rparr>\<rparr>"
  let ?s6 = "?s5\<lparr>pl_fibers := [5 \<mapsto> TERMINATED], pl_workers := ?w (Leaving 5)\<rparr>"
  let ?s7 = "?s6\<lparr>pl_workers := ?w Task_Returned\<rparr>"
  let ?s8 = "?s7\<lparr>pl_sched := ?S, pl_workers := ?w Looking\<rparr>"
  let ?s9 = "?s8\<lparr>pl_workers := ?w No_Task\<rparr>"
  let ?s10 = "?s9\<lparr>pl_sched := ?S\<lparr>m_idleThreadCount := 1\<rparr>,
     pl_workers := [\<lparr>wk_id = 1, wk_idle_state = RUNNING, wk_pc = On_Idle\<rparr>, sample_worker 2]\<rparr>"
  have "reach pool_start (pool_step ?G) pool4"
    by (rule pool4_reach) (simp add: scheduled_by_tasks_def pool_defs)
  moreover have "pool_step ?G pool4 ?s5" using sc_stop [of ?G pool4] by (simp add: pool_defs)
  ultimately have "reach pool_start (pool_step ?G) ?s5" by (rule reach_step)
  moreover have "pool_step ?G ?s5 ?s6" using sc_end [of ?s5 0 5 ?G] by (simp add: pool_defs at_pc_def set_pc_def)
  ultimately have "reach pool_start (pool_step ?G) ?s6" by (rule reach_step)
  moreover have "pool_step ?G ?s6 ?s7" using sc_switch [of ?s6 0 5 ?G] by (simp add: pool_defs at_pc_def set_pc_def)
  ultimately have "reach pool_start (pool_step ?G) ?s7" by (rule reach_step)
  moreover have "pool_step ?G ?s7 ?s8" using sc_done [of ?s7 0 ?G] by (simp add: pool_defs at_pc_def set_pc_def)
  ultimately have r8: "reach pool_start (pool_step ?G) ?s8" by (rule reach_step)
  have "run_lookup (pool_running ?s8) 1 (pl_sched ?s8) = (None, False, ?S)"
    by (simp add: pool_defs run_lookup_def)
  then have "pool_step ?G ?s8 ?s9" using sc_none [of ?s8 0 False ?S ?G] by (simp add: pool_defs at_pc_def set_pc_def)
  with r8 have "reach pool_start (pool_step ?G) ?s9" by (rule reach_step)
  moreover have "pool_step ?G ?s9 ?s10"
    using sc_idle [of ?s9 0 ?G] by (simp add: pool_defs at_pc_def set_pc_def set_idle_def)
  ultimately have "reach pool_start (pool_step ?G) ?s10" by (rule reach_step)
  moreover have "pool_step ?G ?s10 ended_pool"
    using sc_idle_end [of ?s10 0 ?G]
    by (simp add: pool_defs ended_pool_def at_pc_def set_pc_def set_idle_def scheduler_stopping_def)
  ultimately show ?thesis by (rule reach_step)
qed

theorem stop_completes_all_witness:
  "reach pool_start (pool_step scheduled_by_tasks) ended_pool \<and> pl_started ended_pool = {#task5#} \<and>
   pl_pushed ended_pool = {#task5#} \<and> scheduler_stopping (pl_sched ended_pool)"
proof -
  have st: "pl_started ended_pool = {#task5#}" by (simp add: ended_pool_def pool4_def)
  have w: "pl_workers ended_pool = [\<lparr>wk_id = 1, wk_idle_state = TERMINATED, wk_pc = Idle_Returned\<rparr>, sample_worker 2]"
    by (simp add: ended_pool_def)
  have "reach ((=) ended_pool) (pool_step scheduled_by_tasks) ended_pool" by (rule reach_start) simp
  with stop_completes_all [OF ended_pool_reach, of "\<lparr>wk_id = 1, wk_idle_state = TERMINATED, wk_pc = Idle_Returned\<rparr>"]
    ended_pool_reach st show ?thesis by (simp add: w leaving_def)
qed

end
