(* ===== verification/Wire_Protocol.thy ===== *)
theory Wire_Protocol
  imports Coro_Prelude
begin

text \<open>
  The client part of test.cpp: \<open>getBinaryCmd\<close> lays a command out in a buffer, \<open>sendCmd\<close>
  sends it and reads the reply. The buffer is a list of bytes of fixed length; a store or a copy that
  leaves it is a fault. Integers are little-endian, \<open>CMD_FLAG\<close> takes 4 bytes, \<open>size_t\<close> 8.
\<close>

type_synonym byte = "8 word"

section \<open>Bytes and buffers\<close>

fun le_bytes :: "nat \<Rightarrow> nat \<Rightarrow> byte list" where
  "le_bytes 0 x = []"
| "le_bytes (Suc n) x = of_nat (x mod 256) # le_bytes n (x div 256)"

fun le_value :: "byte list \<Rightarrow> nat" where
  "le_value [] = 0"
| "le_value (b # bs) = unat b + 256 * le_value bs"

text \<open>Storing bytes at an offset of a buffer.\<close>

definition buf_store :: "nat \<Rightarrow> byte list \<Rightarrow> byte list \<Rightarrow> byte list outcome" where
  "buf_store p bs buff =
     (if p + length bs \<le> length buff then Inr (take p buff @ bs @ drop (p + length bs) buff) else Inl Out_Of_Bounds)"

lemma byte_bound: "unat (b :: byte) < 256"
proof -
  have "unat b < 2 ^ LENGTH(8)" by (rule unsigned_less)
  then show ?thesis by simp
qed

lemma length_le_bytes [simp]: "length (le_bytes n x) = n"
  by (induction n arbitrary: x) simp_all

lemma le_value_bytes: "x < 256 ^ n \<Longrightarrow> le_value (le_bytes n x) = x"
proof (induction n arbitrary: x)
  case (Suc n)
  have "unat (of_nat (x mod 256) :: byte) = x mod 256"
    by (simp add: unsigned_of_nat take_bit_eq_mod)
  moreover have "x div 256 < 256 ^ n" using Suc.prems by (simp add: less_mult_imp_div_less mult.commute)
  ultimately show ?case using Suc.IH by simp
qed simp

lemma le_bytes_value: "le_bytes (length bs) (le_value bs) = bs"
proof (induction bs)
  case (Cons b bs)
  have "unat b < 256" by (rule byte_bound)
  then show ?case using Cons.IH by simp
qed simp

lemma le_value_bound: "le_value bs < 256 ^ length bs"
proof (induction bs)
  case (Cons b bs)
  have "unat b < 256" by (rule byte_bound)
  with Cons.IH have "unat b + 256 * le_value bs < 256 * 256 ^ length bs" by linarith
  then show ?case by simp
qed simp

text \<open>Filling a buffer from the front: \<open>out\<close> has been written.\<close>

lemma buf_store_next:
  assumes "length out \<le> length buff"
  shows "buf_store (length out) bs (out @ drop (length out) buff) =
     (if length out + length bs \<le> length buff
      then Inr ((out @ bs) @ drop (length (out @ bs)) buff) else Inl Out_Of_Bounds)"
  using assms by (simp add: buf_store_def add.commute)

section \<open>\<open>getBinaryCmd\<close>\<close>

datatype cmd_flag = CMD_SET | CMD_GET | CMD_BGSAVE | CMD_SYNC | CMD_AOF_REWRIIE | CMD_SHUTDOWN

fun cmd_code :: "cmd_flag \<Rightarrow> nat" where
  "cmd_code CMD_SET = 0"
| "cmd_code CMD_GET = 1"
| "cmd_code CMD_BGSAVE = 2"
| "cmd_code CMD_SYNC = 3"
| "cmd_code CMD_AOF_REWRIIE = 4"
| "cmd_code CMD_SHUTDOWN = 5"

text \<open>\<open>int n = s.length()\<close>, and an \<open>int\<close> converted to \<open>size_t\<close>.\<close>

definition int_length :: "byte list \<Rightarrow> int" where
  "int_length s = sint (of_nat (length s) :: 32 word)"

definition to_size_t :: "int \<Rightarrow> nat" where
  "to_size_t i = nat (i mod 2 ^ 64)"

text \<open>
  One string: its length with the final zero, its bytes, the zero; \<open>p\<close> is the position, the new
  position is the last one written. \<open>memcpy\<close> copies \<open>to_size_t n\<close> bytes of a string that has no
  more than its length.
\<close>

definition put_string :: "nat \<Rightarrow> byte list \<Rightarrow> byte list \<Rightarrow> (nat \<times> byte list) outcome" where
  "put_string p s buff =
     (let n = int_length s
      in if \<not> n + 1 < 2 ^ 31 then Inl Signed_Overflow
         else
           obind (buf_store p (le_bytes 8 (to_size_t (n + 1))) buff) (\<lambda>b1.
           let p1 = p + 8
           in obind (if length s < to_size_t n then Inl Out_Of_Bounds else buf_store p1 (take (to_size_t n) s) b1) (\<lambda>b2.
              let p2 = p1 + to_size_t n
              in obind (buf_store p2 [0] b2) (\<lambda>b3. Inr (p2, b3)))))"

definition getBinaryCmd :: "byte list \<Rightarrow> cmd_flag \<Rightarrow> byte list \<Rightarrow> byte list \<Rightarrow> (nat \<times> byte list) outcome" where
  "getBinaryCmd buff flag key val =
     obind (buf_store 0 (le_bytes 4 (cmd_code flag)) buff) (\<lambda>b1.
     obind (put_string 4 key b1) (\<lambda>(p, b2).
     obind (put_string (Suc p) val b2) (\<lambda>(_, b3).
       Inr (to_size_t (4 + 2 * 8 + int_length key + int_length val + 2), b3))))"

section \<open>\<open>sendCmd\<close>\<close>

text \<open>
  \<open>r1\<close> and \<open>r2\<close> are the bytes the two \<open>read\<close> calls store (at most as many as asked for, none
  when they fail; the results of \<open>write\<close> and \<open>read\<close> are not looked at). The result is what was
  handed to \<open>write\<close> and the string returned.
\<close>

definition sendCmd ::
  "byte list \<Rightarrow> cmd_flag \<Rightarrow> byte list \<Rightarrow> byte list \<Rightarrow> byte list \<Rightarrow> byte list \<Rightarrow> (byte list \<times> byte list \<times> byte list) outcome" where
  "sendCmd buff flag key val r1 r2 =
     obind (getBinaryCmd buff flag key val) (\<lambda>(len, b1).
       let sent = (le_bytes 8 len, take len b1)
       in obind (buf_store 0 r1 (le_bytes 8 len)) (\<lambda>len_bytes.
            let len1 = le_value len_bytes
            in obind (buf_store 0 r2 b1) (\<lambda>b2.
               obind (buf_store len1 [0] b2) (\<lambda>b3.
                 Inr (fst sent, snd sent, takeWhile (\<lambda>b. b \<noteq> 0) b3)))))"

section \<open>The layout\<close>

definition string_bytes :: "byte list \<Rightarrow> byte list" where
  "string_bytes s = le_bytes 8 (length s + 1) @ s @ [0]"

definition cmd_bytes :: "cmd_flag \<Rightarrow> byte list \<Rightarrow> byte list \<Rightarrow> byte list" where
  "cmd_bytes flag key val = le_bytes 4 (cmd_code flag) @ string_bytes key @ string_bytes val"

lemma length_string_bytes [simp]: "length (string_bytes s) = length s + 9"
  by (simp add: string_bytes_def)

lemma length_cmd_bytes [simp]: "length (cmd_bytes flag key val) = length key + length val + 22"
  by (simp add: cmd_bytes_def)

lemma int_length_small: "length s < 2 ^ 31 \<Longrightarrow> int_length s = int (length s)"
  by (simp add: int_length_def signed_of_nat signed_take_bit_int_eq_self)

lemma to_size_t_small: "n < 2 ^ 64 \<Longrightarrow> to_size_t (int n) = n"
  by (simp add: to_size_t_def)

lemma put_string_eq:
  assumes out: "length out \<le> length buff" and s: "length s < 2 ^ 31 - 1"
  shows "put_string (length out) s (out @ drop (length out) buff) =
     (if length out + length s + 9 \<le> length buff
      then Inr (length out + length s + 8, (out @ string_bytes s) @ drop (length (out @ string_bytes s)) buff)
      else Inl Out_Of_Bounds)"
proof -
  have n: "int_length s = int (length s)" using s by (intro int_length_small) simp
  have z: "to_size_t (int (length s)) = length s" using s by (intro to_size_t_small) simp
  have z1: "to_size_t (int (length s) + 1) = length s + 1"
    using to_size_t_small [of "length s + 1"] s by (simp add: add.commute)
  define a where "a = out @ le_bytes 8 (length s + 1)"
  define b where "b = a @ s"
  have la: "length a = length out + 8" and lb: "length b = length out + 8 + length s"
    by (simp_all add: a_def b_def)
  have 1: "buf_store (length out) (le_bytes 8 (length s + 1)) (out @ drop (length out) buff) =
      (if length out + 8 \<le> length buff then Inr (a @ drop (length out + 8) buff) else Inl Out_Of_Bounds)"
    by (subst buf_store_next [OF out]) (simp add: a_def)
  have 2: "buf_store (length out + 8) s (a @ drop (length out + 8) buff) =
      (if length out + 8 + length s \<le> length buff then Inr (b @ drop (length out + 8 + length s) buff) else Inl Out_Of_Bounds)"
    if "length out + 8 \<le> length buff"
    using buf_store_next [of a buff s] that by (simp only: la b_def [symmetric] lb)
  have 3: "buf_store (length out + 8 + length s) [0] (b @ drop (length out + 8 + length s) buff) =
      (if length out + length s + 9 \<le> length buff
       then Inr ((out @ string_bytes s) @ drop (length (out @ string_bytes s)) buff) else Inl Out_Of_Bounds)"
    if "length out + 8 + length s \<le> length buff"
    using buf_store_next [of b buff "[0]"] that lb by (simp add: b_def a_def string_bytes_def ac_simps)
  show ?thesis
    using s unfolding put_string_def n z z1 Let_def 1
    by (auto simp: 2 3 simp del: drop_all)
qed

lemma getBinaryCmd_eq:
  assumes "length key < 2 ^ 31 - 1" and "length val < 2 ^ 31 - 1"
  shows "getBinaryCmd buff flag key val =
     (if length key + length val + 22 \<le> length buff
      then Inr (length key + length val + 22, cmd_bytes flag key val @ drop (length key + length val + 22) buff)
      else Inl Out_Of_Bounds)"
proof -
  let ?f = "le_bytes 4 (cmd_code flag)"
  have len: "to_size_t (int_length key + int_length val + 22) = length key + length val + 22"
    using assms to_size_t_small [of "length key + length val + 22"] by (simp add: int_length_small algebra_simps)
  note 1 = buf_store_next [of "[]" buff ?f, simplified]
  show ?thesis
  proof (cases "4 \<le> length buff")
    case False
    with 1 show ?thesis by (simp add: getBinaryCmd_def)
  next
    case f: True
    have 2: "put_string 4 key (?f @ drop 4 buff) = (if length key + 13 \<le> length buff
        then Inr (length key + 12, (?f @ string_bytes key) @ drop (length (?f @ string_bytes key)) buff) else Inl Out_Of_Bounds)"
      using put_string_eq [of ?f buff key] f assms(1) by (simp add: add.commute)
    show ?thesis
    proof (cases "length key + 13 \<le> length buff")
      case False
      with 1 2 f show ?thesis by (simp add: getBinaryCmd_def)
    next
      case k: True
      have "length (?f @ string_bytes key) \<le> length buff" using k by simp
      from put_string_eq [OF this assms(2)] 1 2 f k show ?thesis
        by (simp add: getBinaryCmd_def len cmd_bytes_def add.commute)
    qed
  qed
qed

section \<open>A reader of the format\<close>

definition read_string :: "byte list \<Rightarrow> (byte list \<times> byte list) option" where
  "read_string bs =
     (let n = le_value (take 8 bs); r = drop 8 bs
      in if length bs < 8 \<or> n = 0 \<or> length r < n \<or> r ! (n - 1) \<noteq> 0 then None
         else Some (take (n - 1) r, drop n r))"

definition cmd_of_code :: "nat \<Rightarrow> cmd_flag option" where
  "cmd_of_code c = List.find (\<lambda>f. cmd_code f = c) [CMD_SET, CMD_GET, CMD_BGSAVE, CMD_SYNC, CMD_AOF_REWRIIE, CMD_SHUTDOWN]"

definition read_cmd :: "byte list \<Rightarrow> (cmd_flag \<times> byte list \<times> byte list \<times> byte list) option" where
  "read_cmd bs =
     (case cmd_of_code (le_value (take 4 bs)) of
        None \<Rightarrow> None
      | Some f \<Rightarrow>
         (case read_string (drop 4 bs) of
            None \<Rightarrow> None
          | Some (key, r) \<Rightarrow>
             (case read_string r of None \<Rightarrow> None | Some (val, r2) \<Rightarrow> Some (f, key, val, r2))))"

lemma read_string_bytes: "length s < 2 ^ 64 - 1 \<Longrightarrow> read_string (string_bytes s @ rest) = Some (s, rest)"
  using le_value_bytes [of "length s + 1" 8] by (simp add: read_string_def string_bytes_def nth_append)

lemma read_cmd_bytes:
  assumes "length key < 2 ^ 64 - 1" and "length val < 2 ^ 64 - 1"
  shows "read_cmd (cmd_bytes flag key val @ rest) = Some (flag, key, val, rest)"
proof -
  have "le_value (le_bytes 4 (cmd_code flag)) = cmd_code flag"
    by (rule le_value_bytes) (cases flag; simp)
  moreover have "cmd_of_code (cmd_code flag) = Some flag"
    by (cases flag) (simp_all add: cmd_of_code_def)
  ultimately show ?thesis
    using assms by (simp add: read_cmd_def cmd_bytes_def read_string_bytes)
qed

section \<open>Properties\<close>

text \<open>The wire format. For strings whose length fits an \<open>int\<close>, \<open>getBinaryCmd\<close> writes past the
  end of the buffer exactly when the buffer has less than 22 bytes more than the two strings. Otherwise
  it returns the number of bytes it filled, leaves the rest of the buffer alone, and a reader of
  those bytes, whatever follows them, gets back the command and both strings, zero bytes in them
  included.\<close>

theorem command_roundtrip:
  assumes "length key < 2 ^ 31 - 1" and "length val < 2 ^ 31 - 1"
  shows "if length key + length val + 22 \<le> length buff
     then \<exists>len b. getBinaryCmd buff flag key val = Inr (len, b) \<and> length b = length buff \<and>
       drop len b = drop len buff \<and> read_cmd (take len b @ rest) = Some (flag, key, val, rest)
     else getBinaryCmd buff flag key val = Inl Out_Of_Bounds"
  using assms by (simp add: getBinaryCmd_eq read_cmd_bytes)

theorem command_roundtrip_witness:
  "\<exists>len b. getBinaryCmd (replicate 40 7) CMD_GET [1, 0, 2] [] = Inr (len, b) \<and>
     read_cmd (take len b) = Some (CMD_GET, [1, 0, 2], [], [])"
  using command_roundtrip [of "[1, 0, 2]" "[]" "replicate 40 7" CMD_GET "[]"] by simp blast

text \<open>A reply is trusted. With a request that leaves room in the buffer, \<open>sendCmd\<close> sends the
  length of the request and then exactly the request. If the peer announces \<open>n\<close> bytes and sends
  them, the result is what it sent up to the first zero byte, provided \<open>n\<close> is less than the size of
  the buffer; if it announces more, whatever it sends, the code writes outside the buffer. If both reads
  fail, the result is the beginning of the client's own request.\<close>

theorem reply_is_trusted:
  assumes "length key < 2 ^ 31 - 1" and "length val < 2 ^ 31 - 1" and "length key + length val + 22 < length buff"
    and "n < 2 ^ 64" and "length r2 \<le> n"
  shows "(n < length buff \<and> length r2 = n \<longrightarrow>
       sendCmd buff flag key val (le_bytes 8 n) r2 =
         Inr (le_bytes 8 (length key + length val + 22), cmd_bytes flag key val, takeWhile (\<lambda>b. b \<noteq> 0) r2)) \<and>
     (length buff \<le> n \<longrightarrow> sendCmd buff flag key val (le_bytes 8 n) r2 = Inl Out_Of_Bounds) \<and>
     sendCmd buff flag key val [] [] =
       Inr (le_bytes 8 (length key + length val + 22), cmd_bytes flag key val, takeWhile (\<lambda>b. b \<noteq> 0) (cmd_bytes flag key val))"
proof -
  let ?len = "length key + length val + 22"
  let ?c = "cmd_bytes flag key val"
  have get: "getBinaryCmd buff flag key val = Inr (?len, ?c @ drop ?len buff)"
    using assms(1-3) by (simp add: getBinaryCmd_eq)
  have n: "le_value (le_bytes 8 n) = n" and l: "le_value (le_bytes 8 ?len) = ?len"
    using assms by (simp_all add: le_value_bytes)
  have store: "buf_store 0 (le_bytes 8 n) (le_bytes 8 m) = Inr (le_bytes 8 n)" for m
    by (simp add: buf_store_def)
  have r2: "buf_store 0 r2 (?c @ drop ?len buff) =
      (if length r2 \<le> length buff then Inr (r2 @ drop (length r2) (?c @ drop ?len buff)) else Inl Out_Of_Bounds)"
    using assms(3) by (simp add: buf_store_def)
  have zero: "takeWhile (\<lambda>b. b \<noteq> 0) (xs @ 0 # ys) = takeWhile (\<lambda>b. b \<noteq> 0) xs" for xs ys :: "byte list"
    by (induction xs) simp_all
  have none: "buf_store 0 [] xs = Inr xs" for xs by (simp add: buf_store_def)
  have "sendCmd buff flag key val (le_bytes 8 n) r2 = Inr (le_bytes 8 ?len, ?c, takeWhile (\<lambda>b. b \<noteq> 0) r2)"
    if "n < length buff" "length r2 = n"
    using that assms(3) by (simp add: sendCmd_def get store n r2 Let_def) (simp add: buf_store_def zero)
  moreover have "sendCmd buff flag key val (le_bytes 8 n) r2 = Inl Out_Of_Bounds" if "length buff \<le> n"
    using that assms(3) by (simp add: sendCmd_def get store n r2 Let_def) (auto simp: buf_store_def)
  moreover have "sendCmd buff flag key val [] [] = Inr (le_bytes 8 ?len, ?c, takeWhile (\<lambda>b. b \<noteq> 0) ?c)"
    using assms(3) by (simp add: sendCmd_def get none l Let_def) (simp add: buf_store_def zero)
  ultimately show ?thesis by blast
qed

theorem reply_is_trusted_witness:
  "sendCmd (replicate 1024 0) CMD_GET [1] [] (le_bytes 8 1024) [5, 6] = Inl Out_Of_Bounds"
  using reply_is_trusted [of "[1]" "[]" "replicate 1024 0" 1024 "[5, 6]" CMD_GET] by simp

end
