(* ===== verification/Echo_Server.thy ===== *)
theory Echo_Server
  imports IO_Manager Wire_Protocol Hook
begin

text \<open>
  server.cpp: an echo server on the I/O manager. The listening socket is registered with
  \<open>test_accept\<close>, which registers each accepted connection with a handler and schedules
  \<open>watch_io_read\<close> to register the listening socket again. The results of the system calls are
  arguments.
\<close>

section \<open>The server\<close>

text \<open>The functions the server hands to the I/O manager; \<open>Echo\<close> is the closure for a connection.\<close>

datatype server_fn = Test_IOmanager | Watch_Io_Read | Test_Accept | Echo int

definition watch_io_read ::
  "'k epoll \<Rightarrow> nat \<Rightarrow> nat \<Rightarrow> fiber_state \<Rightarrow> int \<Rightarrow> (server_fn, 'k) io_manager
   \<Rightarrow> (int \<times> (server_fn, 'k) io_manager) outcome" where
  "watch_io_read ep this q st sock_listen_fd io =
     add_event ep (Some this) q st sock_listen_fd READ (Some (User_Fn Test_Accept)) io"

text \<open>\<open>fd\<close> is the result of \<open>accept\<close>, \<open>this\<close> the scheduler of the thread, \<open>q\<close> the running fiber.\<close>

definition test_accept ::
  "'k epoll \<Rightarrow> nat \<Rightarrow> nat \<Rightarrow> fiber_state \<Rightarrow> int \<Rightarrow> (server_fn, 'k) io_manager \<Rightarrow> (server_fn, 'k) io_manager outcome" where
  "test_accept ep this q st fd io =
     obind (if fd < 0 then Inr io
            else obind (add_event ep (Some this) q st fd READ (Some (User_Fn (Echo fd))) io) (\<lambda>(rt, io1). Inr io1)) (\<lambda>io1.
       post (Some this) (task_of_cb (Some (User_Fn Watch_Io_Read)) None) io1)"

text \<open>The set-up; no result means that the process exits.\<close>

definition test_IOmanager ::
  "'k epoll \<Rightarrow> nat \<Rightarrow> nat \<Rightarrow> fiber_state \<Rightarrow> int \<Rightarrow> int \<Rightarrow> int \<Rightarrow> (server_fn, 'k) io_manager
   \<Rightarrow> (server_fn, 'k) io_manager option outcome" where
  "test_IOmanager ep this q st sock bind_rt listen_rt io =
     (if sock < 0 \<or> bind_rt < 0 \<or> listen_rt = -1 then Inr None
      else obind (add_event ep (Some this) q st sock READ (Some (User_Fn Test_Accept)) io) (\<lambda>(rt, io1). Inr (Some io1)))"

section \<open>The handler of a connection\<close>

text \<open>
  What \<open>read\<close> and \<open>write\<close> give: a positive result (with the bytes read), zero, or a failure
  with its \<open>errno\<close>.
\<close>

datatype read_result = Rd_Data "byte list" | Rd_Eof | Rd_Fail int
datatype write_result = Wr_Done | Wr_Zero | Wr_Fail int

text \<open>
  The handler, on the results of its successive calls (the second of each pair is used only when
  something was read); \<open>err\<close> is \<open>errno\<close>, which only a failing call changes. It gives the
  blocks written and whether the handler has closed the connection and returned.
\<close>

fun echo_loop :: "(read_result \<times> write_result) list \<Rightarrow> int \<Rightarrow> byte list \<Rightarrow> byte list list \<times> bool" where
  "echo_loop [] err buf = ([], False)"
| "echo_loop ((Rd_Data d, w) # rs) err buf =
     (let buf1 = d @ drop (length d) buf
      in case w of
           Wr_Done \<Rightarrow> (case echo_loop rs err buf1 of (out, closed) \<Rightarrow> (buf1 # out, closed))
         | Wr_Zero \<Rightarrow>
             if err = EAGAIN then (case echo_loop rs err buf1 of (out, closed) \<Rightarrow> (buf1 # out, closed)) else ([buf1], True)
         | Wr_Fail e \<Rightarrow>
             if e = EAGAIN then (case echo_loop rs e buf1 of (out, closed) \<Rightarrow> (buf1 # out, closed)) else ([buf1], True))"
| "echo_loop ((Rd_Eof, w) # rs) err buf = (if err = EAGAIN then echo_loop rs err buf else ([], True))"
| "echo_loop ((Rd_Fail e, w) # rs) err buf = (if e = EAGAIN then echo_loop rs e buf else ([], True))"

definition echo_handler :: "(read_result \<times> write_result) list \<Rightarrow> int \<Rightarrow> byte list list \<times> bool" where
  "echo_handler rs err = echo_loop rs err (replicate 1024 0)"

section \<open>What comes back\<close>

text \<open>A connection on which data arrives (\<open>Some\<close>) or is not there yet (\<open>None\<close>), all writes succeeding.\<close>

definition traffic :: "byte list option list \<Rightarrow> (read_result \<times> write_result) list" where
  "traffic evs = map (\<lambda>x. (case x of Some d \<Rightarrow> Rd_Data d | None \<Rightarrow> Rd_Fail EAGAIN, Wr_Done)) evs"

fun echo_blocks :: "byte list \<Rightarrow> byte list option list \<Rightarrow> byte list list" where
  "echo_blocks buf [] = []"
| "echo_blocks buf (None # evs) = echo_blocks buf evs"
| "echo_blocks buf (Some d # evs) = (d @ drop (length d) buf) # echo_blocks (d @ drop (length d) buf) evs"

lemma traffic_simps [simp]:
  "traffic [] = []"
  "traffic (None # evs) = (Rd_Fail EAGAIN, Wr_Done) # traffic evs"
  "traffic (Some d # evs) = (Rd_Data d, Wr_Done) # traffic evs"
  by (simp_all add: traffic_def)

lemma echo_loop_eofs: "echo_loop (replicate k (Rd_Eof, w)) err buf = ([], err \<noteq> EAGAIN \<and> 0 < k)"
  by (induction k) auto

lemma echo_loop_traffic:
  "echo_loop (traffic evs @ replicate k (Rd_Eof, w)) err buf =
     (echo_blocks buf evs, err \<noteq> EAGAIN \<and> None \<notin> set evs \<and> 0 < k)"
proof (induction evs arbitrary: err buf)
  case Nil
  show ?case by (simp add: echo_loop_eofs)
next
  case (Cons x evs)
  show ?case by (cases x) (simp_all add: Cons.IH Let_def)
qed

lemma echo_blocks_length:
  assumes "length buf = n" and "\<forall>d. Some d \<in> set evs \<longrightarrow> length d \<le> n"
  shows "\<forall>b\<in>set (echo_blocks buf evs). length b = n"
  using assms
proof (induction evs arbitrary: buf)
  case (Cons x evs)
  have evs: "\<forall>d. Some d \<in> set evs \<longrightarrow> length d \<le> n" using Cons.prems(2) by simp
  show ?case
  proof (cases x)
    case None
    with Cons.IH [OF Cons.prems(1) evs] show ?thesis by simp
  next
    case (Some d)
    define b where "b = d @ drop (length d) buf"
    have "length d \<le> length buf" using Cons.prems Some by auto
    then have b: "length b = n" using Cons.prems(1) by (simp add: b_def)
    from Cons.IH [OF b evs] b show ?thesis by (simp only: Some echo_blocks.simps b_def [symmetric]) simp
  qed
qed simp

lemma echo_blocks_number: "length (echo_blocks buf evs) = length (filter (\<lambda>x. x \<noteq> None) evs)"
proof (induction evs arbitrary: buf)
  case (Cons x evs)
  then show ?case by (cases x) auto
qed simp

text \<open>Posting a task appends it to the queue of its scheduler and changes no event.\<close>

lemma post_grows:
  assumes "post (Some i) task io = Inr io'"
  shows "queues_grow (\<lambda>p. if p = i \<and> \<not> task_empty task then [task] else []) io io'" and "io_same io io'"
  using assms by (auto elim!: post_Inr simp: queues_grow_def)

section \<open>Properties\<close>

text \<open>The echo is not what was sent. On a connection on which data keeps arriving, with pauses, and
  whose writes succeed, the handler answers every read with one block of 1024 bytes, whatever the
  number of bytes read; a block starts with the bytes read and goes on with what is left in the
  buffer from earlier reads.\<close>

theorem echo_sends_whole_buffer:
  assumes "\<forall>d. Some d \<in> set evs \<longrightarrow> length d \<le> 1024"
  shows "\<exists>out. fst (echo_handler (traffic evs) err) = out \<and> out = echo_blocks (replicate 1024 0) evs \<and>
     length out = length (filter (\<lambda>x. x \<noteq> None) evs) \<and> (\<forall>b\<in>set out. length b = 1024)"
proof -
  have out: "fst (echo_handler (traffic evs) err) = echo_blocks (replicate 1024 0) evs"
    using echo_loop_traffic [of evs 0] by (simp add: echo_handler_def)
  have "\<forall>b\<in>set (echo_blocks (replicate 1024 0) evs). length b = 1024"
    by (rule echo_blocks_length) (use assms in simp_all)
  with out show ?thesis by (simp add: echo_blocks_number)
qed

theorem echo_sends_whole_buffer_witness:
  "length (concat (fst (echo_handler (traffic [Some [104, 105], None, Some [33]]) 0))) = 2048"
proof -
  obtain out where "fst (echo_handler (traffic [Some [104, 105], None, Some [33]]) 0) = out" and "length out = 2"
    and "\<forall>b\<in>set out. length b = 1024"
    using echo_sends_whole_buffer [of "[Some [104, 105], None, Some [33]]" 0] by auto
  then show ?thesis by (auto simp: numeral_2_eq_2 length_Suc_conv)
qed

text \<open>\<open>errno\<close> after one round and after several: only a failing call sets it.\<close>

fun errno_step :: "read_result \<times> write_result \<Rightarrow> int \<Rightarrow> int" where
  "errno_step (Rd_Fail e, w) err = e"
| "errno_step (Rd_Data d, Wr_Fail e) err = e"
| "errno_step _ err = err"

definition errno_after :: "(read_result \<times> write_result) list \<Rightarrow> int \<Rightarrow> int" where
  "errno_after rs err = fold errno_step rs err"

text \<open>The rounds that end with \<open>ret <= 0\<close>.\<close>

fun nothing_done :: "read_result \<times> write_result \<Rightarrow> bool" where
  "nothing_done (Rd_Data d, w) \<longleftrightarrow> w \<noteq> Wr_Done"
| "nothing_done _ \<longleftrightarrow> True"

lemma errno_after_simps [simp]:
  "errno_after [] err = err" "errno_after (x # rs) err = errno_after rs (errno_step x err)"
  "errno_after (rs @ rs') err = errno_after rs' (errno_after rs err)"
  by (simp_all add: errno_after_def)

lemma echo_loop_ends:
  "snd (echo_loop rs err buf) \<longleftrightarrow> (\<exists>i<length rs. nothing_done (rs ! i) \<and> errno_after (take (Suc i) rs) err \<noteq> EAGAIN)"
proof (induction rs arbitrary: err buf)
  case (Cons x rs)
  obtain r w where x: "x = (r, w)" by (cases x)
  show ?case
    by (cases r; cases w) (auto simp: x Ex_less_Suc2 Cons.IH Let_def split_beta)
qed simp

text \<open>All failures are \<open>EAGAIN\<close>, and neither call returns zero.\<close>

definition only_waits :: "(read_result \<times> write_result) list \<Rightarrow> bool" where
  "only_waits rs \<longleftrightarrow> (\<forall>x\<in>set rs. nothing_done x \<longrightarrow> (\<exists>w. x = (Rd_Fail EAGAIN, w)) \<or> (\<exists>d. x = (Rd_Data d, Wr_Fail EAGAIN)))"

lemma echo_loop_eofs_after:
  "only_waits rs \<Longrightarrow> snd (echo_loop (rs @ replicate k (Rd_Eof, w)) err buf) \<longleftrightarrow>
     err \<noteq> EAGAIN \<and> \<not> list_ex nothing_done rs \<and> 0 < k"
proof (induction rs arbitrary: err buf)
  case Nil
  show ?case by (simp add: echo_loop_eofs)
next
  case (Cons x rs)
  obtain r w' where x: "x = (r, w')" by (cases x)
  have rs: "only_waits rs" using Cons.prems by (simp add: only_waits_def)
  show ?case
    using Cons.prems
    by (cases r; cases w') (auto simp: x Cons.IH [OF rs] only_waits_def Let_def split_beta)
qed

text \<open>C38: when the handler ends, for any results of its calls. It closes the connection and returns
  exactly if in some round nothing was read or not everything was written (a failure or a zero
  result) and \<open>errno\<close>, which only failing calls set, is not \<open>EAGAIN\<close> after it. So if all failures are
  \<open>EAGAIN\<close> and then \<open>read\<close> reports the end of the stream, however often, the handler returns exactly
  if no read and no write had failed and \<open>errno\<close> was not \<open>EAGAIN\<close> on entry: otherwise the stale value
  makes it spin for ever.\<close>

theorem echo_handler_ends:
  "(snd (echo_handler rs err) \<longleftrightarrow>
      (\<exists>i<length rs. nothing_done (rs ! i) \<and> errno_after (take (Suc i) rs) err \<noteq> EAGAIN)) \<and>
   (only_waits rs \<longrightarrow>
      (snd (echo_handler (rs @ replicate k (Rd_Eof, w)) err) \<longleftrightarrow> err \<noteq> EAGAIN \<and> \<not> list_ex nothing_done rs \<and> 0 < k))"
  unfolding echo_handler_def using echo_loop_ends echo_loop_eofs_after by blast

theorem echo_handler_ends_witness:
  "\<not> snd (echo_handler ([(Rd_Data [104], Wr_Fail EAGAIN), (Rd_Data [105], Wr_Done)] @ replicate 3 (Rd_Eof, Wr_Done)) 0) \<and>
   snd (echo_handler ([(Rd_Data [104], Wr_Done)] @ replicate 3 (Rd_Eof, Wr_Done)) 0)"
  using echo_handler_ends [of "[(Rd_Data [104], Wr_Fail EAGAIN), (Rd_Data [105], Wr_Done)]" 0 3 Wr_Done]
    echo_handler_ends [of "[(Rd_Data [104], Wr_Done)]" 0 3 Wr_Done]
  by (simp add: only_waits_def EAGAIN_def)

text \<open>Accepting. In a state the I/O manager reaches, with a live scheduler: when \<open>accept\<close> failed,
  only \<open>watch_io_read\<close> is scheduled. When it gave a descriptor from 32 on, registering it
  indexes outside the event table. Otherwise, if the kernel accepts the descriptor and the tick
  does not block, its read event is registered with its handler, one more event is pending, and
  exactly \<open>watch_io_read\<close> is appended to the scheduler's queue.\<close>

theorem accept_registers:
  fixes io :: "(server_fn, 'k) io_manager"
  assumes "reach (io_start ep) (io_step ep held) io" and "epoll_law ep" and "alive io this"
    and "test_accept ep this q st fd io = r"
  shows "(32 \<le> fd \<and> fd < 2 ^ 30 \<longrightarrow> r = Inl Out_Of_Bounds) \<and>
     (\<forall>io'. r = Inr io' \<longrightarrow>
        queues_grow (\<lambda>p. if p = this then [task_of_cb (Some (User_Fn Watch_Io_Read)) None] else []) io io' \<and>
        (fd < 0 \<longrightarrow> m_fdContexts io' = m_fdContexts io \<and> m_pendingEventCount io' = m_pendingEventCount io) \<and>
        (0 \<le> fd \<longrightarrow> (m_fdContexts io' = m_fdContexts io \<and> m_pendingEventCount io' = m_pendingEventCount io) \<or>
           (m_fdContexts io' = (m_fdContexts io)[nat fd := event_set Read_Slot READ
                (event_context_of (Some this) q (Some (User_Fn (Echo fd)))) (m_fdContexts io ! nat fd)] \<and>
            m_pendingEventCount io' = m_pendingEventCount io + 1)))"
proof -
  have "io_wf ep io" using io_safe.reach_inv [OF assms(1)] assms(2) by blast
  then have core: "io_core io" by (simp add: io_wf_def)
  then have len: "length (m_fdContexts io) = 32" by (simp add: io_core_def)
  have "r = Inl Out_Of_Bounds" if fd: "32 \<le> fd" "fd < 2 ^ 30"
  proof -
    have "\<not> in_table fd io" using fd len by (simp add: in_table_def)
    from add_event_ctx_out [OF len this] fd assms(4) show ?thesis by (auto simp: test_accept_def add_event_def)
  qed
  moreover have "queues_grow (\<lambda>p. if p = this then [task_of_cb (Some (User_Fn Watch_Io_Read)) None] else []) io io' \<and>
        (fd < 0 \<longrightarrow> m_fdContexts io' = m_fdContexts io \<and> m_pendingEventCount io' = m_pendingEventCount io) \<and>
        (0 \<le> fd \<longrightarrow> (m_fdContexts io' = m_fdContexts io \<and> m_pendingEventCount io' = m_pendingEventCount io) \<or>
           (m_fdContexts io' = (m_fdContexts io)[nat fd := event_set Read_Slot READ
                (event_context_of (Some this) q (Some (User_Fn (Echo fd)))) (m_fdContexts io ! nat fd)] \<and>
            m_pendingEventCount io' = m_pendingEventCount io + 1))"
    if r: "r = Inr io'" for io'
  proof (cases "fd < 0")
    case True
    with r assms(4) have "post (Some this) (task_of_cb (Some (User_Fn Watch_Io_Read)) None) io = Inr io'"
      by (simp add: test_accept_def)
    from post_grows [OF this] True show ?thesis by (simp add: io_same_def task_empty_def)
  next
    case False
    with r assms(4) obtain rt io1 where a: "add_event ep (Some this) q st fd READ (Some (User_Fn (Echo fd))) io = Inr (rt, io1)"
      and p: "post (Some this) (task_of_cb (Some (User_Fn Watch_Io_Read)) None) io1 = Inr io'"
      by (auto simp: test_accept_def elim!: obind_InrE)
    have "im_schedulers io1 = im_schedulers io \<and>
        ((m_fdContexts io1 = m_fdContexts io \<and> m_pendingEventCount io1 = m_pendingEventCount io) \<or>
         (m_fdContexts io1 = (m_fdContexts io)[nat fd := event_set Read_Slot READ
                (event_context_of (Some this) q (Some (User_Fn (Echo fd)))) (m_fdContexts io ! nat fd)] \<and>
            m_pendingEventCount io1 = m_pendingEventCount io + 1))"
      using core a by (rule add_event_Inr) auto
    with post_grows [OF p] False show ?thesis by (auto simp: io_same_def task_empty_def queues_grow_def)
  qed
  ultimately show ?thesis by blast
qed

definition sample_server :: "(server_fn, int \<Rightarrow> event_bits option) io_manager" where
  "sample_server = fresh_io"

theorem accept_registers_witness: "test_accept sample_epoll 0 9 RUNNING 40 sample_server = Inl Out_Of_Bounds"
proof -
  have "alive sample_server 0" by (simp add: alive_def sample_server_def fresh_io_def)
  moreover have "reach (io_start sample_epoll) (io_step sample_epoll {}) sample_server"
    unfolding sample_server_def by (rule sample_io_reach)
  ultimately show ?thesis
    using accept_registers [where held = "{}" and io = sample_server and this = 0 and q = 9 and st = RUNNING and fd = 40,
        OF _ sample_epoll_law _ refl] by simp
qed

end
