(* ===== verification/Demo_Client.thy ===== *)
theory Demo_Client
  imports IO_Manager Echo_Server
begin

text \<open>
  The demonstrations of timers and of events in test.cpp. \<open>testTimer\<close> arms three timers; the
  callback of the recurring one resets its own period, and in the end cancels it. \<open>test_io\<close>
  connects, then reads as long as the peer sends. Printing is left out.
\<close>

section \<open>\<open>testTimer\<close>\<close>

text \<open>The three callbacks; the two that only print are \<open>Say_50\<close> and \<open>Say_2000\<close>.\<close>

datatype timer_fn = Timer_CallBack | Say_50 | Say_2000

text \<open>
  The lambda \<open>timer_callBack\<close> at clock reading \<open>now\<close>: \<open>timeout\<close> and \<open>s_timer\<close> are the
  static variables. The flag of the result says that \<open>onTimerInsertedAtFront\<close> is called.
\<close>

definition timer_callBack ::
  "millis \<Rightarrow> nat option \<Rightarrow> int \<Rightarrow> timer_fn timer_manager \<Rightarrow> (int \<times> bool \<times> timer_fn timer_manager) outcome" where
  "timer_callBack now s_timer timeout m =
     (if timeout + 100 \<ge> 2 ^ 31 then Inl Signed_Overflow
      else
        case s_timer of
          None \<Rightarrow> Inl Null_Deref
        | Some p \<Rightarrow>
            if timeout + 100 < 500
            then obind (timer_reset now p (timeout + 100) True m) (\<lambda>(_, front, m1). Inr (timeout + 100, front, m1))
            else obind (timer_cancel p m) (\<lambda>(_, m1). Inr (timeout + 100, False, m1)))"

text \<open>
  What the demonstration goes through: the static variables, the tasks scheduled for expired timers
  and not executed yet, and the timers.
\<close>

record demo =
  dm_timeout :: int
  dm_s_timer :: "nat option"
  dm_queue :: "timer_fn list"
  dm_manager :: "timer_fn timer_manager"

text \<open>The set-up, on the manager of the new \<open>IOManager\<close>; \<open>p1\<close> to \<open>p3\<close> are the new timers.\<close>

definition testTimer ::
  "millis \<Rightarrow> millis \<Rightarrow> millis \<Rightarrow> nat \<Rightarrow> nat \<Rightarrow> nat \<Rightarrow> timer_fn timer_manager \<Rightarrow> demo outcome" where
  "testTimer n1 n2 n3 p1 p2 p3 m =
     obind (add_timer n1 p1 100 (Some Timer_CallBack) True m) (\<lambda>(_, m1).
     obind (add_timer n2 p2 50 (Some Say_50) False m1) (\<lambda>(_, m2).
     obind (add_timer n3 p3 2000 (Some Say_2000) False m2) (\<lambda>(_, m3).
       Inr \<lparr>dm_timeout = 100, dm_s_timer = Some p1, dm_queue = [], dm_manager = m3\<rparr>)))"

text \<open>
  Afterwards the idle loop collects expired timers (\<open>Collect\<close>, with the clock and the address of
  the probe) and workers execute what was scheduled (\<open>Execute\<close>), in any order.
\<close>

datatype demo_act = Collect millis nat | Execute millis

fun demo_step :: "demo_act \<Rightarrow> demo \<Rightarrow> demo outcome" where
  "demo_step (Collect now a) d =
     obind (list_expired_cb now a [] (dm_manager d)) (\<lambda>(cbs, m).
       Inr (d\<lparr>dm_queue := dm_queue d @ List.map_filter id cbs, dm_manager := m\<rparr>))"
| "demo_step (Execute now) d =
     (case dm_queue d of
        [] \<Rightarrow> Inr d
      | Timer_CallBack # q \<Rightarrow>
          obind (timer_callBack now (dm_s_timer d) (dm_timeout d) (dm_manager d)) (\<lambda>(timeout, _, m).
            Inr (d\<lparr>dm_timeout := timeout, dm_queue := q, dm_manager := m\<rparr>))
      | _ # q \<Rightarrow> Inr (d\<lparr>dm_queue := q\<rparr>))"

fun demo_run :: "demo_act list \<Rightarrow> demo \<Rightarrow> demo outcome" where
  "demo_run [] d = Inr d"
| "demo_run (x # xs) d = obind (demo_step x d) (demo_run xs)"

section \<open>The life of the recurring timer\<close>

text \<open>
  While \<open>timeout\<close> is below 500 the timer is armed with \<open>timeout\<close> as its period; from 500 on it
  is cancelled. No other timer recurs.
\<close>

definition recurs :: "nat \<Rightarrow> int \<Rightarrow> timer_fn timer_manager \<Rightarrow> bool" where
  "recurs p timeout m \<longleftrightarrow> (\<exists>t. timer_store m p = Some t \<and> m_recurring t \<and>
     (if timeout < 500 then m_cb t = Some Timer_CallBack \<and> m_ms t = timeout
      else m_cb t = None \<and> p \<notin> set (m_timers m)))"

definition others_once :: "nat \<Rightarrow> timer_fn timer_manager \<Rightarrow> bool" where
  "others_once p m \<longleftrightarrow> (\<forall>q t. timer_store m q = Some t \<and> q \<noteq> p \<longrightarrow> \<not> m_recurring t \<and> m_cb t \<noteq> Some Timer_CallBack)"

definition demo_inv :: "nat \<Rightarrow> nat set \<Rightarrow> demo \<Rightarrow> bool" where
  "demo_inv p A d \<longleftrightarrow> tm_wf (dm_manager d) \<and> dom (timer_store (dm_manager d)) = A \<and> dm_s_timer d = Some p \<and>
     100 \<le> dm_timeout d \<and> recurs p (dm_timeout d) (dm_manager d) \<and> others_once p (dm_manager d)"

lemma recursE:
  assumes "recurs p timeout m"
  obtains t where "timer_store m p = Some t" and "m_recurring t"
    and "if timeout < 500 then m_cb t = Some Timer_CallBack \<and> m_ms t = timeout
         else m_cb t = None \<and> p \<notin> set (m_timers m)"
  using assms unfolding recurs_def by blast

lemma others_upd: "others_once p m \<Longrightarrow> timer_store m' = (timer_store m)(p \<mapsto> t) \<Longrightarrow> others_once p m'"
  by (simp add: others_once_def)

text \<open>How often the callback is scheduled and not executed yet.\<close>

definition pending_calls :: "demo \<Rightarrow> nat" where
  "pending_calls d = count_list (dm_queue d) Timer_CallBack"

definition act_ok :: "nat set \<Rightarrow> demo_act \<Rightarrow> bool" where
  "act_ok A x = (case x of Collect now a \<Rightarrow> a \<notin> A \<and> 0 \<le> now \<and> now < 2 ^ 62 | Execute now \<Rightarrow> 0 \<le> now \<and> now < 2 ^ 62)"

lemma testTimer_inv:
  assumes "tm_start m" and "timer_store m = Map.empty" and "distinct [p1, p2, p3]"
    and run: "testTimer n1 n2 n3 p1 p2 p3 m = Inr d"
  shows "demo_inv p1 {p1, p2, p3} d" and "dm_timeout d = 100" and "dm_queue d = []"
proof -
  from run obtain f1 m1 f2 m2 f3 m3 where a: "add_timer n1 p1 100 (Some Timer_CallBack) True m = Inr (f1, m1)"
      "add_timer n2 p2 50 (Some Say_50) False m1 = Inr (f2, m2)" "add_timer n3 p3 2000 (Some Say_2000) False m2 = Inr (f3, m3)"
    and d: "d = \<lparr>dm_timeout = 100, dm_s_timer = Some p1, dm_queue = [], dm_manager = m3\<rparr>"
    by (auto simp: testTimer_def outcome_simps)
  note 1 = add_timer_Inr [OF tm_start_wf [OF assms(1)] _ a(1)]
  note 2 = add_timer_Inr [OF 1(1) _ a(2)]
  note 3 = add_timer_Inr [OF 2(1) _ a(3)]
  from 1 2 3 assms(2,3) show "demo_inv p1 {p1, p2, p3} d"
    by (auto simp: demo_inv_def recurs_def others_once_def d split: if_splits)
  show "dm_timeout d = 100" "dm_queue d = []" by (simp_all add: d)
qed

lemma fired_same [simp]:
  "m_recurring (fired now t) = m_recurring t" "m_ms (fired now t) = m_ms t"
  "m_cb (fired now t) = (if m_recurring t then m_cb t else None)"
  by (simp_all add: fired_def)

lemma fire_store_cases:
  "fire_store now ps h q = Some t' \<Longrightarrow> \<exists>t. h q = Some t \<and> t' = (if q \<in> set ps then fired now t else t)"
  by (auto simp: fire_store_def split: if_splits)

lemma expired_in: "q \<in> set (expired_timers now m) \<Longrightarrow> q \<in> set (m_timers m)"
  by (auto simp: expired_timers_def split: if_splits)

lemma map_filter_id_Timer:
  "(\<forall>x\<in>set cbs. x \<noteq> Some f) \<Longrightarrow> count_list (List.map_filter id cbs) f = 0"
  by (induction cbs) (auto simp: List.map_filter_simps split: option.splits)

text \<open>Collecting never faults, and changes neither the variables nor which timers are armed to recur.\<close>

lemma demo_collect:
  assumes inv: "demo_inv p A d" and ok: "act_ok A (Collect now a)"
  obtains d' where "demo_step (Collect now a) d = Inr d'" and "demo_inv p A d'" and "dm_timeout d' = dm_timeout d"
    and "500 \<le> dm_timeout d \<Longrightarrow> pending_calls d' = pending_calls d"
proof -
  let ?m = "dm_manager d" and ?e = "expired_timers now (dm_manager d)"
  have wf: "tm_wf ?m" and dom: "dom (timer_store ?m) = A" using inv by (simp_all add: demo_inv_def)
  then have a: "a \<notin> dom (timer_store ?m)" using ok by (simp add: act_ok_def)
  obtain t where t: "timer_store ?m p = Some t" "m_recurring t"
    and live: "if dm_timeout d < 500 then m_cb t = Some Timer_CallBack \<and> m_ms t = dm_timeout d
         else m_cb t = None \<and> p \<notin> set (m_timers ?m)"
    using inv recursE unfolding demo_inv_def by metis
  have others: "\<not> m_recurring u \<and> m_cb u \<noteq> Some Timer_CallBack" if "timer_store ?m q = Some u" "q \<noteq> p" for q u
    using that inv by (simp add: demo_inv_def others_once_def)
  have "ms_in_range (now + m_ms u)" if "q \<in> set ?e" "timer_store ?m q = Some u" "m_recurring u" for q u
  proof -
    have q: "q = p" using others that by blast
    then have "dm_timeout d < 500" using live that expired_in by (metis (full_types))
    then have "m_ms u < 500 \<and> 100 \<le> m_ms u" using live t q that inv by (auto simp: demo_inv_def)
    then show ?thesis using ok by (simp add: act_ok_def ms_in_range_def)
  qed
  then obtain cbs m' where run: "list_expired_cb now a [] ?m = Inr (cbs, m')"
    using list_expired_total [OF wf a] by blast
  note r = list_expired_Inr [OF wf a run]
  let ?d = "d\<lparr>dm_queue := dm_queue d @ List.map_filter id cbs, dm_manager := m'\<rparr>"
  have "dom (timer_store m') = A" using r(2) dom by (auto simp: fire_store_def dom_def)
  moreover have "recurs p (dm_timeout d) m'"
    unfolding recurs_def using t live r(2,3) by (auto simp: fire_store_def dest: expired_in)
  moreover have "\<not> m_recurring u \<and> m_cb u \<noteq> Some Timer_CallBack" if u: "timer_store m' q = Some u" "q \<noteq> p" for q u
    using fire_store_cases [of now ?e "timer_store ?m" q u] others [of q] u r(2)
    by (auto split: if_splits)
  then have "others_once p m'" unfolding others_once_def by blast
  ultimately have "demo_inv p A ?d" using inv r(4) by (simp add: demo_inv_def)
  moreover have "pending_calls ?d = pending_calls d" if "500 \<le> dm_timeout d"
  proof -
    have "callback_of ?m q \<noteq> Some Timer_CallBack" if "q \<in> set ?e" for q
      using that live \<open>500 \<le> dm_timeout d\<close> t others [of q] expired_in [OF that]
      by (cases "timer_store ?m q") (auto simp: callback_of_def)
    then have "count_list (List.map_filter id cbs) Timer_CallBack = 0"
      by (intro map_filter_id_Timer) (auto simp: r(1))
    then show ?thesis by (simp add: pending_calls_def)
  qed
  ultimately show thesis using that [of ?d] by (simp add: run)
qed

lemma demo_execute:
  assumes inv: "demo_inv p A d" and ok: "act_ok A (Execute now)" and r: "dm_timeout d + 100 < 2 ^ 31"
  obtains d' where "demo_step (Execute now) d = Inr d'" and "demo_inv p A d'"
    and "dm_timeout d' + 100 * int (pending_calls d') = dm_timeout d + 100 * int (pending_calls d)"
    and "dm_timeout d' \<in> {dm_timeout d, dm_timeout d + 100}"
proof (cases "\<exists>q. dm_queue d = Timer_CallBack # q")
  case False
  then have "demo_step (Execute now) d = Inr (d\<lparr>dm_queue := List.tl (dm_queue d)\<rparr>)"
    and "pending_calls (d\<lparr>dm_queue := List.tl (dm_queue d)\<rparr>) = pending_calls d"
    by (cases "dm_queue d"; auto simp: pending_calls_def split: timer_fn.split)+
  with that [of "d\<lparr>dm_queue := List.tl (dm_queue d)\<rparr>"] inv show thesis by (simp add: demo_inv_def)
next
  case True
  then obtain q where q: "dm_queue d = Timer_CallBack # q" by blast
  let ?m = "dm_manager d"
  have wf: "tm_wf ?m" and s: "dm_s_timer d = Some p" using inv by (simp_all add: demo_inv_def)
  obtain t where t: "timer_store ?m p = Some t" "m_recurring t"
    and live: "if dm_timeout d < 500 then m_cb t = Some Timer_CallBack \<and> m_ms t = dm_timeout d
         else m_cb t = None \<and> p \<notin> set (m_timers ?m)"
    using inv recursE unfolding demo_inv_def by metis
  have step: "\<exists>f m'. timer_callBack now (dm_s_timer d) (dm_timeout d) ?m = Inr (dm_timeout d + 100, f, m') \<and>
      demo_inv p A (d\<lparr>dm_timeout := dm_timeout d + 100, dm_queue := q, dm_manager := m'\<rparr>)"
  proof -
    consider (again) "dm_timeout d + 100 < 500" | (last) "dm_timeout d < 500" "500 \<le> dm_timeout d + 100"
      | (after) "500 \<le> dm_timeout d" by linarith
    then show ?thesis
    proof cases
      case again
      then have cb: "m_cb t = Some Timer_CallBack" using live by simp
      have "ms_in_range (now + (dm_timeout d + 100))"
        using ok again inv by (simp add: act_ok_def ms_in_range_def demo_inv_def)
      then obtain f m' where m': "timer_reset now p (dm_timeout d + 100) True ?m = Inr (True, f, m')" "tm_wf m'"
          "timer_store m' = (timer_store ?m)(p \<mapsto> t\<lparr>m_ms := dm_timeout d + 100, m_next := now + (dm_timeout d + 100)\<rparr>)"
        using timer_reset_armed [OF wf t(1), of "dm_timeout d + 100" True now now] cb by auto
      then show ?thesis
        using again r s t cb inv by (auto simp: timer_callBack_def demo_inv_def recurs_def elim: others_upd)
    next
      case last
      then have cb: "m_cb t = Some Timer_CallBack" using live by simp
      let ?m' = "?m\<lparr>timer_store := (timer_store ?m)(p \<mapsto> t\<lparr>m_cb := None\<rparr>), m_timers := remove1 p (m_timers ?m)\<rparr>"
      have "timer_cancel p ?m = Inr (True, ?m')" by (rule timer_cancel_armed [OF wf t(1)]) (simp add: cb)
      moreover have "tm_wf ?m'" by (rule cancel_wf [OF wf t(1)])
      moreover have "p \<notin> set (remove1 p (m_timers ?m))" using tm_wf_distinct [OF wf] by simp
      ultimately show ?thesis
        using last r s t inv by (auto simp: timer_callBack_def demo_inv_def recurs_def elim: others_upd)
    next
      case after
      then have cb: "m_cb t = None" using live by simp
      then have "timer_cancel p ?m = Inr (False, ?m)" by (rule timer_cancel_dead [OF t(1)])
      then show ?thesis
        using after r s inv by (auto simp: timer_callBack_def demo_inv_def recurs_def)
    qed
  qed
  then obtain f m' where c: "timer_callBack now (dm_s_timer d) (dm_timeout d) ?m = Inr (dm_timeout d + 100, f, m')"
    and i: "demo_inv p A (d\<lparr>dm_timeout := dm_timeout d + 100, dm_queue := q, dm_manager := m'\<rparr>)" by blast
  show thesis
    by (rule that [OF _ i]) (simp_all add: q c pending_calls_def)
qed

lemma demo_run_inv:
  assumes "demo_inv p A d" and "\<forall>x\<in>set xs. act_ok A x" and "dm_timeout d + 100 * int (length xs) < 2 ^ 31"
  shows "\<exists>d'. demo_run xs d = Inr d' \<and> demo_inv p A d' \<and> dm_timeout d \<le> dm_timeout d' \<and>
     dm_timeout d' \<le> dm_timeout d + 100 * int (length xs) \<and>
     (500 \<le> dm_timeout d \<longrightarrow>
        dm_timeout d' + 100 * int (pending_calls d') = dm_timeout d + 100 * int (pending_calls d))"
  using assms
proof (induction xs arbitrary: d)
  case (Cons x xs)
  have ok: "act_ok A x" using Cons.prems(2) by simp
  have "\<exists>d1. demo_step x d = Inr d1 \<and> demo_inv p A d1 \<and> dm_timeout d \<le> dm_timeout d1 \<and>
      dm_timeout d1 \<le> dm_timeout d + 100 \<and>
      (500 \<le> dm_timeout d \<longrightarrow>
        dm_timeout d1 + 100 * int (pending_calls d1) = dm_timeout d + 100 * int (pending_calls d))"
  proof (cases x)
    case (Collect now a)
    with demo_collect [OF Cons.prems(1)] ok show ?thesis by (metis order_refl zle_add1_eq_le add_increasing2 zero_le_numeral)
  next
    case (Execute now)
    have "dm_timeout d + 100 < 2 ^ 31" using Cons.prems(3) by simp
    from demo_execute [OF Cons.prems(1) ok [unfolded Execute] this] Execute show ?thesis
      by (metis add_increasing2 insert_iff order_refl singletonD zero_le_numeral)
  qed
  then obtain d1 where d1: "demo_step x d = Inr d1" "demo_inv p A d1" "dm_timeout d \<le> dm_timeout d1"
      "dm_timeout d1 \<le> dm_timeout d + 100"
      "500 \<le> dm_timeout d \<longrightarrow>
        dm_timeout d1 + 100 * int (pending_calls d1) = dm_timeout d + 100 * int (pending_calls d)" by blast
  moreover have "dm_timeout d1 + 100 * int (length xs) < 2 ^ 31" using d1(4) Cons.prems(3) by simp
  ultimately obtain d' where "demo_run xs d1 = Inr d'" "demo_inv p A d'" "dm_timeout d1 \<le> dm_timeout d'"
      "dm_timeout d' \<le> dm_timeout d1 + 100 * int (length xs)"
      "500 \<le> dm_timeout d1 \<longrightarrow>
        dm_timeout d' + 100 * int (pending_calls d') = dm_timeout d1 + 100 * int (pending_calls d1)"
    using Cons.IH [of d1] Cons.prems(2) by auto
  with d1 show ?case by (auto simp: obind_simps)
qed simp

text \<open>The life of the timer of \<open>testTimer\<close>. However collecting expired timers and executing the
  scheduled callbacks interleave, nothing faults. As long as \<open>timeout\<close>, which every run of the
  callback raises by 100, is below 500, the timer is armed and has \<open>timeout\<close> as its period; once it
  has reached 500 the timer is never armed again, and each later run of the callback is one that
  was in the queue by then.\<close>

theorem timer_demo_stops:
  assumes "testTimer n1 n2 n3 p1 p2 p3 (timer_manager_new now) = Inr d0" and "distinct [p1, p2, p3]"
    and "\<forall>x\<in>set (xs @ ys). act_ok {p1, p2, p3} x" and "length (xs @ ys) < 2 ^ 20"
  shows "\<exists>d d'. demo_run xs d0 = Inr d \<and> demo_run ys d = Inr d' \<and>
     (dm_timeout d < 500 \<longrightarrow> p1 \<in> set (m_timers (dm_manager d)) \<and>
        map_option m_ms (timer_store (dm_manager d) p1) = Some (dm_timeout d)) \<and>
     (500 \<le> dm_timeout d \<longrightarrow> p1 \<notin> set (m_timers (dm_manager d')) \<and>
        dm_timeout d' + 100 * int (pending_calls d') = dm_timeout d + 100 * int (pending_calls d))"
proof -
  let ?A = "{p1, p2, p3}"
  have i: "demo_inv p1 ?A d0" "dm_timeout d0 = 100"
    using testTimer_inv [OF timer_manager_new_start _ assms(2,1)] by (simp_all add: timer_manager_new_def)
  have "int (length xs) + int (length ys) < 2 ^ 20" using assms(4) by simp
  then have l: "dm_timeout d0 + 100 * int (length xs) < 2 ^ 31" using i(2) by simp
  obtain d where d: "demo_run xs d0 = Inr d" "demo_inv p1 ?A d" "dm_timeout d \<le> 100 + 100 * int (length xs)"
    using demo_run_inv [OF i(1) _ l] assms(3) i(2) by auto
  have "dm_timeout d + 100 * int (length ys) < 2 ^ 31"
    using d(3) \<open>int (length xs) + int (length ys) < 2 ^ 20\<close> by simp
  then obtain d' where d': "demo_run ys d = Inr d'" "demo_inv p1 ?A d'" "dm_timeout d \<le> dm_timeout d'"
      "500 \<le> dm_timeout d \<longrightarrow>
         dm_timeout d' + 100 * int (pending_calls d') = dm_timeout d + 100 * int (pending_calls d)"
    using demo_run_inv [OF d(2)] assms(3) by auto
  have "p1 \<in> set (m_timers (dm_manager d))" if "dm_timeout d < 500"
    using d(2) that tm_wf_armed [of "dm_manager d" p1] unfolding demo_inv_def recurs_def by auto
  then show ?thesis
    using d(1,2) d'(1,2,3,4) unfolding demo_inv_def recurs_def by auto
qed

theorem timer_demo_stops_witness:
  "\<exists>d0 d. testTimer 1000 1000 1000 1 2 3 (timer_manager_new 1000) = Inr d0 \<and>
     demo_run [Collect 1100 9, Execute 1100, Execute 1101] d0 = Inr d \<and> dm_timeout d = 200 \<and> 1 \<in> set (m_timers (dm_manager d))"
proof -
  obtain d0 where d0: "testTimer 1000 1000 1000 1 2 3 (timer_manager_new 1000) = Inr d0"
    by (simp add: testTimer_def add_timer_def timer_new_def ms_add_def ms_in_range_def split_beta add_timer_locked_def Let_def)
  let ?xs = "[Collect 1100 9, Execute 1100, Execute 1101]"
  obtain d where d: "demo_run ?xs d0 = Inr d" 
    and r: "dm_timeout d < 500 \<longrightarrow> 1 \<in> set (m_timers (dm_manager d))"
    using timer_demo_stops [OF d0, of ?xs "[]"] by (auto simp: act_ok_def)
  have "dm_timeout d = 200"
    using d0 d by (auto simp: testTimer_def add_timer_def timer_new_def ms_add_def ms_in_range_def add_timer_locked_def Let_def
      timer_manager_new_def list_expired_cb_def detect_clock_rollover_def expired_end_def timer_probe_def set_lower_bound_def set_insert_def
      timer_cmp_iff less_timer_key_def next_of_def timer_callBack_def timer_reset_def set_find_def set_erase_def deref_def List.map_filter_simps)
  with d0 d r show ?thesis by auto
qed

section \<open>\<open>test_io\<close>\<close>

datatype client_fn = Do_Io_Write | Do_Io_Read | Watch_Client

definition watch_client_read ::
  "'k epoll \<Rightarrow> nat \<Rightarrow> fiber_state \<Rightarrow> int \<Rightarrow> (client_fn, 'k, 'p) hook_world
   \<Rightarrow> (int \<times> (client_fn, 'k, 'p) hook_world) outcome" where
  "watch_client_read ep q st sockfd w =
     (if \<not> hk_iom w then Inl Null_Deref
      else obind (add_event ep (Some (im_this (hk_io w))) q st sockfd READ (Some (User_Fn (App_Fn Do_Io_Read))) (hk_io w))
             (\<lambda>(rt, io). Inr (rt, w\<lparr>hk_io := io\<rparr>)))"

text \<open>
  \<open>do_io_read\<close>, \<open>r\<close> being what \<open>read\<close> into the 1024 zeros of \<open>buf\<close> gave. The result is
  the text printed, up to the first zero byte; none when the connection was closed.
\<close>

definition do_io_read ::
  "'p posix \<Rightarrow> 'k epoll \<Rightarrow> int \<Rightarrow> read_result \<Rightarrow> (client_fn, 'k, 'p) hook_world
   \<Rightarrow> (byte list option \<times> (client_fn, 'k, 'p) hook_world) outcome" where
  "do_io_read px ep sockfd r w =
     (case r of
        Rd_Data d \<Rightarrow>
          obind (buf_store (length d) [0] (d @ drop (length d) (replicate 1024 0))) (\<lambda>buf.
            if \<not> hk_iom w then Inl Null_Deref
            else obind (post (Some (im_this (hk_io w))) (task_of_cb (Some (User_Fn (App_Fn Watch_Client))) None) (hk_io w))
                   (\<lambda>io. Inr (Some (takeWhile (\<lambda>b. b \<noteq> 0) buf), w\<lparr>hk_io := io\<rparr>)))
      | Rd_Eof \<Rightarrow> obind (hook_close px ep sockfd w) (\<lambda>(_, w1). Inr (None, w1))
      | Rd_Fail e \<Rightarrow> obind (hook_close px ep sockfd (w\<lparr>hk_errno := e\<rparr>)) (\<lambda>(_, w1). Inr (None, w1)))"

text \<open>\<open>do_io_write\<close> on the pending error of the socket: whether it reports success.\<close>

definition do_io_write :: "int \<Rightarrow> bool" where
  "do_io_write so_err \<longleftrightarrow> \<not> so_err \<noteq> 0"

text \<open>\<open>test_io\<close> up to \<open>connect\<close>, and after \<open>connect\<close> has returned \<open>rt\<close>.\<close>

definition test_io_connect ::
  "'p posix \<Rightarrow> 'k epoll \<Rightarrow> cint \<Rightarrow> millis \<Rightarrow> nat \<Rightarrow> nat \<Rightarrow> nat \<Rightarrow> fiber_state \<Rightarrow> int \<times> int \<Rightarrow> (client_fn, 'k, 'p) hook_world
   \<Rightarrow> (int \<times> connect_state \<times> (client_fn, 'k, 'p) hook_world) outcome" where
  "test_io_connect px ep junk now p ti q st conn w =
     obind (hook_socket px w) (\<lambda>(sockfd, w1).
     obind (MYASSERT (sockfd > 0) ''sockfd > 0'') (\<lambda>_.
     obind (hook_fcntl px junk sockfd F_SETFL O_NONBLOCK w1) (\<lambda>(_, w2).
     obind (hook_connect px ep now p ti q st sockfd conn w2) (\<lambda>(c, w3). Inr (sockfd, c, w3)))))"

definition test_io_connected ::
  "'k epoll \<Rightarrow> nat \<Rightarrow> fiber_state \<Rightarrow> int \<Rightarrow> int \<Rightarrow> (client_fn, 'k, 'p) hook_world
   \<Rightarrow> (client_fn, 'k, 'p) hook_world outcome" where
  "test_io_connected ep q st sockfd rt w =
     (if rt \<noteq> 0 \<and> hk_errno w = EINPROGRESS then
        (if \<not> hk_iom w then Inl Null_Deref
         else
           obind (add_event ep (Some (im_this (hk_io w))) q st sockfd WRITE (Some (User_Fn (App_Fn Do_Io_Write))) (hk_io w)) (\<lambda>(_, io1).
           obind (add_event ep (Some (im_this io1)) q st sockfd READ (Some (User_Fn (App_Fn Do_Io_Read))) io1) (\<lambda>(_, io2).
             Inr (w\<lparr>hk_io := io2\<rparr>))))
      else Inr w)"

text \<open>
  What \<open>do_io_read\<close> does with what it read: a full buffer leaves no room for the zero, which is
  stored behind the end; otherwise the bytes before the first zero are printed and registering the
  next read is scheduled, the event tables being left alone.
\<close>

lemma do_io_read_full: "length d = 1024 \<Longrightarrow> do_io_read px ep sockfd (Rd_Data d) w = Inl Out_Of_Bounds"
  by (simp add: do_io_read_def buf_store_def)

lemma do_io_read_short:
  assumes "length d < 1024" and "do_io_read px ep sockfd (Rd_Data d) w = Inr (r, w')"
  shows "r = Some (takeWhile (\<lambda>b. b \<noteq> 0) d)" and "io_same (hk_io w) (hk_io w')"
    and "queues_grow (\<lambda>p. if p = im_this (hk_io w) then [task_of_cb (Some (User_Fn (App_Fn Watch_Client))) None] else [])
           (hk_io w) (hk_io w')"
proof -
  have t: "takeWhile (\<lambda>b. b \<noteq> 0) (d @ 0 # xs) = takeWhile (\<lambda>b. b \<noteq> 0) d" for xs :: "byte list"
    by (induction d) auto
  from assms obtain io where p: "post (Some (im_this (hk_io w))) (task_of_cb (Some (User_Fn (App_Fn Watch_Client))) None) (hk_io w) = Inr io"
    and r: "r = Some (takeWhile (\<lambda>b. b \<noteq> 0) d)" and w': "w' = w\<lparr>hk_io := io\<rparr>"
    by (auto simp: do_io_read_def buf_store_def t split: if_splits)
  show "r = Some (takeWhile (\<lambda>b. b \<noteq> 0) d)" by (rule r)
  from post_grows [OF p] show "io_same (hk_io w) (hk_io w')"
    and "queues_grow (\<lambda>p. if p = im_this (hk_io w) then [task_of_cb (Some (User_Fn (App_Fn Watch_Client))) None] else [])
           (hk_io w) (hk_io w')"
    by (simp_all add: w' task_empty_def cong: if_cong)
qed

text \<open>
  By the time a callback runs its event is no longer registered: triggering an event takes its bit
  out of the context, so adding it again does not fail the assertion about adding an event twice.
\<close>

lemma triggered_event_not_twice:
  assumes "trigger_event event (nat fd) io = Inr io'" and "in_table fd io" and "cb \<noteq> None"
    and "io_core io"
  shows "\<not> (fc_events (m_fdContexts io' ! nat fd) AND event \<noteq> 0)"
    and "add_event ep cur q st fd event cb io' \<noteq> Inl (Assert_Fail ''can not add same event in the same fd'')"
proof -
  from assms(1) obtain sl io1 where sl: "get_event_context event = Inr sl"
    and io': "io' = io1\<lparr>m_fdContexts := (m_fdContexts io)[nat fd := event_cleared sl event (m_fdContexts io ! nat fd)]\<rparr>"
    by (rule trigger_event_Inr)
  have i: "0 \<le> fd" "nat fd < length (m_fdContexts io)" using assms(2) by (simp_all add: in_table_def)
  have c: "m_fdContexts io' ! nat fd = event_cleared sl event (m_fdContexts io ! nat fd)"
    using i by (simp add: io')
  then have b: "fc_events (m_fdContexts io' ! nat fd) AND event = 0"
    by simp (metis bit.conj_cancel_left and.assoc and.commute and_zero_eq)
  then show "\<not> (fc_events (m_fdContexts io' ! nat fd) AND event \<noteq> 0)" by simp
  have t: "in_table fd io'" using i by (simp add: in_table_def io')
  have ok: "ctx_ok (alive io) (event_cleared sl event (m_fdContexts io ! nat fd))"
    using assms(4) i by (intro ctx_ok_clear [OF _ sl]) (simp add: io_core_def)
  have "slot_ctx sl (m_fdContexts io' ! nat fd) = event_context_new"
    using ctx_ok_slot [OF ok sl] b c by (simp add: slot_fits_def)
  from add_event_ok [OF t refl sl b this] add_event_fails [OF t refl b] assms(3)
  show "add_event ep cur q st fd event cb io' \<noteq> Inl (Assert_Fail ''can not add same event in the same fd'')"
    by (cases "fst (ep_ctl ep (im_kernel io') (add_op (fc_events (m_fdContexts io' ! nat fd))) fd
        (EPOLLET OR fc_events (m_fdContexts io' ! nat fd) OR event)) = 0") simp_all
qed

end
