(* ===== verification/Demo_Main.thy ===== *)
theory Demo_Main
  imports Hook Wire_Protocol
begin

text \<open>
  The rest of test.cpp: the demonstrations that create an I/O manager and schedule some functions on it,
  up to the closing brace where the manager is destroyed, \<open>main\<close>, the session of commands that
  \<open>test_sock\<close> sends, and \<open>context_test\<close>, which uses \<open>ucontext\<close> directly.
\<close>

section \<open>Functions on an I/O manager\<close>

text \<open>The scheduled functions; \<open>Sleep_Print t\<close> is a lambda of \<open>test_sleep\<close>.\<close>

datatype main_fn = Test_Sock | Test_Io | Sleep_Print int

text \<open>What the construction of an \<open>IOManager\<close> takes from outside.\<close>

record 'k io_env =
  ie_uc :: uc_api
  ie_junk_stack :: "64 word"
  ie_junk_flag :: bool
  ie_stack :: "64 word"
  ie_main_fiber :: nat
  ie_root_fiber :: nat
  ie_this :: nat
  ie_thread :: nat
  ie_epoll :: "'k epoll"
  ie_kernel :: 'k
  ie_epfd :: int
  ie_pipe :: "int \<times> (int \<times> int) \<times> nat"
  ie_fcntl :: int
  ie_now :: millis
  ie_new_id :: "nat \<Rightarrow> nat"

text \<open>\<open>IOManager iom(threads)\<close> in a program that has no other scheduler.\<close>

definition demo_iom ::
  "64 word \<Rightarrow> 'k io_env \<Rightarrow> (main_fn hook_fn, 'k) io_manager outcome" where
  "demo_iom threads e =
     obind (scheduler_new (ie_uc e) (ie_junk_stack e) (ie_junk_flag e) (ie_stack e) (ie_main_fiber e) (ie_root_fiber e) threads True
              ''IOManager'' (ie_this e) (ie_thread e) None fiber_world_new thread_ctx_new) (\<lambda>(s, _, _, _).
       case ie_pipe e of (pipe_rt, fds, room) \<Rightarrow>
         io_manager_new (ie_epoll e) (ie_kernel e) (ie_this e) s Map.empty (ie_epfd e) pipe_rt fds room (ie_fcntl e) (ie_now e) (ie_new_id e))"

definition demo_task :: "main_fn \<Rightarrow> main_fn hook_fn sched_task" where
  "demo_task f = task_of_cb (Some (User_Fn (App_Fn f))) None"

definition testIOManager :: "'k io_env \<Rightarrow> (main_fn hook_fn, 'k) io_manager outcome" where
  "testIOManager e = obind (demo_iom 1 e) (\<lambda>iom. post (Some (ie_this e)) (demo_task Test_Io) iom)"

definition test_sleep :: "'k io_env \<Rightarrow> (main_fn hook_fn, 'k) io_manager outcome" where
  "test_sleep e =
     obind (demo_iom 1 e) (\<lambda>iom.
     obind (post (Some (ie_this e)) (demo_task (Sleep_Print 2000)) iom) (\<lambda>iom1.
       post (Some (ie_this e)) (demo_task (Sleep_Print 3000)) iom1))"

definition test_hook :: "'k io_env \<Rightarrow> (main_fn hook_fn, 'k) io_manager outcome" where
  "test_hook e = obind (demo_iom 4 e) (\<lambda>iom. post (Some (ie_this e)) (demo_task Test_Sock) iom)"

definition demo_main :: "'k io_env \<Rightarrow> (main_fn hook_fn, 'k) io_manager outcome" where
  "demo_main e = test_hook e"

text \<open>
  What they leave to the destructor of the manager: the queue as scheduled, and one thread less than
  asked for, the caller's. With one thread nobody executes before the destructor stops the manager.
\<close>

definition left_to :: "64 word \<Rightarrow> 'u sched_task list \<Rightarrow> nat \<Rightarrow> ('u, 'k) io_manager \<Rightarrow> bool" where
  "left_to threads ts this io \<longleftrightarrow> im_this io = this \<and> (\<exists>s. im_schedulers io this = Some s \<and> m_tasks s = ts \<and> \<not> m_stopping s \<and>
     m_idleThreadCount s = 0 \<and> m_useCaller s \<and> length (m_threads s) = unat (threads - 1))"

lemma demo_iom_left: "demo_iom threads e = Inr io \<Longrightarrow> left_to threads [] (ie_this e) io"
  by (cases "ie_pipe e") (auto simp: demo_iom_def scheduler_new_def io_manager_new_def scheduler_start_def left_to_def Let_def ctl_def
      context_resize_def MYASSERT_def outcome_simps split_beta split: if_splits)

lemma post_left:
  assumes "post (Some this) t io = Inr io'" and "left_to threads ts this io" and "\<not> task_empty t"
  shows "left_to threads (ts @ [t]) this io'"
  using assms by (auto simp: post_def left_to_def schedule_def schedule_no_lock_def Let_def io_tickle_def own_scheduler_def hasIdleThreads_def
      split: if_splits)

lemma demo_main_left:
  "demo_main e = Inr io \<Longrightarrow> left_to 4 [demo_task Test_Sock] (ie_this e) io"
  "testIOManager e = Inr io \<Longrightarrow> left_to 1 [demo_task Test_Io] (ie_this e) io"
  "test_sleep e = Inr io \<Longrightarrow> left_to 1 [demo_task (Sleep_Print 2000), demo_task (Sleep_Print 3000)] (ie_this e) io"
  by (auto simp: demo_main_def test_hook_def testIOManager_def test_sleep_def demo_task_def elim!: obind_InrE
      dest!: demo_iom_left post_left)

text \<open>A lambda of \<open>test_sleep\<close> up to its wait; \<open>None\<close> when the original \<open>sleep\<close> is called.\<close>

definition sleep_print ::
  "millis \<Rightarrow> nat \<Rightarrow> nat \<Rightarrow> int \<Rightarrow> (main_fn, 'k, 'p) hook_world \<Rightarrow> (nat option \<times> (main_fn, 'k, 'p) hook_world) outcome" where
  "sleep_print now p q t w = hook_sleep now p q (of_int (t div 1000)) w"

section \<open>The session of \<open>test_sock\<close>\<close>

definition c_string :: "string \<Rightarrow> byte list" where
  "c_string s = map (\<lambda>c. of_nat (of_char c)) s"

definition test_sock_cmds :: "(cmd_flag \<times> byte list \<times> byte list) list" where
  "test_sock_cmds = map (\<lambda>(f, k, v). (f, c_string k, c_string v))
     [(CMD_SET, ''hello'', ''world''), (CMD_SET, ''myc'', ''66666''), (CMD_SET, ''zsx'', ''world''), (CMD_SET, ''mkx'', ''world''),
      (CMD_SET, ''whb'', ''world''), (CMD_SET, ''abc'', ''world''), (CMD_SET, ''ddd'', ''aaa''), (CMD_GET, ''ddd'', []), (CMD_GET, ''myc'', [])]"

text \<open>
  The calls of \<open>sendCmd\<close> in turn. For call \<open>i\<close>, \<open>io i\<close> is what its buffer of 1024 bytes holds at first
  and what its two reads store. The result is all that was written to the socket, and the strings returned.
\<close>

fun send_cmds ::
  "(nat \<Rightarrow> byte list \<times> byte list \<times> byte list) \<Rightarrow> nat \<Rightarrow> (cmd_flag \<times> byte list \<times> byte list) list
   \<Rightarrow> (byte list \<times> byte list list) outcome" where
  "send_cmds io i [] = Inr ([], [])"
| "send_cmds io i ((flag, key, val) # cs) =
     (case io i of (buff, r1, r2) \<Rightarrow>
        obind (sendCmd buff flag key val r1 r2) (\<lambda>(len, cmd, reply).
        obind (send_cmds io (Suc i) cs) (\<lambda>(out, replies). Inr (len @ cmd @ out, reply # replies))))"

text \<open>\<open>rt\<close> is the result of \<open>connect\<close>; those of \<open>socket\<close> and \<open>setsockopt\<close> are not looked at.\<close>

definition test_sock :: "int \<Rightarrow> (nat \<Rightarrow> byte list \<times> byte list \<times> byte list) \<Rightarrow> (byte list \<times> byte list list) outcome" where
  "test_sock rt io = (if rt \<noteq> 0 then Inr ([], []) else send_cmds io 0 test_sock_cmds)"

section \<open>\<open>context_test\<close>\<close>

definition func1 :: "string list" where
  "func1 = [''1'', ''11'', ''111'', ''1111'']"

text \<open>
  The lines printed, and whether the function returns. \<open>link\<close> says whether \<open>uc_link\<close> of the
  context made for \<open>func1\<close> is set, to the one \<open>swapcontext\<close> saved: if not, the thread ends with \<open>func1\<close>.
\<close>

definition run_linked :: "bool \<Rightarrow> string list \<Rightarrow> string list \<Rightarrow> string list \<times> bool" where
  "run_linked link fn cont = (if link then (fn @ cont, True) else (fn, False))"

definition context_test :: "string list \<times> bool" where
  "context_test = run_linked False func1 [''main'']"

section \<open>A server's side of the session\<close>

text \<open>Frames: eight bytes with the length, then that many bytes, which are exactly one command.\<close>

fun read_session :: "nat \<Rightarrow> byte list \<Rightarrow> ((cmd_flag \<times> byte list \<times> byte list) list \<times> byte list) option" where
  "read_session 0 bs = Some ([], bs)"
| "read_session (Suc n) bs =
     (let len = le_value (take 8 bs); rest = drop 8 bs
      in if length bs < 8 \<or> length rest < len then None
         else (case read_cmd (take len rest) of
                 Some (flag, key, val, []) \<Rightarrow>
                   (case read_session n (drop len rest) of
                      Some (cs, r) \<Rightarrow> Some ((flag, key, val) # cs, r)
                    | None \<Rightarrow> None)
               | _ \<Rightarrow> None))"

lemma frame_read:
  assumes "length key < 2 ^ 31 - 1" and "length val < 2 ^ 31 - 1"
  shows "read_session (Suc n) (le_bytes 8 (length key + length val + 22) @ cmd_bytes flag key val @ rest) =
     (case read_session n rest of Some (cs, r) \<Rightarrow> Some ((flag, key, val) # cs, r) | None \<Rightarrow> None)"
proof -
  have l: "le_value (le_bytes 8 (length key + length val + 22)) = length key + length val + 22"
    by (rule le_value_bytes) (use assms in simp)
  have "read_cmd (cmd_bytes flag key val) = Some (flag, key, val, [])"
    using read_cmd_bytes [of key val flag "[]"] assms by simp
  then show ?thesis by (simp add: Let_def l)
qed

definition short_cmd :: "cmd_flag \<times> byte list \<times> byte list \<Rightarrow> bool" where
  "short_cmd c \<longleftrightarrow> length (fst (snd c)) < 2 ^ 31 - 1 \<and> length (snd (snd c)) < 2 ^ 31 - 1"

lemma sendCmd_sent:
  assumes "sendCmd buff flag key val r1 r2 = Inr (len, cmd, reply)" and "short_cmd (flag, key, val)"
  shows "len = le_bytes 8 (length key + length val + 22)" and "cmd = cmd_bytes flag key val"
proof -
  have g: "getBinaryCmd buff flag key val =
     (if length key + length val + 22 \<le> length buff
      then Inr (length key + length val + 22, cmd_bytes flag key val @ drop (length key + length val + 22) buff)
      else Inl Out_Of_Bounds)"
    by (rule getBinaryCmd_eq) (use assms(2) in \<open>simp_all add: short_cmd_def\<close>)
  from assms(1) show "len = le_bytes 8 (length key + length val + 22)" "cmd = cmd_bytes flag key val"
    by (auto simp: sendCmd_def g Let_def split: if_splits elim!: obind_InrE)
qed

lemma send_cmds_read:
  "send_cmds io i cs = Inr (out, replies) \<Longrightarrow> list_all short_cmd cs \<Longrightarrow>
   read_session (length cs) (out @ rest) = Some (cs, rest) \<and> length replies = length cs"
proof (induction io i cs arbitrary: out replies rule: send_cmds.induct)
  case (2 io i flag key val cs)
  obtain buff r1 r2 where io: "io i = (buff, r1, r2)" by (cases "io i") auto
  from "2.prems"(1) obtain len cmd reply out' rs where s: "sendCmd buff flag key val r1 r2 = Inr (len, cmd, reply)"
    and t: "send_cmds io (Suc i) cs = Inr (out', rs)" and out: "out = len @ cmd @ out'" "replies = reply # rs"
    by (auto simp: io elim!: obind_InrE)
  from "2.IH" [OF io [symmetric] refl t] "2.prems"(2)
  have "read_session (length cs) (out' @ rest) = Some (cs, rest)" "length rs = length cs" by simp_all
  with sendCmd_sent [OF s] "2.prems"(2) show ?case
    by (simp add: out frame_read short_cmd_def del: read_session.simps)
qed simp

text \<open>A peer that answers each command with fewer than 1024 bytes, after announcing how many.\<close>

definition answers :: "(nat \<Rightarrow> byte list \<times> byte list \<times> byte list) \<Rightarrow> (nat \<Rightarrow> byte list) \<Rightarrow> bool" where
  "answers io r \<longleftrightarrow> (\<forall>i. length (fst (io i)) = 1024 \<and> snd (io i) = (le_bytes 8 (length (r i)), r i) \<and> length (r i) < 1024)"

definition fitting_cmd :: "cmd_flag \<times> byte list \<times> byte list \<Rightarrow> bool" where
  "fitting_cmd c \<longleftrightarrow> length (fst (snd c)) + length (snd (snd c)) + 22 < 1024"

definition text_of :: "byte list \<Rightarrow> byte list" where
  "text_of bs = takeWhile (\<lambda>b. b \<noteq> 0) bs"

lemma sendCmd_answered:
  assumes "answers io r" and "fitting_cmd (flag, key, val)" and "io i = (buff, r1, r2)"
  shows "sendCmd buff flag key val r1 r2 =
     Inr (le_bytes 8 (length key + length val + 22), cmd_bytes flag key val, text_of (r i))"
proof -
  have b: "length buff = 1024" "r1 = le_bytes 8 (length (r i))" "r2 = r i" "length (r i) < 1024"
    using assms(1,3) unfolding answers_def by (auto dest: spec [of _ i])
  have "length key < 2 ^ 31 - 1" "length val < 2 ^ 31 - 1" "length key + length val + 22 < length buff" "length (r i) < 2 ^ 64"
    "length r2 \<le> length (r i)"
    using assms(2) b by (simp_all add: fitting_cmd_def)
  from reply_is_trusted [OF this] b show ?thesis by (simp add: text_of_def)
qed

lemma send_cmds_runs:
  "answers io r \<Longrightarrow> list_all fitting_cmd cs \<Longrightarrow>
   \<exists>out. send_cmds io i cs = Inr (out, map (\<lambda>j. text_of (r j)) [i..<i + length cs])"
proof (induction cs arbitrary: i)
  case (Cons c cs)
  obtain flag key val where c: "c = (flag, key, val)" by (cases c) auto
  obtain buff r1 r2 where io: "io i = (buff, r1, r2)" by (cases "io i") auto
  have "fitting_cmd (flag, key, val)" using Cons.prems(2) c by simp
  note s = sendCmd_answered [OF Cons.prems(1) this io]
  from Cons.IH [OF Cons.prems(1), of "Suc i"] Cons.prems(2)
  obtain out where "send_cmds io (Suc i) cs = Inr (out, map (\<lambda>j. text_of (r j)) [Suc i..<Suc i + length cs])" by auto
  moreover have "[i..<i + length (c # cs)] = i # [Suc i..<Suc i + length cs]" by (simp add: upt_rec)
  ultimately show ?case by (simp add: c io s)
qed simp

lemma fitting_short: "list_all fitting_cmd cs \<Longrightarrow> list_all short_cmd cs"
  by (auto simp: list_all_iff fitting_cmd_def short_cmd_def)

section \<open>Two sleepers\<close>

text \<open>
  Where calls are hooked the two lambdas wait at the same time, each for its own deadline. Where they are
  not, as in \<open>test_sleep\<close>, which enables nothing, each calls the original \<open>sleep\<close> and the second starts
  after the first has ended.
\<close>

lemma sleep_print_hooked:
  assumes inv: "hook_inv ep held w" and law: "epoll_law ep" and t: "t \<in> {2000, 3000}" and p: "fresh_timer p (hk_io w)"
    and en: "hk_enable w" and run: "sleep_print now p q t w = Inr (r, w')"
  shows "r = Some p" and "deadlines (im_timers (hk_io w')) = (deadlines (im_timers (hk_io w)))(p \<mapsto> now + t)"
    and "timer_store (im_timers (hk_io w')) p = Some \<lparr>m_recurring = False, m_ms = t, m_next = now + t, m_cb = Some (User_Fn (Schedule_Fiber q))\<rparr>"
    and "hook_inv ep held w'" and "hk_enable w'"
proof -
  have ms: "uint (of_int (t div 1000) * 1000 :: 32 word) = t" using t by auto
  have wf: "tm_wf (im_timers (hk_io w))"
    using inv law by (auto simp: hook_inv_def intro: io_wf_timers io_reach_wf)
  have s: "hook_sleep now p q (of_int (t div 1000)) w = Inr (r, w')" using run by (simp add: sleep_print_def)
  from s obtain io where io: "timed now p t (User_Fn (Schedule_Fiber q)) (hk_io w) = Inr io" "r = Some p" "w' = w\<lparr>hk_io := io\<rparr>"
    by (cases rule: hook_sleep_Inr) (use en ms in auto)
  note tm = timed_same [OF wf p io(1)]
  show "r = Some p" "hk_enable w'" using io en by simp_all
  show "deadlines (im_timers (hk_io w')) = (deadlines (im_timers (hk_io w)))(p \<mapsto> now + t)"
    "timer_store (im_timers (hk_io w')) p = Some \<lparr>m_recurring = False, m_ms = t, m_next = now + t, m_cb = Some (User_Fn (Schedule_Fiber q))\<rparr>"
    using tm io(3) by simp_all
  show "hook_inv ep held w'" by (rule hook_sleep_inv [OF inv p s])
qed

lemma test_sleep_overlaps:
  assumes inv: "hook_inv ep held w" and law: "epoll_law ep" and en: "hk_enable w"
    and p: "fresh_timer p1 (hk_io w)" "fresh_timer p2 (hk_io w1)"
    and run: "sleep_print n1 p1 q1 2000 w = Inr (r1, w1)" "sleep_print n2 p2 q2 3000 w1 = Inr (r2, w2)"
  shows "deadlines (im_timers (hk_io w2)) = (deadlines (im_timers (hk_io w)))(p1 \<mapsto> n1 + 2000, p2 \<mapsto> n2 + 3000)"
proof -
  note 1 = sleep_print_hooked [OF inv law _ p(1) en run(1)]
  have "hook_inv ep held w1" "hk_enable w1" using 1(4,5) by simp_all
  from sleep_print_hooked(2) [OF this(1) law _ p(2) this(2) run(2)] 1(2) show ?thesis by simp
qed

lemma test_sleep_unhooked: "\<not> hk_enable w \<Longrightarrow> sleep_print now p q t w = Inr (None, w)"
  by (simp add: sleep_print_def hook_sleep_def)

section \<open>Properties\<close>

text \<open>C34: a session is transmitted as it was meant. If every command fits the buffer of \<open>sendCmd\<close> and the peer answers
  each with fewer bytes than the buffer has, no call leaves its buffer, the strings returned are the
  answers in order, each up to its first zero byte, and a reader of the stream, whatever follows it, gets
  exactly the commands sent, in order.\<close>

theorem session_roundtrip:
  assumes "answers io r" and "list_all fitting_cmd cs"
  shows "\<exists>out. send_cmds io i cs = Inr (out, map (\<lambda>j. text_of (r j)) [i..<i + length cs]) \<and>
     read_session (length cs) (out @ rest) = Some (cs, rest)"
proof -
  obtain out where s: "send_cmds io i cs = Inr (out, map (\<lambda>j. text_of (r j)) [i..<i + length cs])"
    using send_cmds_runs [OF assms] by blast
  from send_cmds_read [OF this fitting_short [OF assms(2)]] s show ?thesis by blast
qed

text \<open>The nine commands of \<open>test_sock\<close>, to a peer that says OK.\<close>

definition ok_io :: "nat \<Rightarrow> byte list \<times> byte list \<times> byte list" where
  "ok_io i = (replicate 1024 0, le_bytes 8 3, [79, 75, 0])"

theorem session_roundtrip_witness:
  "\<exists>out. test_sock 0 ok_io = Inr (out, replicate 9 [79, 75]) \<and> read_session 9 out = Some (test_sock_cmds, [])"
proof -
  have a: "answers ok_io (\<lambda>_. [79, 75, 0])" by (simp add: answers_def ok_io_def) (simp only: numeral_3_eq_3)
  have f: "list_all fitting_cmd test_sock_cmds" and n: "length test_sock_cmds = 9"
    by (simp_all add: test_sock_cmds_def fitting_cmd_def c_string_def)
  have "text_of [79, 75, 0] = [79, 75]" by (simp add: text_of_def)
  then have "map (\<lambda>j. text_of [79, 75, 0]) [0..<0 + 9] = replicate 9 [79, 75]"
    by (simp only: map_replicate_const length_upt) simp
  with session_roundtrip [OF a f, of 0 "[]"] show ?thesis by (simp add: test_sock_def n)
qed

end
