(* ===== verification/Spec2Isabelle.thy ===== *)
theory Spec2Isabelle
  imports Timer_Manager Fd_Manager Singleton Fiber Scheduler Scheduler_Concurrent Worker_Loop Worker_Refinement Coop_Loop Caller_Scheduler IO_Manager Io_Concurrent Hook Do_Io_Loop Connect_Loop Io_Run Hook_Init Pool_Stop Wire_Protocol Echo_Server Demo_Client Demo_Main
begin

text \<open>
  MyCoroutine: asymmetric stackful coroutines for Linux, an N:M scheduler, timers and an epoll-driven
  I/O manager, in C++ (src/). This library models the program component by component and proves
  what each of them does.

  \<^bold>\<open>The program and the theories.\<close> A \<open>Fiber\<close> (Fiber.h, Fiber.cpp) is a coroutine with its own
  stack and a \<open>ucontext\<close>; a \<open>Scheduler\<close> (Scheduler.h, Scheduler.cpp) owns a queue of tasks,
  fibers or callbacks, and threads that execute \<open>run\<close>; a \<open>TimerManager\<close> (Timer.h, Timer.cpp)
  keeps timers in a \<open>std::set\<close>; an \<open>IOManager\<close> (IOManager.h, IOManager.cpp) is both a
  \<open>Scheduler\<close> and a \<open>TimerManager\<close>, and its idle loop turns expired timers and epoll events
  into tasks; \<open>FdManager\<close> (FdManager.h, FdManager.cpp) records what the system call hooks
  (Hook.cpp) need to know of each descriptor.

    \<^item> \<open>Coro_Prelude\<close>: aborts and undefined behaviour as values (\<open>fault\<close>, \<open>outcome\<close>),
      \<open>MYASSERT\<close>, vectors indexed by an \<open>int\<close>, milliseconds, reachability and the interface
      \<open>safe_system\<close> (start, step, invariant) that every stateful component interprets.
    \<^item> \<open>Ordered_Set\<close>: the operations of \<open>std::set\<close> that Timer.cpp uses, and the interface
      \<open>strict_total\<close> of its comparison object.
    \<^item> \<open>Timer_Manager\<close>: \<open>timer\<close> and \<open>timer_manager\<close> are the members of the two classes; one
      definition per member function; \<open>timer_source\<close> is the interface the idle loop relies on.
    \<^item> \<open>Fd_Manager\<close>: \<open>fd_ctx\<close>, \<open>fd_manager\<close> and their functions; \<open>fstat\<close> and \<open>fcntl\<close> are
      the parameter \<open>posix\<close>.
    \<^item> \<open>Singleton\<close>: the static objects of Singleton.h; calls on \<open>FdMgr\<close> work on one
      \<open>fd_manager\<close>, which is why \<open>Hook\<close> can pass it around as a value.
    \<^item> \<open>Fiber\<close>: fibers are objects in a store, the thread-local variables a record. A context is
      where it continues: nowhere, at the entry, or on the stack of some fiber. \<open>t_exec\<close> is the
      fiber on whose stack the thread really is, the only component that is not a variable of the
      program.
    \<^item> \<open>Scheduler\<close>: the queue (\<open>schedule\<close>, with the interface \<open>task_queue\<close>), construction,
      \<open>start\<close>, \<open>stop\<close>, and one turn of \<open>run\<close> cut at its switches: \<open>run_lookup\<close> (critical
      section), \<open>run_dispatch\<close> (up to the resume), \<open>run_return\<close> (after it). Dropping the last
      pointer of the loop destroys a fiber (\<open>fiber_release\<close>) unless another owner has one or the fiber
      is inside \<open>MainFunc\<close>, which keeps one on the fiber's own stack (\<open>main_func_holds\<close>).
    \<^item> \<open>Scheduler_Concurrent\<close>: all workers interleaved. Each is a program counter in \<open>run\<close>;
      a step is what a thread does between two points at which another can interfere. Fibers are
      reduced to their state here; \<open>yield\<close> is two steps, the state change and the switch.
    \<^item> \<open>Worker_Loop\<close>: these turns composed into the loop of \<open>run\<close> (\<open>run_loop\<close>), given what
      each task schedules; \<open>fifo_run\<close> is the specification it is compared with.
      \<open>Worker_Refinement\<close>: for callbacks that do not yield, any number of its turns is an
      execution of the interleaved model with one worker, and what it executes is first in, first out.
    \<^item> \<open>Coop_Loop\<close>: the same loop (\<open>coop_loop\<close>) for tasks that yield. A function is a list of
      segments; between two it schedules the fiber it runs on and yields, as \<open>test_fiber1\<close> of
      test.cpp does. \<open>round_robin\<close> is the specification, a queue without fibers;
      \<open>test_fibers\<close> are the bodies of the five demonstration functions.
    \<^item> \<open>Caller_Scheduler\<close>: \<open>caller_stop\<close>, \<open>stop\<close> of a scheduler that uses its caller's
      thread with all that happens until it returns: the switch to the root fiber, \<open>run\<close> on it,
      its end and the switch back.
    \<^item> \<open>IO_Manager\<close>: event contexts, the five event operations, \<open>tickle\<close>, \<open>stopping\<close> and one
      turn of the idle loop. \<open>epoll_ctl\<close> is a parameter with the documented effect on the
      interest list (\<open>epoll_law\<close>), the results of \<open>epoll_wait\<close> are arguments. \<open>io_step\<close> executes
      the operations one at a time, and closes descriptors only while none of their events is registered.
    \<^item> \<open>Io_Concurrent\<close>: \<open>addEvent\<close>, \<open>delEvent\<close> and \<open>cancelEvent\<close> of several threads
      interleaved: the reads and writes of a context, \<open>epoll_ctl\<close> and the counter are steps, and the
      mutex of a context is taken where the code takes it.
    \<^item> \<open>Hook\<close>: the wrapped system calls of Hook.cpp. \<open>hook_world\<close> holds the I/O manager, the
      descriptor table, the kernel and the live \<open>timer_info\<close> objects. \<open>do_io\<close> is
      \<open>do_io_entry\<close>, then rounds (\<open>do_io_round\<close>) that end in a \<open>yield\<close>, then
      \<open>do_io_resume\<close>; \<open>connect_with_timeout\<close> is cut in the same way.
    \<^item> \<open>Do_Io_Loop\<close>: \<open>do_io_loop\<close>, all rounds of \<open>do_io\<close>, what the rest of the program does
      during a wait being a function of the state (\<open>rd_others\<close>); \<open>blocking_io\<close> is its
      specification, \<open>served\<close> what it relies on. \<open>idle_loop\<close>, the turns of \<open>IOManager::idle\<close>.
    \<^item> \<open>Connect_Loop\<close>: \<open>connect_call\<close>, all of \<open>connect\<close>, with the specification \<open>blocking_connect\<close>,
      and its wait composed with the timers and the turns of the idle loop.
    \<^item> \<open>Io_Run\<close>: the loop of \<open>run\<close> on a thread of an I/O manager (\<open>io_run_loop\<close>): queue, timers,
      pipe and fibers together. \<open>timed_run\<close> is the specification, a queue with a clock.
    \<^item> \<open>Hook_Init\<close>: the pointers to the original functions and how the static initialiser binds
      them; \<open>dlsym\<close> is a parameter.
    \<^item> \<open>Pool_Stop\<close>: the interleaved workers after a stop, and \<open>testScheduler\<close> of test.cpp, whose three
      workers they are.
    \<^item> \<open>Wire_Protocol\<close>: \<open>getBinaryCmd\<close> and \<open>sendCmd\<close> of test.cpp on byte buffers, and a
      reader of the format; \<open>Echo_Server\<close>: server.cpp, the handler of a connection as a
      recursion over the results of its \<open>read\<close> and \<open>write\<close> calls.
    \<^item> \<open>Demo_Client\<close>: the timer demonstration of test.cpp (\<open>testTimer\<close>), its callback interleaved
      with collecting expired timers, and the event demonstration (\<open>test_io\<close>).
    \<^item> \<open>Demo_Main\<close>: \<open>main\<close> of test.cpp and the demonstrations that schedule functions on an
      I/O manager, the whole session of commands (\<open>test_sock\<close>) with a server's reader of it, and
      \<open>context_test\<close>.

  \<^bold>\<open>What the lemmas show.\<close> The timer manager implements a map from timers to periods and deadlines; its
  set stays ordered although deadlines change, and no operation erases past the end. One fiber executes
  per worker, resume and yield are inverse, a task ends in a state that can only be reset or
  destroyed, and before its end it keeps itself alive. The scheduler's queue is first in, first out; a worker asked to stop executes all that is
  queued and then leaves its loop; tasks that yield are executed round robin; with
  \<open>use_caller\<close> and one thread \<open>stop\<close>, and only \<open>stop\<close>, executes what was scheduled; the counters are exact in every
  interleaving; fibers are exclusive to a worker under a stated discipline and not without it. The
  event tables, the pending count and the kernel's interest list agree, also under interleaved calls as
  long as \<open>addEvent\<close>, which takes no lock, is alone on its descriptor; registering and removing is
  the identity, cancelling schedules exactly what was registered; several threads see these
  operations as atomic then, and can corrupt the tables if it is not. The idle loop ends exactly
  when a stop was requested and no task, timer or event is left. Time-outs set with
  \<open>setsockopt\<close> never reach \<open>do_io\<close>; a wait in \<open>do_io\<close> that times out fails with
  \<open>ETIMEDOUT\<close> and leaves no trace in the event tables. The whole \<open>do_io\<close> is a blocking call as long
  as its waits are ended; as the idle loop is written, it ends none; a hooked \<open>connect\<close>
  that has to wait is ended by its time-out only. A stop loses no task that was scheduled before it or by
  a task. An I/O manager that is to stop executes its queue and its timers, none early, and ends; a
  recurring timer keeps it from ending, and blocks it once the pipe is full. Several properties state
  where the code does something else than its comments say; each names the branch responsible.

  \<^bold>\<open>Bounds.\<close> Loops run over lists (the queue, the expired timers, the results of successive
  \<open>epoll_wait\<close>, \<open>read\<close> or \<open>write\<close> calls), except \<open>run_loop\<close>,
  \<open>io_run_loop\<close> and \<open>coop_loop\<close>, which are given a number of turns: one for each callback, or segment, that is or
  will be queued (\<open>prog_bound\<close> bounds them), one for the idle fiber to end and one to notice it are
  enough (in \<open>io_run_loop\<close> also one for each reading of the clock until every timer is due), and
  \<open>do_io_loop\<close>, a round for each result of the original function. \<open>size_t\<close> counters and identifiers are 64-bit
  words, event masks and flags 32-bit words, stack sizes are truncated to 32 bits; milliseconds are
  integers with the range of the 64-bit representation checked where the code adds and subtracts.

  \<^bold>\<open>What is not modelled.\<close> Memory ordering and data races on plain members (\<open>m_stopping\<close>,
  \<open>m_tickled\<close>); locks, other than as the granularity of steps and, in \<open>Io_Concurrent\<close>, the mutex of a
  descriptor; \<open>cancalAll\<close> and the handling of events are single steps; the contents of stacks; printing.
\<close>

end
